(* ===== verification/Gw_Prelude.thy ===== *)
theory Gw_Prelude
  imports Main "HOL-Library.Word" "HOL-Library.Sublist" "HOL-Library.Multiset"
begin

text \<open>
  What the components share: the names of the machine integer types, the collections of
  rewrite and invariant rules, generic facts on lists, and two locales for machines driven
  by a list of operations.

  \<^item> \<open>op_machine\<close>: a state and an operation that cannot fail. An invariant that every
    operation keeps holds after every run.
  \<^item> \<open>op_refinement\<close>: an \<open>op_machine\<close> with an abstraction function that turns every
    operation into one of an abstract machine. A run is then a run of the abstract machine.
\<close>

type_synonym u8 = "8 word"
type_synonym u16 = "16 word"
type_synonym u32 = "32 word"
type_synonym u64 = "64 word"

text \<open>
  What a signed number of the code holds when the exact result is \<open>n\<close>: two's complement, as compiled. C++ leaves an
  overflowing sum or product undefined; the properties say when none happens.
\<close>

definition i32 :: "int \<Rightarrow> int" where
  "i32 n = sint (word_of_int n :: u32)"

definition i64 :: "int \<Rightarrow> int" where
  "i64 n = sint (word_of_int n :: u64)"

lemma i32_id [simp]: "- (2 ^ 31) \<le> n \<Longrightarrow> n < 2 ^ 31 \<Longrightarrow> i32 n = n"
  by (simp add: i32_def signed_of_int signed_take_bit_int_eq_self)

lemma i64_id: "- (2 ^ 63) \<le> n \<Longrightarrow> n < 2 ^ 63 \<Longrightarrow> i64 n = n"
  by (simp add: i64_def signed_of_int signed_take_bit_int_eq_self)

lemma i64_shift: "i64 (n + 2 ^ 64) = i64 n"
proof -
  have "(word_of_int (n + 2 ^ 64) :: u64) = word_of_int n"
    by (rule word_of_int_eq_iff [THEN iffD2]) (simp add: take_bit_eq_mod)
  then show ?thesis by (simp only: i64_def)
qed

named_theorems str_simps "rewrite rules for the text functions"
named_theorems inv_intros "an operation keeps its component's invariant"
named_theorems frame_simps "what an operation leaves unchanged"

section \<open>Machines driven by operations\<close>

locale op_machine =
  fixes step :: "'s \<Rightarrow> 'op \<Rightarrow> 's"
    and inv :: "'s \<Rightarrow> bool"
  assumes step_inv: "inv s \<Longrightarrow> inv (step s x)"
begin

lemma run_inv: "inv s \<Longrightarrow> inv (foldl step s xs)"
  by (induction xs arbitrary: s) (auto intro: step_inv)

end

locale op_refinement = op_machine step inv
  for step :: "'s \<Rightarrow> 'op \<Rightarrow> 's" and inv :: "'s \<Rightarrow> bool" +
  fixes astep :: "'a \<Rightarrow> 'op \<Rightarrow> 'a"
    and abs :: "'s \<Rightarrow> 'a"
  assumes step_abs: "inv s \<Longrightarrow> abs (step s x) = astep (abs s) x"
begin

lemma run_abs: "inv s \<Longrightarrow> abs (foldl step s xs) = foldl astep (abs s) xs"
  by (induction xs arbitrary: s) (simp_all add: step_abs step_inv)

end

section \<open>Lists\<close>

text \<open>The last index of a list at which a predicate holds.\<close>

fun last_idx :: "('a \<Rightarrow> bool) \<Rightarrow> 'a list \<Rightarrow> nat option" where
  "last_idx P [] = None"
| "last_idx P (x # xs) =
     (case last_idx P xs of
        Some i \<Rightarrow> Some (Suc i)
      | None \<Rightarrow> if P x then Some 0 else None)"

lemma last_idx_None: "last_idx P xs = None \<longleftrightarrow> (\<forall>x \<in> set xs. \<not> P x)"
  by (induction xs) (auto split: option.splits)

lemma last_idx_Some:
  "last_idx P xs = Some i \<longleftrightarrow>
     i < length xs \<and> P (xs ! i) \<and> (\<forall>j < length xs. i < j \<longrightarrow> \<not> P (xs ! j))"
proof (induction xs arbitrary: i)
  case Nil
  then show ?case by simp
next
  case (Cons x xs)
  show ?case
  proof (cases "last_idx P xs")
    case None
    then have "\<forall>j < length xs. \<not> P (xs ! j)"
      by (auto simp: last_idx_None)
    with None show ?thesis
      by (cases i) (auto simp: nth_Cons split: nat.splits)
  next
    case (Some k)
    with Cons.IH [of k]
    have k: "k < length xs" "P (xs ! k)" "\<And>j. j < length xs \<Longrightarrow> k < j \<Longrightarrow> \<not> P (xs ! j)"
      by auto
    have last: "i < length (x # xs) \<and> P ((x # xs) ! i) \<and>
        (\<forall>j < length (x # xs). i < j \<longrightarrow> \<not> P ((x # xs) ! j)) \<longleftrightarrow> i = Suc k" (is "?l = _")
    proof
      assume l: ?l
      show "i = Suc k"
      proof (rule ccontr)
        assume "i \<noteq> Suc k"
        then consider "i < Suc k" | "Suc k < i" by linarith
        then show False
        proof cases
          case 1
          with l k(1,2) show False by force
        next
          case 2
          with l k(3) [of "i - 1"] show False by (cases i) auto
        qed
      qed
    next
      assume "i = Suc k"
      with k show ?l by (auto simp: nth_Cons split: nat.splits)
    qed
    show ?thesis using Some last by (auto simp del: nth_Cons_Suc)
  qed
qed

lemma last_idx_snoc:
  "last_idx P (xs @ [x]) = (if P x then Some (length xs) else last_idx P xs)"
  by (induction xs) (auto split: option.splits)

lemma mset_concat_update:
  "i < length xs \<Longrightarrow> mset (concat (map f (xs[i := y]))) + mset (f (xs ! i)) = mset (concat (map f xs)) + mset (f y)"
proof (induction xs arbitrary: i)
  case Nil
  then show ?case by simp
next
  case (Cons x xs)
  then show ?case
  proof (cases i)
    case (Suc j)
    with Cons.IH [of j] Cons.prems show ?thesis by (simp add: union_ac)
  qed (simp add: union_ac)
qed


lemma filter_neq_notin: "k \<notin> set (map f xs) \<Longrightarrow> filter (\<lambda>x. f x \<noteq> k) xs = xs"
  by (induction xs) auto

lemma distinct_butlast_notin:
  "distinct xs \<Longrightarrow> xs \<noteq> [] \<Longrightarrow> last xs \<notin> set (butlast xs)"
  by (metis append_butlast_last_id distinct_append disjoint_iff_not_equal list.set_intros(1))

lemma take_Cons_butlast:
  "0 < n \<Longrightarrow> length xs \<le> n \<Longrightarrow>
     take n (x # xs) = (if length xs = n then x # butlast xs else x # xs)"
  by (cases n) (auto simp: butlast_conv_take)

end
