(* ===== verification/Gw_Text.thy ===== *)
theory Gw_Text
  imports Gw_Prelude
begin

text \<open>
  The part of the C++ standard library the program uses on text: \<open>std::string\<close> searches
  and slices (a position is a \<open>nat\<close>, \<open>std::string::npos\<close> is \<open>None\<close>), stream extraction
  (\<open>std::getline\<close>, \<open>>> std::string\<close>, \<open>>> int\<close>), \<open>strtol\<close>/\<open>strtoll\<close> with their
  saturation, and \<open>std::to_string\<close>. Characters are bytes.
\<close>

abbreviation (input) chr_dq :: char where "chr_dq \<equiv> CHR 0x22"
abbreviation (input) chr_lf :: char where "chr_lf \<equiv> CHR 0x0A"

definition crlf :: string where
  "crlf = [CHR 0x0D, CHR 0x0A]"

definition blank_line :: string where
  "blank_line = [CHR 0x0D, CHR 0x0A, CHR 0x0D, CHR 0x0A]"

section \<open>Searching and slicing\<close>

text \<open>\<open>s.find(p)\<close> and \<open>s.find(p, from)\<close>: the first position of an occurrence.\<close>

primrec find0 :: "string \<Rightarrow> string \<Rightarrow> nat option" where
  "find0 p [] = (if p = [] then Some 0 else None)"
| "find0 p (c # cs) = (if prefix p (c # cs) then Some 0 else map_option Suc (find0 p cs))"

definition str_find :: "string \<Rightarrow> string \<Rightarrow> nat \<Rightarrow> nat option" where
  "str_find s p from =
     (if from \<le> length s then map_option ((+) from) (find0 p (drop from s)) else None)"

text \<open>\<open>s.substr(pos, n)\<close>, \<open>None\<close> for \<open>npos\<close>. The callers never pass a position past the end.\<close>

definition substr :: "string \<Rightarrow> nat \<Rightarrow> nat option \<Rightarrow> string" where
  "substr s pos n = (case n of None \<Rightarrow> drop pos s | Some k \<Rightarrow> take k (drop pos s))"

definition find_first_not_of :: "char list \<Rightarrow> string \<Rightarrow> nat option" where
  "find_first_not_of cs s =
     (let k = length (takeWhile (\<lambda>c. c \<in> set cs) s) in if k = length s then None else Some k)"

definition find_last_not_of :: "char list \<Rightarrow> string \<Rightarrow> nat option" where
  "find_last_not_of cs s =
     (let k = length (takeWhile (\<lambda>c. c \<in> set cs) (rev s))
      in if k = length s then None else Some (length s - 1 - k))"

lemma find0_Some:
  "find0 p s = Some i \<Longrightarrow> i + length p \<le> length s \<and> prefix p (drop i s)"
proof (induction s arbitrary: i)
  case Nil
  then show ?case by (simp split: if_splits)
next
  case (Cons c cs)
  show ?case
  proof (cases "prefix p (c # cs)")
    case True
    with Cons.prems show ?thesis by (auto dest: prefix_length_le)
  next
    case False
    with Cons.prems obtain j where "find0 p cs = Some j" "i = Suc j" by auto
    with Cons.IH show ?thesis by simp
  qed
qed

lemma find0_minimal: "find0 p s = Some i \<Longrightarrow> j < i \<Longrightarrow> \<not> prefix p (drop j s)"
proof (induction s arbitrary: i j)
  case Nil
  then show ?case by (simp split: if_splits)
next
  case (Cons c cs)
  then show ?case by (cases j) (auto split: if_splits)
qed

lemma find0_None: "find0 p s = None \<Longrightarrow> \<not> prefix p (drop j s)"
proof (induction s arbitrary: j)
  case Nil
  then show ?case by (simp split: if_splits)
next
  case (Cons c cs)
  then show ?case by (cases j) (auto split: if_splits)
qed

lemma find0_NoneI: "(\<And>j. j \<le> length s \<Longrightarrow> \<not> prefix p (drop j s)) \<Longrightarrow> find0 p s = None"
proof (induction s)
  case Nil
  then show ?case by (auto dest: meta_spec [of _ 0])
next
  case (Cons c cs)
  have "\<not> prefix p (drop j cs)" if "j \<le> length cs" for j
    using Cons.prems [of "Suc j"] that by simp
  then have "find0 p cs = None" by (rule Cons.IH)
  with Cons.prems [of 0] show ?case by simp
qed

lemma find0_eqI:
  assumes "prefix p (drop i s)" and "i \<le> length s"
    and "\<And>j. j < i \<Longrightarrow> \<not> prefix p (drop j s)"
  shows "find0 p s = Some i"
proof (cases "find0 p s")
  case None
  with assms(1) show ?thesis by (auto dest: find0_None)
next
  case (Some k)
  then have "\<not> k < i" using assms(3) find0_Some by blast
  moreover have "\<not> i < k" using find0_minimal [OF Some] assms(1) by blast
  ultimately show ?thesis using Some by simp
qed

lemma str_find_Some:
  "str_find s p from = Some i \<Longrightarrow>
     from \<le> i \<and> i + length p \<le> length s \<and> prefix p (drop i s)"
  by (auto simp: str_find_def add.commute dest!: find0_Some split: if_splits)

text \<open>Searching for one character.\<close>

lemma find0_char [str_simps]:
  "find0 [c] s = (if c \<in> set s then Some (length (takeWhile (\<lambda>d. d \<noteq> c) s)) else None)"
  by (induction s) auto

lemma find0_char_append [str_simps]:
  "c \<notin> set a \<Longrightarrow> find0 [c] (a @ c # b) = Some (length a)"
proof -
  assume "c \<notin> set a"
  then have "takeWhile (\<lambda>d. d \<noteq> c) (a @ c # b) = a"
    by (induction a) auto
  then show ?thesis by (simp add: find0_char)
qed

lemma str_find_char_append [str_simps]:
  "c \<notin> set a \<Longrightarrow> n = length pre \<Longrightarrow>
     str_find (pre @ a @ c # b) [c] n = Some (length pre + length a)"
  by (simp add: str_find_def find0_char_append)

lemma str_find_char_decomp:
  assumes "str_find s [c] n = Some i"
  obtains a b where "s = take n s @ a @ c # b" and "c \<notin> set a" and "i = n + length a"
    and "length (take n s) = n"
proof -
  from assms have n: "n \<le> length s" and "find0 [c] (drop n s) = Some (i - n)" "n \<le> i"
    by (auto simp: str_find_def split: if_splits)
  then have "c \<in> set (drop n s)" by (simp add: find0_char split: if_splits)
  then obtain a b where ab: "drop n s = a @ c # b" "c \<notin> set a"
    by (meson split_list_first)
  then have "i - n = length a"
    using \<open>find0 [c] (drop n s) = Some (i - n)\<close> by (simp add: find0_char_append)
  moreover have "s = take n s @ a @ c # b" by (metis ab(1) append_take_drop_id)
  ultimately show thesis using that ab(2) n \<open>n \<le> i\<close> by auto
qed

text \<open>A search skips what cannot hold the pattern's first character.\<close>

lemma find0_skip:
  "c \<notin> set xs \<Longrightarrow> find0 (c # p) (xs @ ys) = map_option ((+) (length xs)) (find0 (c # p) ys)"
proof (induction xs)
  case Nil
  then show ?case by (cases "find0 (c # p) ys") auto
next
  case (Cons x xs)
  then show ?case by (cases "find0 (c # p) ys") auto
qed

lemma substr_all [simp]: "substr s 0 None = s"
  by (simp add: substr_def)

lemma length_substr_le: "length (substr s p n) \<le> length s"
  by (auto simp: substr_def intro: min.coboundedI1 split: option.splits)

section \<open>Numbers in text\<close>

definition is_digit :: "char \<Rightarrow> bool" where
  "is_digit c \<longleftrightarrow> 48 \<le> (of_char c :: nat) \<and> (of_char c :: nat) \<le> 57"

definition digit_val :: "char \<Rightarrow> int" where
  "digit_val c = int (of_char c) - 48"

definition is_space :: "char \<Rightarrow> bool" where
  "is_space c \<longleftrightarrow> c \<in> {CHR '' '', CHR 0x09, CHR 0x0A, CHR 0x0B, CHR 0x0C, CHR 0x0D}"

fun digits_val :: "int \<Rightarrow> string \<Rightarrow> int" where
  "digits_val acc [] = acc"
| "digits_val acc (c # cs) = (if is_digit c then digits_val (10 * acc + digit_val c) cs else acc)"

text \<open>Optional blanks, an optional sign, then digits; 0 when there are none.\<close>

definition scan_int :: "string \<Rightarrow> int" where
  "scan_int s =
     (case dropWhile is_space s of
        [] \<Rightarrow> 0
      | c # cs \<Rightarrow>
          if c = CHR ''-'' then - digits_val 0 cs
          else if c = CHR ''+'' then digits_val 0 cs
          else digits_val 0 (c # cs))"

definition clamp_int :: "nat \<Rightarrow> int \<Rightarrow> int" where
  "clamp_int w v = max (- (2 ^ (w - 1))) (min (2 ^ (w - 1) - 1) v)"

text \<open>\<open>strtol\<close>/\<open>strtoll\<close> on LP64: saturation at the ends of 64 bits.\<close>

definition strtoll10 :: "string \<Rightarrow> int" where
  "strtoll10 s = clamp_int 64 (scan_int s)"

text \<open>\<open>is >> v\<close> for an \<open>int\<close> (\<open>w = 32\<close>) or an \<open>int64_t\<close>, from the text not yet read.\<close>

definition stream_int :: "nat \<Rightarrow> string \<Rightarrow> int" where
  "stream_int w s = clamp_int w (scan_int s)"

text \<open>\<open>is >> v\<close> for a string: the token and the text not yet read.\<close>

definition stream_token :: "string \<Rightarrow> string \<times> string" where
  "stream_token s =
     (let t = dropWhile is_space s
      in (takeWhile (\<lambda>c. \<not> is_space c) t, dropWhile (\<lambda>c. \<not> is_space c) t))"

text \<open>All the results of \<open>while (getline(in, line, d))\<close>.\<close>

function getlines :: "char \<Rightarrow> string \<Rightarrow> string list" where
  "getlines d [] = []"
| "getlines d (c # s) =
     takeWhile (\<lambda>x. x \<noteq> d) (c # s) # getlines d (drop 1 (dropWhile (\<lambda>x. x \<noteq> d) (c # s)))"
  by pat_completeness auto
termination
  by (relation "measure (\<lambda>(d, s). length s)")
     (auto intro!: le_imp_less_Suc le_trans [OF diff_le_self] length_dropWhile_le)

text \<open>\<open>std::to_string\<close> and \<open><<\<close> of a number.\<close>

definition digit_char :: "nat \<Rightarrow> char" where
  "digit_char n = char_of (48 + n)"

fun show_nat :: "nat \<Rightarrow> string" where
  "show_nat n = (if n < 10 then [digit_char n] else show_nat (n div 10) @ [digit_char (n mod 10)])"

declare show_nat.simps [simp del]

definition show_int :: "int \<Rightarrow> string" where
  "show_int i = (if i < 0 then CHR ''-'' # show_nat (nat (- i)) else show_nat (nat i))"

lemma of_char_digit_char: "n < 10 \<Longrightarrow> of_char (digit_char n) = 48 + n"
  by (simp add: digit_char_def)

lemma is_digit_digit_char [simp]: "n < 10 \<Longrightarrow> is_digit (digit_char n)"
  by (simp add: is_digit_def of_char_digit_char)

lemma digit_val_digit_char [simp]: "n < 10 \<Longrightarrow> digit_val (digit_char n) = int n"
  by (simp add: digit_val_def of_char_digit_char)

lemma show_nat_digits: "\<forall>c \<in> set (show_nat n). is_digit c"
proof (induction n rule: show_nat.induct)
  case (1 n)
  then show ?case by (subst show_nat.simps) (auto simp: is_digit_digit_char)
qed

lemma show_nat_nonempty [simp]: "show_nat n \<noteq> []"
  by (subst show_nat.simps) simp

lemma digits_val_append:
  "\<forall>c \<in> set xs. is_digit c \<Longrightarrow> digits_val a (xs @ ys) = digits_val (digits_val a xs) ys"
  by (induction xs arbitrary: a) auto

lemma digits_val_show_nat [str_simps]: "digits_val 0 (show_nat n) = int n"
proof (induction n rule: show_nat.induct)
  case (1 n)
  show ?case
  proof (cases "n < 10")
    case True
    then show ?thesis by (subst show_nat.simps) simp
  next
    case False
    with 1 have "digits_val 0 (show_nat (n div 10)) = int (n div 10)" by simp
    then have "digits_val 0 (show_nat (n div 10) @ [digit_char (n mod 10)]) =
        10 * int (n div 10) + int (n mod 10)"
      by (simp add: digits_val_append show_nat_digits)
    also have "\<dots> = int n" by presburger
    finally show ?thesis using False by (simp add: show_nat.simps [of n])
  qed
qed

lemma show_nat_inj: "show_nat m = show_nat n \<Longrightarrow> m = n"
  by (metis digits_val_show_nat of_nat_eq_iff)

lemma digit_not_space: "is_digit c \<Longrightarrow> \<not> is_space c"
  by (auto simp: is_digit_def is_space_def)

lemma digit_not_sign: "is_digit c \<Longrightarrow> c \<noteq> CHR ''-'' \<and> c \<noteq> CHR ''+''"
  by (auto simp: is_digit_def)

lemma scan_int_show_nat: "scan_int (show_nat n) = int n"
proof -
  obtain c cs where c: "show_nat n = c # cs" by (cases "show_nat n") auto
  then have "is_digit c" using show_nat_digits [of n] by auto
  then have "scan_int (show_nat n) = digits_val 0 (show_nat n)"
    using c by (simp add: scan_int_def digit_not_space digit_not_sign)
  then show ?thesis by (simp add: digits_val_show_nat)
qed

lemma strtoll10_show_nat: "int n < 2 ^ 63 \<Longrightarrow> strtoll10 (show_nat n) = int n"
  by (simp add: strtoll10_def clamp_int_def scan_int_show_nat)

lemma clamp_int_pos: "1 < w \<Longrightarrow> 0 < clamp_int w v \<longleftrightarrow> 0 < v"
proof -
  assume "1 < w"
  then have "(2 :: int) ^ 1 \<le> 2 ^ (w - 1)" by (intro power_increasing) auto
  then show ?thesis by (auto simp: clamp_int_def max_def min_def)
qed

lemma clamp_int_range:
  "0 < w \<Longrightarrow> - (2 ^ (w - 1)) \<le> clamp_int w v \<and> clamp_int w v < 2 ^ (w - 1)"
  by (auto simp: clamp_int_def max_def min_def)

section \<open>A header's value\<close>

text \<open>
  The lines that find a header in a request occur three times in the code, word for word:
  the text up to the blank line, the first occurrence of the key in it, the text from the
  end of the key to the end of that line, without blanks at its ends. \<open>None\<close> when the key
  does not occur.
\<close>

definition request_headers :: "string \<Rightarrow> string" where
  "request_headers raw = substr raw 0 (str_find raw blank_line 0)"

definition trim_blanks :: "string \<Rightarrow> string" where
  "trim_blanks line =
     (case find_first_not_of [CHR '' '', CHR 0x09] line of
        None \<Rightarrow> []
      | Some s \<Rightarrow>
          (case find_last_not_of [CHR '' '', CHR 0x09] line of
             None \<Rightarrow> substr line s None
           | Some e \<Rightarrow> substr line s (Some (e - s + 1))))"

definition header_value :: "string \<Rightarrow> string \<Rightarrow> string option" where
  "header_value raw key =
     (let headers = request_headers raw
      in case str_find headers key 0 of
           None \<Rightarrow> None
         | Some h \<Rightarrow>
             (let from = h + length key
              in Some (trim_blanks
                   (case str_find headers crlf h of
                      None \<Rightarrow> substr headers from None
                    | Some e \<Rightarrow> substr headers from (Some (e - h - length key))))))"

end
