(* ===== verification/Gw_Base.thy ===== *)
theory Gw_Base
  imports Gw_Text
begin

text \<open>
  \<open>src/util/gateway_constants.h\<close>, \<open>src/util/config.cpp\<close> and \<open>src/gateway/gateway_metrics.cpp\<close>:
  the fixed texts and statuses, the server's options, and the three counters. \<open>getopt\<close> is a
  list: the option characters it returns until \<open>-1\<close>, each with its \<open>optarg\<close>.
\<close>

section \<open>Constants\<close>

definition ADMIN_METRICS_PATH :: string where "ADMIN_METRICS_PATH = ''/__admin/metrics''"
definition ADMIN_RELOAD_PATH :: string where "ADMIN_RELOAD_PATH = ''/__admin/reload''"

definition HTTP_OK :: int where "HTTP_OK = 200"
definition HTTP_BAD_REQUEST :: int where "HTTP_BAD_REQUEST = 400"
definition HTTP_UNAUTHORIZED :: int where "HTTP_UNAUTHORIZED = 401"
definition HTTP_FORBIDDEN :: int where "HTTP_FORBIDDEN = 403"
definition HTTP_METHOD_NOT_ALLOWED :: int where "HTTP_METHOD_NOT_ALLOWED = 405"
definition HTTP_PAYLOAD_TOO_LARGE :: int where "HTTP_PAYLOAD_TOO_LARGE = 413"
definition HTTP_TOO_MANY_REQUESTS :: int where "HTTP_TOO_MANY_REQUESTS = 429"
definition HTTP_INTERNAL_ERROR :: int where "HTTP_INTERNAL_ERROR = 500"
definition HTTP_BAD_GATEWAY :: int where "HTTP_BAD_GATEWAY = 502"

lemmas http_codes = HTTP_OK_def HTTP_BAD_REQUEST_def HTTP_UNAUTHORIZED_def HTTP_FORBIDDEN_def
  HTTP_METHOD_NOT_ALLOWED_def HTTP_PAYLOAD_TOO_LARGE_def HTTP_TOO_MANY_REQUESTS_def
  HTTP_INTERNAL_ERROR_def HTTP_BAD_GATEWAY_def

definition status_text :: "int \<Rightarrow> string" where
  "status_text code =
     (if code = HTTP_OK then ''OK''
      else if code = HTTP_BAD_REQUEST then ''Bad Request''
      else if code = HTTP_UNAUTHORIZED then ''Unauthorized''
      else if code = HTTP_FORBIDDEN then ''Forbidden''
      else if code = HTTP_METHOD_NOT_ALLOWED then ''Method Not Allowed''
      else if code = HTTP_PAYLOAD_TOO_LARGE then ''Payload Too Large''
      else if code = HTTP_TOO_MANY_REQUESTS then ''Too Many Requests''
      else if code = HTTP_INTERNAL_ERROR then ''Internal Server Error''
      else if code = HTTP_BAD_GATEWAY then ''Bad Gateway''
      else ''Error'')"

section \<open>Options\<close>

record server_options =
  PORT :: int
  thread_num :: int
  close_log :: int

definition Config_init :: server_options where
  "Config_init = \<lparr>PORT = 9006, thread_num = 8, close_log = 0\<rparr>"

text \<open>\<open>atoi\<close> is the 64-bit \<open>strtol\<close> cut to an \<open>int\<close>.\<close>

definition atoi :: "string \<Rightarrow> int" where
  "atoi s = sint (word_of_int (strtoll10 s) :: u32)"

definition parse_opt :: "server_options \<Rightarrow> char \<times> string \<Rightarrow> server_options" where
  "parse_opt c p =
     (case p of (opt, optarg) \<Rightarrow>
        if opt = CHR ''p'' then c\<lparr>PORT := atoi optarg\<rparr>
        else if opt = CHR ''t'' then c\<lparr>thread_num := atoi optarg\<rparr>
        else if opt = CHR ''c'' then c\<lparr>close_log := atoi optarg\<rparr>
        else c)"

definition parse_arg :: "(char \<times> string) list \<Rightarrow> server_options \<Rightarrow> server_options" where
  "parse_arg opts c = foldl parse_opt c opts"

section \<open>Counters\<close>

record metrics =
  m_total_requests :: u64
  m_upstream_errors :: u64
  m_filter_rejects :: u64

definition metrics_init :: metrics where
  "metrics_init = \<lparr>m_total_requests = 0, m_upstream_errors = 0, m_filter_rejects = 0\<rparr>"

definition on_request :: "metrics \<Rightarrow> metrics" where
  "on_request m = m\<lparr>m_total_requests := m_total_requests m + 1\<rparr>"

definition on_upstream_error :: "metrics \<Rightarrow> metrics" where
  "on_upstream_error m = m\<lparr>m_upstream_errors := m_upstream_errors m + 1\<rparr>"

definition on_filter_reject :: "metrics \<Rightarrow> metrics" where
  "on_filter_reject m = m\<lparr>m_filter_rejects := m_filter_rejects m + 1\<rparr>"

definition render_plain :: "metrics \<Rightarrow> string" where
  "render_plain m =
     ''total_requests '' @ show_nat (unat (m_total_requests m)) @ [chr_lf] @
     ''upstream_errors '' @ show_nat (unat (m_upstream_errors m)) @ [chr_lf] @
     ''filter_rejects '' @ show_nat (unat (m_filter_rejects m)) @ [chr_lf]"

end
