(* ===== verification/Net_Address.thy ===== *)
theory Net_Address
  imports Gw_Text
begin

unbundle bit_operations_syntax

text \<open>
  \<open>src/util/endian.h\<close> and \<open>src/util/address.cc\<close>: byte order, socket addresses and their
  text, subnet arithmetic, and the splitting of \<open>host:service\<close>. A \<open>sockaddr\<close> holds its port
  and address as they lie in memory (network order read by a little-endian host), as the
  code's \<open>m_addr\<close> does. \<open>getaddrinfo\<close> is a parameter. A shift by the width of an
  \<open>int\<close> or more and an access outside \<open>s6_addr\<close> are the error \<open>Undefined_behaviour\<close>.
\<close>

section \<open>Byte order\<close>

definition bswap_16 :: "u16 \<Rightarrow> u16" where
  "bswap_16 x = push_bit 8 (take_bit 8 x) OR take_bit 8 (drop_bit 8 x)"

definition bswap_32 :: "u32 \<Rightarrow> u32" where
  "bswap_32 x =
     push_bit 24 (take_bit 8 x) OR push_bit 16 (take_bit 8 (drop_bit 8 x)) OR
     push_bit 8 (take_bit 8 (drop_bit 16 x)) OR take_bit 8 (drop_bit 24 x)"

lemma bswap_16_bswap_16 [simp]: "bswap_16 (bswap_16 x) = x"
  by (rule bit_word_eqI) (auto simp: bswap_16_def bit_simps)

text \<open>Bit \<open>n\<close> of the swapped word is the bit at the same place of the mirrored byte.\<close>

definition mirror32 :: "nat \<Rightarrow> nat" where
  "mirror32 n = (if n < 8 then n + 24 else if n < 16 then n + 8 else if n < 24 then n - 8 else n - 24)"

lemma mirror32: "n < 32 \<Longrightarrow> mirror32 n < 32 \<and> mirror32 (mirror32 n) = n"
  by (auto simp: mirror32_def)

lemma bit_bswap_32: "n < 32 \<Longrightarrow> bit (bswap_32 x) n = bit x (mirror32 n)"
proof -
  assume "n < 32"
  then consider "n < 8" | "8 \<le> n \<and> n < 16" | "16 \<le> n \<and> n < 24" | "24 \<le> n \<and> n < 32"
    by linarith
  then show ?thesis
  proof cases
    case 1
    then show ?thesis by (simp add: bswap_32_def mirror32_def bit_simps add.commute)
  next
    case 2
    then have a: "n - 8 < 8" and b: "n - 8 + 16 = n + 8" by linarith+
    from 2 show ?thesis by (simp add: bswap_32_def mirror32_def bit_simps add.commute a b)
  next
    case 3
    then have a: "n - 16 < 8" "\<not> n - 8 < 8" and b: "n - 16 + 8 = n - 8" by linarith+
    from 3 show ?thesis by (simp add: bswap_32_def mirror32_def bit_simps add.commute a b)
  next
    case 4
    then have a: "n - 24 < 8" "\<not> n - 16 < 8" "\<not> n - 8 < 8" by linarith+
    from 4 show ?thesis by (simp add: bswap_32_def mirror32_def bit_simps add.commute a)
  qed
qed

lemma bswap_32_eqI: "(\<And>n. n < 32 \<Longrightarrow> bit (bswap_32 x) n = bit y n) \<Longrightarrow> bswap_32 x = y"
  by (rule bit_word_eqI) simp

lemma bswap_32_bswap_32 [simp]: "bswap_32 (bswap_32 x) = x"
  by (rule bswap_32_eqI) (simp add: bit_bswap_32 mirror32)

lemma bswap_16_inj: "bswap_16 x = bswap_16 y \<longleftrightarrow> x = y"
  by (metis bswap_16_bswap_16)

lemma bswap_32_inj: "bswap_32 x = bswap_32 y \<longleftrightarrow> x = y"
  by (metis bswap_32_bswap_32)

lemma bswap_32_or: "bswap_32 (x OR y) = bswap_32 x OR bswap_32 y"
  by (rule bswap_32_eqI) (simp add: bit_bswap_32 bit_simps)

lemma bswap_32_and: "bswap_32 (x AND y) = bswap_32 x AND bswap_32 y"
  by (rule bswap_32_eqI) (simp add: bit_bswap_32 bit_simps)

lemma bswap_32_not: "bswap_32 (NOT x) = NOT (bswap_32 x)"
  by (rule bswap_32_eqI) (simp add: bit_bswap_32 bit_simps mirror32)

section \<open>Masks\<close>

datatype ub = Undefined_behaviour

text \<open>
  \<open>(1 << (sizeof(T) * 8 - bits)) - 1\<close> is computed in \<open>int\<close>. For \<open>T = uint32_t\<close> the shift
  count is the \<open>size_t\<close> \<open>32 - bits\<close>: it must be below 32, and at 31 the subtraction leaves
  the range of \<open>int\<close>. For \<open>T = uint8_t\<close> the callers pass \<open>bits < 8\<close>.
\<close>

definition CreateMask_32 :: "u32 \<Rightarrow> ub + u32" where
  "CreateMask_32 bits =
     (if 2 \<le> unat bits \<and> unat bits \<le> 32 then Inr (push_bit (32 - unat bits) 1 - 1)
      else Inl Undefined_behaviour)"

definition CreateMask_8 :: "nat \<Rightarrow> u8" where
  "CreateMask_8 bits = ucast (push_bit (8 - bits) (1 :: u32) - 1)"

text \<open>\<open>for(; value; ++result) value &= value - 1\<close>, for values of any width.\<close>

function CountBytes_loop :: "'a::len word \<Rightarrow> u32 \<Rightarrow> u32" where
  "CountBytes_loop v result =
     (if v = 0 then result else CountBytes_loop (v AND (v - 1)) (result + 1))"
  by pat_completeness auto
termination
proof (relation "measure (\<lambda>(v, result). unat v)")
  fix v :: "'a::len word" and result :: u32
  assume "v \<noteq> 0"
  have "v AND (v - 1) \<le> v - 1" by (rule word_and_le1)
  then have "unat (v AND (v - 1)) \<le> unat (v - 1)" by (simp add: word_le_nat_alt)
  also have "\<dots> < unat v" using \<open>v \<noteq> 0\<close> by (simp add: unat_gt_0 unat_minus_one)
  finally show "((v AND (v - 1), result + 1), v, result) \<in> measure (\<lambda>(v, result). unat v)"
    by simp
qed auto

declare CountBytes_loop.simps [simp del]

definition CountBytes :: "'a::len word \<Rightarrow> u32" where
  "CountBytes value = CountBytes_loop value 0"

lemma CreateMask_32_ok:
  "2 \<le> unat p \<Longrightarrow> unat p \<le> 32 \<Longrightarrow> CreateMask_32 p = Inr (mask (32 - unat p))"
  by (simp add: CreateMask_32_def mask_eq_exp_minus_1)

lemma CreateMask_8_bits: "CreateMask_8 b = mask (8 - b)"
proof -
  have "CreateMask_8 b = ucast (mask (8 - b) :: u32)"
    by (simp add: CreateMask_8_def mask_eq_exp_minus_1)
  also have "\<dots> = mask (8 - b)" by (rule bit_word_eqI) (auto simp: bit_simps)
  finally show ?thesis .
qed

section \<open>Addresses\<close>

text \<open>
  Which structure an address holds is its family, so the family field is the constructor.
  \<open>sin_port\<close>, \<open>s_addr\<close> and \<open>sin6_port\<close> are the integers a little-endian host reads from
  memory in network order; \<open>s6_addr\<close> has 16 bytes, \<open>sun_path\<close> 108.
\<close>

record sockaddr_in =
  sin_port :: u16
  s_addr :: u32

record sockaddr_in6 =
  sin6_port :: u16
  s6_addr :: "u8 list"

record sockaddr_un =
  sun_path :: string
  un_length :: u32

datatype sockaddr = Sockaddr_in sockaddr_in | Sockaddr_in6 sockaddr_in6 | Sockaddr_other u16

datatype address =
    IPv4Address sockaddr_in
  | IPv6Address sockaddr_in6
  | UnixAddress sockaddr_un
  | UnknownAddress u16

definition AF_UNSPEC :: u16 where "AF_UNSPEC = 0"
definition AF_UNIX :: u16 where "AF_UNIX = 1"
definition AF_INET :: u16 where "AF_INET = 2"
definition AF_INET6 :: u16 where "AF_INET6 = 10"

fun getFamily :: "address \<Rightarrow> u16" where
  "getFamily (IPv4Address a) = AF_INET"
| "getFamily (IPv6Address a) = AF_INET6"
| "getFamily (UnixAddress a) = AF_UNIX"
| "getFamily (UnknownAddress f) = f"

text \<open>\<open>Address::Create\<close>; \<open>None\<close> is the null pointer, of the argument and of the result.\<close>

fun Address_Create :: "sockaddr option \<Rightarrow> address option" where
  "Address_Create None = None"
| "Address_Create (Some (Sockaddr_in a)) = Some (IPv4Address a)"
| "Address_Create (Some (Sockaddr_in6 a)) = Some (IPv6Address a)"
| "Address_Create (Some (Sockaddr_other f)) = Some (UnknownAddress f)"

definition IPv4_new :: "u32 \<Rightarrow> u16 \<Rightarrow> sockaddr_in" where
  "IPv4_new address port = \<lparr>sin_port = bswap_16 port, s_addr = bswap_32 address\<rparr>"

definition IPv6_new :: "u8 list \<Rightarrow> u16 \<Rightarrow> sockaddr_in6" where
  "IPv6_new bytes port = \<lparr>sin6_port = bswap_16 port, s6_addr = bytes\<rparr>"

definition IPv6_any :: sockaddr_in6 where
  "IPv6_any = \<lparr>sin6_port = 0, s6_addr = replicate 16 0\<rparr>"

text \<open>\<open>getPort\<close> and \<open>setPort\<close> of the two kinds of \<open>IPAddress\<close>.\<close>

fun getPort :: "address \<Rightarrow> u32 option" where
  "getPort (IPv4Address a) = Some (ucast (bswap_16 (sin_port a)))"
| "getPort (IPv6Address a) = Some (ucast (bswap_16 (sin6_port a)))"
| "getPort _ = None"

fun setPort :: "u16 \<Rightarrow> address \<Rightarrow> address" where
  "setPort v (IPv4Address a) = IPv4Address (a\<lparr>sin_port := bswap_16 v\<rparr>)"
| "setPort v (IPv6Address a) = IPv6Address (a\<lparr>sin6_port := bswap_16 v\<rparr>)"
| "setPort v a = a"

definition is_ip :: "address \<Rightarrow> bool" where
  "is_ip a = (case a of IPv4Address _ \<Rightarrow> True | IPv6Address _ \<Rightarrow> True | _ \<Rightarrow> False)"

text \<open>\<open>inet_pton\<close> and the numeric \<open>getaddrinfo\<close> are parameters; \<open>None\<close> is their failure.\<close>

definition IPv4_Create :: "(string \<Rightarrow> u32 option) \<Rightarrow> string \<Rightarrow> u16 \<Rightarrow> address option" where
  "IPv4_Create pton text port =
     (let rt = (IPv4_new 0 0)\<lparr>sin_port := bswap_16 port\<rparr>
      in case pton text of None \<Rightarrow> None | Some a \<Rightarrow> Some (IPv4Address (rt\<lparr>s_addr := a\<rparr>)))"

definition IPv6_Create :: "(string \<Rightarrow> u8 list option) \<Rightarrow> string \<Rightarrow> u16 \<Rightarrow> address option" where
  "IPv6_Create pton text port =
     (let rt = IPv6_any\<lparr>sin6_port := bswap_16 port\<rparr>
      in case pton text of None \<Rightarrow> None | Some a \<Rightarrow> Some (IPv6Address (rt\<lparr>s6_addr := a\<rparr>)))"

definition IPAddress_Create :: "(string \<Rightarrow> sockaddr option) \<Rightarrow> string \<Rightarrow> u16 \<Rightarrow> address option" where
  "IPAddress_Create gai_numeric text port =
     (case gai_numeric text of None \<Rightarrow> None
      | Some a \<Rightarrow>
         (case Address_Create (Some a) of
            Some r \<Rightarrow> if is_ip r then Some (setPort port r) else None
          | None \<Rightarrow> None))"

section \<open>Subnet arithmetic\<close>

text \<open>
  \<open>Inr None\<close> is the null pointer. The result has the address and port of the object except
  for \<open>s_addr\<close>; \<open>subnetMask\<close> starts from zeroes and does not check its argument.
\<close>

definition IPv4_broadcastAddress :: "u32 \<Rightarrow> sockaddr_in \<Rightarrow> ub + sockaddr_in option" where
  "IPv4_broadcastAddress prefix_len a =
     (if prefix_len > 32 then Inr None
      else case CreateMask_32 prefix_len of Inl e \<Rightarrow> Inl e
           | Inr m \<Rightarrow> Inr (Some (a\<lparr>s_addr := s_addr a OR bswap_32 m\<rparr>)))"

definition IPv4_networdAddress :: "u32 \<Rightarrow> sockaddr_in \<Rightarrow> ub + sockaddr_in option" where
  "IPv4_networdAddress prefix_len a =
     (if prefix_len > 32 then Inr None
      else case CreateMask_32 prefix_len of Inl e \<Rightarrow> Inl e
           | Inr m \<Rightarrow> Inr (Some (a\<lparr>s_addr := s_addr a AND bswap_32 m\<rparr>)))"

definition IPv4_subnetMask :: "u32 \<Rightarrow> ub + sockaddr_in" where
  "IPv4_subnetMask prefix_len =
     (case CreateMask_32 prefix_len of Inl e \<Rightarrow> Inl e
      | Inr m \<Rightarrow> Inr \<lparr>sin_port = 0, s_addr = NOT (bswap_32 m)\<rparr>)"

text \<open>The IPv6 operations write byte \<open>prefix_len / 8\<close> unchecked: 128 and more is outside.\<close>

definition fill_from :: "nat \<Rightarrow> 'a \<Rightarrow> 'a list \<Rightarrow> 'a list" where
  "fill_from k v bs = take k bs @ replicate (length bs - k) v"

definition IPv6_broadcastAddress :: "u32 \<Rightarrow> sockaddr_in6 \<Rightarrow> ub + sockaddr_in6" where
  "IPv6_broadcastAddress prefix_len a =
     (let k = unat prefix_len div 8; bs = s6_addr a
      in if 16 \<le> k then Inl Undefined_behaviour
         else Inr (a\<lparr>s6_addr :=
           fill_from (k + 1) 0xFF (bs[k := bs ! k OR CreateMask_8 (unat prefix_len mod 8)])\<rparr>))"

definition IPv6_networdAddress :: "u32 \<Rightarrow> sockaddr_in6 \<Rightarrow> ub + sockaddr_in6" where
  "IPv6_networdAddress prefix_len a =
     (let k = unat prefix_len div 8; bs = s6_addr a
      in if 16 \<le> k then Inl Undefined_behaviour
         else Inr (a\<lparr>s6_addr :=
           fill_from (k + 1) 0 (bs[k := bs ! k AND CreateMask_8 (unat prefix_len mod 8)])\<rparr>))"

definition IPv6_subnetMask :: "u32 \<Rightarrow> ub + sockaddr_in6" where
  "IPv6_subnetMask prefix_len =
     (let k = unat prefix_len div 8
      in if 16 \<le> k then Inl Undefined_behaviour
         else Inr \<lparr>sin6_port = 0,
           s6_addr = replicate k 0xFF @ NOT (CreateMask_8 (unat prefix_len mod 8)) # replicate (15 - k) 0\<rparr>)"

text \<open>The bits of an address from the most significant one, the order prefixes count in.\<close>

definition v4_bit :: "sockaddr_in \<Rightarrow> nat \<Rightarrow> bool" where
  "v4_bit a i = bit (bswap_32 (s_addr a)) (31 - i)"

definition v6_bit :: "sockaddr_in6 \<Rightarrow> nat \<Rightarrow> bool" where
  "v6_bit a i = bit (s6_addr a ! (i div 8)) (7 - i mod 8)"

lemma unat_le_32: "(p :: u32) \<le> 32 \<longleftrightarrow> unat p \<le> 32"
  by (simp add: word_le_nat_alt)

lemma v4_bit_update:
  "v4_bit (a\<lparr>s_addr := s_addr a OR bswap_32 m\<rparr>) i \<longleftrightarrow> v4_bit a i \<or> bit m (31 - i)"
  "v4_bit (a\<lparr>s_addr := s_addr a AND bswap_32 m\<rparr>) i \<longleftrightarrow> v4_bit a i \<and> bit m (31 - i)"
  "v4_bit \<lparr>sin_port = 0, s_addr = NOT (bswap_32 m)\<rparr> i \<longleftrightarrow> \<not> bit m (31 - i)"
  by (auto simp: v4_bit_def bswap_32_or bswap_32_and bswap_32_not bit_simps)

lemma mask_bit_msb: "i < 32 \<Longrightarrow> p \<le> 32 \<Longrightarrow> bit (mask (32 - p) :: u32) (31 - i) \<longleftrightarrow> p \<le> i"
  by (auto simp: bit_simps)

lemma mask8_bit_msb: "bit (CreateMask_8 (p mod 8)) (7 - i mod 8) \<longleftrightarrow> p mod 8 \<le> i mod 8"
proof -
  have "i mod 8 < 8" "p mod 8 < 8" by simp_all
  then show ?thesis by (auto simp: CreateMask_8_bits bit_simps)
qed

text \<open>
  For a prefix length of 2 to 32 the three IPv4 operations return, and bit by bit (most
  significant first): the broadcast address keeps the first \<open>p\<close> bits and sets the others, the
  subnet mask has exactly the first \<open>p\<close> bits, and \<open>networdAddress\<close> clears the network's
  bits and keeps the host's, the opposite of the network address its comment names. The port stays.
\<close>

theorem ipv4_prefix_arithmetic:
  assumes "2 \<le> unat p" and "unat p \<le> 32"
  shows "\<exists>b n m. IPv4_broadcastAddress p a = Inr (Some b) \<and> IPv4_networdAddress p a = Inr (Some n) \<and>
      IPv4_subnetMask p = Inr m \<and> sin_port b = sin_port a \<and> sin_port n = sin_port a \<and>
      (\<forall>i. i < 32 \<longrightarrow> v4_bit b i = (v4_bit a i \<or> unat p \<le> i) \<and>
                  v4_bit n i = (v4_bit a i \<and> unat p \<le> i) \<and>
                  v4_bit m i = (i < unat p))"
proof -
  let ?m = "mask (32 - unat p) :: u32"
  have m: "CreateMask_32 p = Inr ?m" using assms by (rule CreateMask_32_ok)
  have le: "\<not> p > 32" using assms(2) by (simp add: unat_le_32 not_less)
  show ?thesis
    apply (rule exI [of _ "a\<lparr>s_addr := s_addr a OR bswap_32 ?m\<rparr>"])
    apply (rule exI [of _ "a\<lparr>s_addr := s_addr a AND bswap_32 ?m\<rparr>"])
    apply (rule exI [of _ "\<lparr>sin_port = 0, s_addr = NOT (bswap_32 ?m)\<rparr>"])
    using m le assms(2)
    by (auto simp: IPv4_broadcastAddress_def IPv4_networdAddress_def IPv4_subnetMask_def
        v4_bit_update mask_bit_msb)
qed

theorem ipv4_prefix_arithmetic_witness:
  "\<exists>b n m. IPv4_broadcastAddress 24 (IPv4_new 0xC0A80105 80) = Inr (Some b) \<and>
      IPv4_networdAddress 24 (IPv4_new 0xC0A80105 80) = Inr (Some n) \<and>
      IPv4_subnetMask 24 = Inr m"
  using ipv4_prefix_arithmetic [of 24 "IPv4_new 0xC0A80105 80"] by auto

lemma fill_from_nth:
  "i < length bs \<Longrightarrow> k \<le> length bs \<Longrightarrow> fill_from k v bs ! i = (if i < k then bs ! i else v)"
  by (auto simp: fill_from_def nth_append min_def)

lemma length_fill_from [simp]: "k \<le> length bs \<Longrightarrow> length (fill_from k v bs) = length bs"
  by (simp add: fill_from_def)

lemma prefix_byte_order:
  "(i :: nat) div 8 < p div 8 \<Longrightarrow> i < p"
  "p div 8 < i div 8 \<Longrightarrow> p < i"
  by (metis div_le_mono not_less)+

lemma prefix_bit_order: "(i :: nat) div 8 = p div 8 \<Longrightarrow> p mod 8 \<le> i mod 8 \<longleftrightarrow> p \<le> i"
  using div_mult_mod_eq [of i 8] div_mult_mod_eq [of p 8] by linarith

lemma div8_lt_16: "i < 128 \<Longrightarrow> i div 8 < (16 :: nat)"
  by (simp add: div_less_iff_less_mult)

lemma v6_bit_split:
  assumes "length bs = 16" and "i < 128" and "p < 128"
    and low: "\<And>b. bit (f b :: u8) (7 - i mod 8) \<longleftrightarrow> g (bit b (7 - i mod 8)) (p mod 8 \<le> i mod 8)"
  shows "bit (fill_from (Suc (p div 8)) v (bs[p div 8 := f (bs ! (p div 8))]) ! (i div 8)) (7 - i mod 8) =
    (if i div 8 < p div 8 then bit (bs ! (i div 8)) (7 - i mod 8)
     else if i div 8 = p div 8 then g (bit (bs ! (i div 8)) (7 - i mod 8)) (p mod 8 \<le> i mod 8)
     else bit v (7 - i mod 8))"
  using assms div8_lt_16 [of i] div8_lt_16 [of p] by (auto simp: fill_from_nth nth_list_update low)

lemma bit_all_ones8: "bit (0xFF :: u8) (7 - i mod 8)"
proof -
  have "(0xFF :: u8) = mask 8" by (simp add: mask_eq_exp_minus_1)
  moreover have "bit (mask 8 :: u8) (7 - i mod 8)" by (subst bit_mask_iff) simp
  ultimately show ?thesis by (simp only:)
qed

text \<open>
  C15: For a prefix length below 128 no IPv6 operation writes outside the address, the broadcast address keeps
  the first \<open>p\<close> bits of a 16-byte address and sets the others, with the port as it was, and the mask has exactly
  the first \<open>p\<close> bits.
\<close>

theorem ipv6_prefix_arithmetic:
  assumes "length (s6_addr a) = 16" and "unat p < 128"
  shows "\<exists>b m. IPv6_broadcastAddress p a = Inr b \<and> IPv6_subnetMask p = Inr m \<and>
      IPv6_networdAddress p a \<noteq> Inl Undefined_behaviour \<and> sin6_port b = sin6_port a \<and>
      length (s6_addr b) = 16 \<and> length (s6_addr m) = 16 \<and>
      (\<forall>i. i < 128 \<longrightarrow> v6_bit b i = (v6_bit a i \<or> unat p \<le> i) \<and> v6_bit m i = (i < unat p))"
proof -
  let ?p = "unat p" and ?bs = "s6_addr a"
  let ?k = "?p div 8" and ?m = "CreateMask_8 (?p mod 8)"
  have k: "?k < 16" using assms(2) by (rule div8_lt_16)
  define b where "b = a\<lparr>s6_addr := fill_from (?k + 1) 0xFF (?bs[?k := ?bs ! ?k OR ?m])\<rparr>"
  define m where "m = \<lparr>sin6_port = 0, s6_addr = replicate ?k 0xFF @ NOT ?m # replicate (15 - ?k) 0\<rparr>"
  have ops: "IPv6_broadcastAddress p a = Inr b" "IPv6_subnetMask p = Inr m"
    "IPv6_networdAddress p a \<noteq> Inl Undefined_behaviour" "sin6_port b = sin6_port a"
    "length (s6_addr b) = 16" "length (s6_addr m) = 16"
    using k assms(1) by (auto simp: IPv6_broadcastAddress_def IPv6_networdAddress_def IPv6_subnetMask_def
        Let_def b_def m_def)
  have B: "v6_bit b i = (v6_bit a i \<or> ?p \<le> i)" if "i < 128" for i
    unfolding v6_bit_def b_def
    using prefix_byte_order [of i ?p] prefix_byte_order [of ?p i] prefix_bit_order [of i ?p]
      bit_all_ones8 [of i]
    by (auto simp: v6_bit_split [OF assms(1) that assms(2), where g = "(\<or>)" and f = "\<lambda>b. b OR ?m"]
        bit_or_iff mask8_bit_msb)
  have M: "v6_bit m i = (i < ?p)" if "i < 128" for i
  proof -
    have i: "i div 8 < 16" using that by (rule div8_lt_16)
    consider "i div 8 < ?k" | "i div 8 = ?k" | "?k < i div 8" by linarith
    then show ?thesis
    proof cases
      case 1
      then show ?thesis using prefix_byte_order(1) [of i ?p] bit_all_ones8 [of i]
        by (simp add: v6_bit_def m_def nth_append)
    next
      case 2
      then show ?thesis using prefix_bit_order [of i ?p]
        by (auto simp: v6_bit_def m_def nth_append bit_not_iff mask8_bit_msb)
    next
      case 3
      then obtain j where "i div 8 - ?k = Suc j" "j < 15 - ?k" using i by (cases "i div 8 - ?k") auto
      then show ?thesis using 3 prefix_byte_order(2) [of ?p i]
        by (simp add: v6_bit_def m_def nth_append)
    qed
  qed
  show ?thesis using ops B M by blast
qed

theorem ipv6_prefix_arithmetic_witness:
  "\<exists>b m. IPv6_broadcastAddress 64 IPv6_any = Inr b \<and> IPv6_subnetMask 64 = Inr m \<and> v6_bit b 127 \<and> \<not> v6_bit m 64"
proof -
  have "length (s6_addr IPv6_any) = 16" "unat (64 :: u32) < 128" by (simp_all add: IPv6_any_def)
  from ipv6_prefix_arithmetic [OF this] obtain b m where
    "IPv6_broadcastAddress 64 IPv6_any = Inr b" "IPv6_subnetMask 64 = Inr m"
    "\<forall>i. i < 128 \<longrightarrow> v6_bit b i = (v6_bit IPv6_any i \<or> unat (64 :: u32) \<le> i) \<and> v6_bit m i = (i < unat (64 :: u32))" by blast
  then show ?thesis by (intro exI [of _ b] exI [of _ m]) simp
qed

text \<open>
  What the code does otherwise than it says. For 128, which is a legal prefix length, all three write behind the
  array. And \<open>networdAddress\<close> does not give the network of the address: it keeps the whole bytes before the one the prefix ends
  in, but in that byte it clears the network's bits and keeps the host's.
\<close>

lemma ipv6_prefix_128:
  "IPv6_broadcastAddress 128 a = Inl Undefined_behaviour" "IPv6_networdAddress 128 a = Inl Undefined_behaviour"
  "IPv6_subnetMask 128 = Inl Undefined_behaviour"
  by (simp_all add: IPv6_broadcastAddress_def IPv6_networdAddress_def IPv6_subnetMask_def)

lemma ipv6_networdAddress_bits:
  assumes "length (s6_addr a) = 16" and "unat p < 128"
  shows "\<exists>n. IPv6_networdAddress p a = Inr n \<and>
    (\<forall>i < 128. v6_bit n i = (v6_bit a i \<and> (i div 8 < unat p div 8 \<or> i div 8 = unat p div 8 \<and> unat p \<le> i)))"
proof -
  let ?p = "unat p" and ?bs = "s6_addr a"
  let ?k = "?p div 8" and ?m = "CreateMask_8 (?p mod 8)"
  have k: "?k < 16" using assms(2) by (rule div8_lt_16)
  define n where "n = a\<lparr>s6_addr := fill_from (?k + 1) 0 (?bs[?k := ?bs ! ?k AND ?m])\<rparr>"
  have "IPv6_networdAddress p a = Inr n" using k by (simp add: IPv6_networdAddress_def Let_def n_def)
  moreover have "v6_bit n i = (v6_bit a i \<and> (i div 8 < ?k \<or> i div 8 = ?k \<and> ?p \<le> i))" if "i < 128" for i
    unfolding v6_bit_def n_def
    using prefix_byte_order [of i ?p] prefix_byte_order [of ?p i] prefix_bit_order [of i ?p]
    by (auto simp: v6_bit_split [OF assms(1) that assms(2), where g = "(\<and>)" and f = "\<lambda>b. b AND ?m"]
        bit_and_iff mask8_bit_msb)
  ultimately show ?thesis by blast
qed

section \<open>The text of an address\<close>

definition IPv4_insert :: "sockaddr_in \<Rightarrow> string" where
  "IPv4_insert a =
     (let addr = bswap_32 (s_addr a)
      in show_nat (unat (drop_bit 24 addr AND 0xFF)) @ ''.'' @
         show_nat (unat (drop_bit 16 addr AND 0xFF)) @ ''.'' @
         show_nat (unat (drop_bit 8 addr AND 0xFF)) @ ''.'' @
         show_nat (unat (addr AND 0xFF)) @ '':'' @
         show_nat (unat (bswap_16 (sin_port a))))"

definition hex_char :: "nat \<Rightarrow> char" where
  "hex_char n = (if n < 10 then digit_char n else char_of (87 + n))"

fun show_hex :: "nat \<Rightarrow> string" where
  "show_hex n = (if n < 16 then [hex_char n] else show_hex (n div 16) @ [hex_char (n mod 16)])"

declare show_hex.simps [simp del]

text \<open>\<open>(uint16_t*)s6_addr\<close> on a little-endian host.\<close>

fun words16 :: "u8 list \<Rightarrow> u16 list" where
  "words16 (x # y # bs) = (ucast x OR push_bit 8 (ucast y)) # words16 bs"
| "words16 _ = []"

text \<open>
  The loop over the eight groups: the group before the current one (\<open>None\<close> when \<open>i = 0\<close>)
  and \<open>used_zeros\<close> are its state.
\<close>

fun ipv6_groups :: "u16 option \<Rightarrow> bool \<Rightarrow> u16 list \<Rightarrow> string \<times> bool" where
  "ipv6_groups prev used [] = ([], used)"
| "ipv6_groups prev used (w # ws) =
     (if w = 0 \<and> \<not> used then ipv6_groups (Some w) used ws
      else
        (let skipped = (prev = Some 0 \<and> \<not> used);
             (rest, used') = ipv6_groups (Some w) (used \<or> skipped) ws
         in ((if skipped then '':'' else []) @ (if prev \<noteq> None then '':'' else []) @
             show_hex (unat (bswap_16 w)) @ rest, used')))"

definition IPv6_insert :: "sockaddr_in6 \<Rightarrow> string" where
  "IPv6_insert a =
     (let addr = words16 (s6_addr a);
          (groups, used_zeros) = ipv6_groups None False addr
      in ''['' @ groups @ (if \<not> used_zeros \<and> addr ! 7 = 0 then ''::'' else []) @
         '']:'' @ show_nat (unat (bswap_16 (sin6_port a))))"

text \<open>\<open>offsetof(sockaddr_un, sun_path)\<close> is 2, \<open>sizeof(sun_path)\<close> is 108.\<close>

definition UnixAddress_new :: sockaddr_un where
  "UnixAddress_new = \<lparr>sun_path = replicate 108 (CHR 0x00), un_length = 2 + (108 - 1)\<rparr>"

definition UnixAddress_of_path :: "string \<Rightarrow> string + sockaddr_un" where
  "UnixAddress_of_path path =
     (let m_length = (of_nat (length path) + 1 :: u32);
          m_length = (if path \<noteq> [] \<and> path ! 0 = CHR 0x00 then m_length - 1 else m_length)
      in if m_length > 108 then Inl ''path too long''
         else Inr \<lparr>sun_path = take (unat m_length) (path @ [CHR 0x00]) @ replicate (108 - unat m_length) (CHR 0x00),
                   un_length = m_length + 2\<rparr>)"

definition setAddrLen :: "u32 \<Rightarrow> sockaddr_un \<Rightarrow> sockaddr_un" where
  "setAddrLen v a = a\<lparr>un_length := v\<rparr>"

text \<open>\<open>getPath\<close>, which \<open>insert\<close> repeats: an abstract name is printed after \<open>\0\<close>.\<close>

definition getPath :: "sockaddr_un \<Rightarrow> string" where
  "getPath a =
     (if un_length a > 2 \<and> sun_path a ! 0 = CHR 0x00
      then [CHR 0x5C, CHR ''0''] @ take (unat (un_length a - 2 - 1)) (drop 1 (sun_path a))
      else takeWhile (\<lambda>c. c \<noteq> CHR 0x00) (sun_path a))"

fun toString :: "address \<Rightarrow> string" where
  "toString (IPv4Address a) = IPv4_insert a"
| "toString (IPv6Address a) = IPv6_insert a"
| "toString (UnixAddress a) = getPath a"
| "toString (UnknownAddress f) = ''[UnknownAddress family='' @ show_nat (unat f) @ '']''"

fun getAddrLen :: "address \<Rightarrow> u32" where
  "getAddrLen (IPv4Address a) = 16"
| "getAddrLen (IPv6Address a) = 28"
| "getAddrLen (UnixAddress a) = un_length a"
| "getAddrLen (UnknownAddress f) = 16"

lemma ip_text_colon: "is_ip a \<Longrightarrow> CHR '':'' \<in> set (toString a)"
  by (cases a) (auto simp: is_ip_def IPv4_insert_def IPv6_insert_def Let_def case_prod_beta)

lemma digits_no_sep: "\<not> is_digit c \<Longrightarrow> c \<notin> set (show_nat n)"
  using show_nat_digits [of n] by blast

lemma sep_unique:
  "c \<notin> set a \<Longrightarrow> c \<notin> set a' \<Longrightarrow> a @ c # b = a' @ c # b' \<longleftrightarrow> a = a' \<and> b = b'"
proof (induction a arbitrary: a')
  case Nil
  then show ?case by (cases a') auto
next
  case (Cons x a)
  then show ?case by (cases a') auto
qed

lemma show_nat_sep:
  "\<not> is_digit c \<Longrightarrow> show_nat m @ c # b = show_nat n @ c # b' \<longleftrightarrow> m = n \<and> b = b'"
  using show_nat_inj by (auto simp: sep_unique digits_no_sep)

lemma not_digit_sep: "\<not> is_digit (CHR ''.'')" "\<not> is_digit (CHR '':'')"
  by (simp_all add: is_digit_def)

lemma byte_eq_bits:
  assumes "(x :: u32) AND 0xFF = y AND 0xFF" and "n < 8"
  shows "bit x n = bit y n"
proof -
  have m: "(0xFF :: u32) = mask 8" by (simp add: mask_eq_exp_minus_1)
  from assms(1) have "bit (x AND mask 8) n = bit (y AND mask 8) n" by (simp only: m)
  then show ?thesis using assms(2) by (simp add: bit_and_iff bit_mask_iff)
qed

lemma byte_index:
  assumes "n < LENGTH(32)"
  obtains "n < 8" | k where "n = 8 + k" "k < 8" | k where "n = 16 + k" "k < 8"
    | k where "n = 24 + k" "k < 8"
proof -
  consider "n < 8" | "8 \<le> n \<and> n < 16" | "16 \<le> n \<and> n < 24" | "24 \<le> n \<and> n < 32"
    using assms by fastforce
  then show thesis
    by cases (auto intro: that(1) that(2) [of "n - 8"] that(3) [of "n - 16"] that(4) [of "n - 24"])
qed

lemma u32_of_bytes:
  assumes "drop_bit 24 x AND 0xFF = drop_bit 24 y AND (0xFF :: u32)"
    and "drop_bit 16 x AND 0xFF = drop_bit 16 y AND (0xFF :: u32)"
    and "drop_bit 8 x AND 0xFF = drop_bit 8 y AND (0xFF :: u32)"
    and "x AND 0xFF = y AND (0xFF :: u32)"
  shows "x = y"
proof (rule bit_word_eqI)
  fix n assume "n < LENGTH(32)"
  then consider "n < 8" | k where "n = 8 + k" "k < 8" | k where "n = 16 + k" "k < 8"
      | k where "n = 24 + k" "k < 8"
    by (rule byte_index)
  then show "bit x n = bit y n"
  proof cases
    case 1
    then show ?thesis by (rule byte_eq_bits [OF assms(4)])
  next
    case 2
    then show ?thesis using byte_eq_bits [OF assms(3), of k] by (simp add: bit_drop_bit_eq)
  next
    case 3
    then show ?thesis using byte_eq_bits [OF assms(2), of k] by (simp add: bit_drop_bit_eq)
  next
    case 4
    then show ?thesis using byte_eq_bits [OF assms(1), of k] by (simp add: bit_drop_bit_eq)
  qed
qed

text \<open>
  The text of an IPv4 address determines it: two addresses with the same text have the same
  port and the same four bytes. The table of upstream connections is keyed by this text.
\<close>

theorem ipv4_text_injective: "IPv4_insert a = IPv4_insert b \<longleftrightarrow> a = b"
proof
  assume eq: "IPv4_insert a = IPv4_insert b"
  let ?x = "bswap_32 (s_addr a)" and ?y = "bswap_32 (s_addr b)"
  from eq have "unat (drop_bit 24 ?x AND 0xFF) = unat (drop_bit 24 ?y AND 0xFF) \<and>
      unat (drop_bit 16 ?x AND 0xFF) = unat (drop_bit 16 ?y AND 0xFF) \<and>
      unat (drop_bit 8 ?x AND 0xFF) = unat (drop_bit 8 ?y AND 0xFF) \<and>
      unat (?x AND 0xFF) = unat (?y AND 0xFF) \<and>
      show_nat (unat (bswap_16 (sin_port a))) = show_nat (unat (bswap_16 (sin_port b)))"
    unfolding IPv4_insert_def Let_def append_Cons append_Nil
      show_nat_sep [OF not_digit_sep(1)] show_nat_sep [OF not_digit_sep(2)] .
  then have "?x = ?y" and "bswap_16 (sin_port a) = bswap_16 (sin_port b)"
    by (blast intro: u32_of_bytes word_unat_eq_iff [THEN iffD2] dest: show_nat_inj)+
  then show "a = b" by (simp add: bswap_32_inj bswap_16_inj)
qed simp

lemma getPath_named:
  assumes "path \<noteq> []" and "CHR 0x00 \<notin> set path"
  shows "getPath \<lparr>sun_path = path @ CHR 0x00 # more', un_length = l\<rparr> = path"
proof -
  have "takeWhile (\<lambda>c. c \<noteq> CHR 0x00) (path @ CHR 0x00 # more') = path"
    using assms(2) by (induction path) auto
  moreover have "(path @ CHR 0x00 # more') ! 0 \<noteq> CHR 0x00" using assms by (cases path) auto
  ultimately show ?thesis by (simp add: getPath_def)
qed

text \<open>
  A file-system path of 1 to 107 characters without a NUL becomes an address that prints as
  the path and whose length covers it and its NUL; a longer path is the exception. The empty path
  is accepted too, but prints as an abstract name.
\<close>

theorem unix_path_roundtrip:
  assumes "path \<noteq> []" and "length path < 2 ^ 31" and "CHR 0x00 \<notin> set path"
  shows "(length path \<le> 107 \<longrightarrow>
      (\<exists>a. UnixAddress_of_path path = Inr a \<and> toString (UnixAddress a) = path \<and>
           length (sun_path a) = 108 \<and> unat (un_length a) = length path + 3)) \<and>
    (107 < length path \<longrightarrow> UnixAddress_of_path path = Inl ''path too long'') \<and>
    (\<exists>e. UnixAddress_of_path [] = Inr e \<and> toString (UnixAddress e) = [CHR 0x5C, CHR ''0''])"
proof -
  let ?n = "of_nat (length path) + 1 :: u32"
  have n: "unat ?n = length path + 1"
    using assms(2) by (simp add: unat_word_ariths unat_of_nat)
  have head: "path ! 0 \<noteq> CHR 0x00"
    using assms(1,3) by (cases path) auto
  have short: "?n > 108 \<longleftrightarrow> 107 < length path"
    by (simp only: word_less_nat_alt n) simp
  have len: "unat (?n + 2) = length path + 3" if "length path \<le> 107"
  proof -
    have "unat (?n + 2) = (unat ?n + 2) mod 2 ^ 32" by (simp only: unat_word_ariths) simp
    then show ?thesis unfolding n using that by simp
  qed
  have new: "UnixAddress_of_path path =
      (if 107 < length path then Inl ''path too long''
       else Inr \<lparr>sun_path = path @ CHR 0x00 # replicate (107 - length path) (CHR 0x00), un_length = ?n + 2\<rparr>)"
    unfolding UnixAddress_of_path_def Let_def using head by (simp only: short n if_False simp_thms) simp
  moreover have "UnixAddress_of_path [] = Inr \<lparr>sun_path = replicate 108 (CHR 0x00), un_length = 3\<rparr>"
    by (simp add: UnixAddress_of_path_def flip: replicate_Suc)
  ultimately show ?thesis
    using len getPath_named [OF assms(1,3)] by (auto simp: getPath_def)
qed

theorem unix_path_roundtrip_witness:
  "\<exists>a. UnixAddress_of_path ''/tmp/s'' = Inr a \<and> toString (UnixAddress a) = ''/tmp/s''"
  using unix_path_roundtrip [of "''/tmp/s''"] by auto

section \<open>Looking up host:service\<close>

text \<open>
  What \<open>Lookup\<close> passes to \<open>getaddrinfo\<close>: the node and, unless the pointer is null, the
  service. \<open>memchr\<close> searches the whole string; a \<open>char*\<close> into it runs to its end.
\<close>

definition bracket_node :: "string \<Rightarrow> string \<times> string option" where
  "bracket_node host =
     (if host \<noteq> [] \<and> host ! 0 = CHR ''['' then
        (case str_find host '']'' 1 of
           None \<Rightarrow> ([], None)
         | Some endipv6 \<Rightarrow>
             (substr host 1 (Some (endipv6 - 1)),
              if endipv6 + 1 < length host \<and> host ! (endipv6 + 1) = CHR '':''
              then Some (drop (endipv6 + 2) host) else None))
      else ([], None))"

definition split_host_service :: "string \<Rightarrow> string \<times> string option" where
  "split_host_service host =
     (let (node, service) = bracket_node host;
          (node, service) =
            (if node = [] then
               (case str_find host '':'' 0 of
                  None \<Rightarrow> (node, None)
                | Some k \<Rightarrow>
                    if CHR '':'' \<notin> set (drop (k + 1) host)
                    then (substr host 0 (Some k), Some (drop (k + 1) host))
                    else (node, Some (drop k host)))
             else (node, service))
      in (if node = [] then host else node, service))"

type_synonym gai = "string \<Rightarrow> string option \<Rightarrow> u16 \<times> int \<times> int \<Rightarrow> sockaddr list option"

text \<open>
  \<open>gai\<close> is \<open>getaddrinfo\<close>: \<open>None\<close> is a nonzero error, else the addresses of its list, which
  are not null, so that \<open>Create\<close> gives each an address.
\<close>

definition Lookup :: "gai \<Rightarrow> string \<Rightarrow> u16 \<times> int \<times> int \<Rightarrow> bool \<times> address list" where
  "Lookup gai host hints =
     (let (node, service) = split_host_service host
      in case gai node service hints of
           None \<Rightarrow> (False, [])
         | Some results \<Rightarrow> (results \<noteq> [], map (\<lambda>a. the (Address_Create (Some a))) results))"

definition LookupAnyIPAddress :: "gai \<Rightarrow> string \<Rightarrow> u16 \<times> int \<times> int \<Rightarrow> address option" where
  "LookupAnyIPAddress gai host hints =
     (case Lookup gai host hints of
        (False, _) \<Rightarrow> None
      | (True, result) \<Rightarrow> find is_ip result)"

definition LookupAny :: "gai \<Rightarrow> string \<Rightarrow> u16 \<times> int \<times> int \<Rightarrow> address option" where
  "LookupAny gai host hints =
     (case Lookup gai host hints of (False, _) \<Rightarrow> None | (True, result) \<Rightarrow> Some (hd result))"

text \<open>The default arguments \<open>family = AF_INET, type = 0, protocol = 0\<close>.\<close>

definition default_hints :: "u16 \<times> int \<times> int" where
  "default_hints = (AF_INET, 0, 0)"

lemma bracket_node_other: "CHR ''['' \<notin> set (take 1 host) \<Longrightarrow> bracket_node host = ([], None)"
  by (cases host) (auto simp: bracket_node_def)

lemma bracket_node_v6:
  assumes "CHR '']'' \<notin> set v6"
  shows "bracket_node (''['' @ v6 @ '']'' @ more') =
    (v6, case more' of [] \<Rightarrow> None | c # cs \<Rightarrow> if c = CHR '':'' then Some cs else None)"
proof -
  have "str_find (''['' @ v6 @ CHR '']'' # more') '']'' 1 = Some (1 + length v6)"
    using str_find_char_append [of "CHR '']''" v6 1 "''[''" more'] assms by simp
  then show ?thesis
    by (cases more') (simp_all add: bracket_node_def substr_def nth_append)
qed

lemma split_colon:
  assumes "CHR ''['' \<notin> set (take 1 node)" and "CHR '':'' \<notin> set node"
  shows "split_host_service (node @ '':'' @ svc) =
    (if CHR '':'' \<in> set svc then (node @ '':'' @ svc, Some ('':'' @ svc))
     else (if node = [] then '':'' @ svc else node, Some svc))"
proof -
  have "CHR ''['' \<notin> set (take 1 (node @ CHR '':'' # svc))" using assms(1) by (cases node) auto
  moreover have "str_find (node @ CHR '':'' # svc) '':'' 0 = Some (length node)"
    using str_find_char_append [of "CHR '':''" node 0 "[]" svc] assms(2) by simp
  ultimately show ?thesis
    by (simp add: split_host_service_def bracket_node_other substr_def)
qed

lemma split_plain:
  assumes "CHR ''['' \<notin> set (take 1 host)" and "CHR '':'' \<notin> set host"
  shows "split_host_service host = (host, None)"
  using assms by (simp add: split_host_service_def bracket_node_other str_find_def find0_char)

text \<open>
  How a target of the configuration is read: \<open>node:service\<close> and \<open>[v6]:service\<close> are
  taken apart, a host without a colon and \<open>[v6]\<close> have no service. A bare text with two or more
  colons, such as an IPv6 address, stays the node but gets a service that starts with a colon,
  which no service name does.
\<close>

theorem lookup_split:
  assumes "node \<noteq> []" and "hd node \<noteq> CHR ''[''" and "CHR '':'' \<notin> set node" and "CHR '':'' \<notin> set svc"
    and "v6 \<noteq> []" and "CHR '']'' \<notin> set v6"
  shows "split_host_service (node @ '':'' @ svc) = (node, Some svc) \<and>
    split_host_service node = (node, None) \<and>
    split_host_service (''['' @ v6 @ '']:'' @ svc) = (v6, Some svc) \<and>
    split_host_service (''['' @ v6 @ '']'') = (v6, None) \<and>
    split_host_service (node @ '':'' @ node @ '':'' @ svc) =
      (node @ '':'' @ node @ '':'' @ svc, Some ('':'' @ node @ '':'' @ svc))"
proof -
  have head: "CHR ''['' \<notin> set (take 1 node)" using assms(1,2) by (cases node) auto
  have br: "split_host_service (''['' @ v6 @ '']'' @ more') = bracket_node (''['' @ v6 @ '']'' @ more')"
    for more' using assms(5) bracket_node_v6 [OF assms(6), of more'] by (simp add: split_host_service_def)
  show ?thesis
    using split_colon [OF head assms(3), of svc] split_plain [OF head assms(3)]
      split_colon [OF head assms(3), of "node @ '':'' @ svc"]
      br [of "CHR '':'' # svc"] br [of "[]"] bracket_node_v6 [OF assms(6), of "CHR '':'' # svc"]
      bracket_node_v6 [OF assms(6), of "[]"] assms
    by simp
qed

theorem lookup_split_witness:
  "split_host_service ''127.0.0.1:9000'' = (''127.0.0.1'', Some ''9000'') \<and>
   split_host_service ''[::1]:9000'' = (''::1'', Some ''9000'')"
  using lookup_split [of "''127.0.0.1''" "''9000''" "''::1''"] by simp

text \<open>What a successful \<open>LookupAnyIPAddress\<close> gives is an IP address of the list.\<close>

lemma LookupAnyIPAddress_ip:
  "LookupAnyIPAddress gai host hints = Some a \<Longrightarrow> is_ip a"
  by (auto simp: LookupAnyIPAddress_def find_Some_iff split: prod.splits bool.splits if_splits)

section \<open>Interfaces\<close>

record ifaddrs =
  ifa_name :: string
  ifa_addr :: "sockaddr option"
  ifa_netmask :: "sockaddr option"

fun sa_family :: "sockaddr \<Rightarrow> u16" where
  "sa_family (Sockaddr_in a) = AF_INET"
| "sa_family (Sockaddr_in6 a) = AF_INET6"
| "sa_family (Sockaddr_other f) = f"

text \<open>
  One turn of the loop over \<open>getifaddrs\<close>. Null \<open>ifa_addr\<close> and \<open>ifa_netmask\<close> pointers
  are dereferenced. A netmask has its address's family.
\<close>

definition interface_entry ::
  "u16 \<Rightarrow> ifaddrs \<Rightarrow> ub + (string \<times> address \<times> u32) option" where
  "interface_entry family nxt =
     (case ifa_addr nxt of
        None \<Rightarrow> Inl Undefined_behaviour
      | Some a \<Rightarrow>
          if family \<noteq> AF_UNSPEC \<and> family \<noteq> sa_family a then Inr None
          else (case a of
             Sockaddr_in sin \<Rightarrow>
               (case ifa_netmask nxt of
                  Some (Sockaddr_in m) \<Rightarrow> Inr (Some (ifa_name nxt, IPv4Address sin, CountBytes (s_addr m)))
                | _ \<Rightarrow> Inl Undefined_behaviour)
           | Sockaddr_in6 sin6 \<Rightarrow>
               (case ifa_netmask nxt of
                  Some (Sockaddr_in6 m) \<Rightarrow>
                    Inr (Some (ifa_name nxt, IPv6Address sin6, sum_list (map CountBytes (s6_addr m))))
                | _ \<Rightarrow> Inl Undefined_behaviour)
           | Sockaddr_other f \<Rightarrow> Inr None))"

fun interface_loop :: "u16 \<Rightarrow> ifaddrs list \<Rightarrow> ub + (string \<times> address \<times> u32) list" where
  "interface_loop family [] = Inr []"
| "interface_loop family (nxt # rest) =
     (case interface_entry family nxt of Inl e \<Rightarrow> Inl e
      | Inr entry \<Rightarrow>
          (case interface_loop family rest of Inl e \<Rightarrow> Inl e
           | Inr es \<Rightarrow> Inr (case entry of None \<Rightarrow> es | Some x \<Rightarrow> x # es)))"

text \<open>
  The two \<open>GetInterfaceAddresses\<close>; \<open>getifaddrs\<close> is an argument, \<open>None\<close> when it fails.
  The multimap is the list of its insertions: equal names keep their order.
\<close>

definition GetInterfaceAddresses ::
  "ifaddrs list option \<Rightarrow> u16 \<Rightarrow> ub + bool \<times> (string \<times> address \<times> u32) list" where
  "GetInterfaceAddresses ifs family =
     (case ifs of None \<Rightarrow> Inr (False, [])
      | Some l \<Rightarrow>
          (case interface_loop family l of Inl e \<Rightarrow> Inl e | Inr es \<Rightarrow> Inr (es \<noteq> [], es)))"

definition GetInterfaceAddresses_of ::
  "ifaddrs list option \<Rightarrow> string \<Rightarrow> u16 \<Rightarrow> ub + bool \<times> (address \<times> u32) list" where
  "GetInterfaceAddresses_of ifs iface family =
     (if iface = [] \<or> iface = ''*'' then
        Inr (True,
          (if family = AF_INET \<or> family = AF_UNSPEC then [(IPv4Address (IPv4_new 0 0), 0)] else []) @
          (if family = AF_INET6 \<or> family = AF_UNSPEC then [(IPv6Address IPv6_any, 0)] else []))
      else
        (case GetInterfaceAddresses ifs family of Inl e \<Rightarrow> Inl e
         | Inr (False, _) \<Rightarrow> Inr (False, [])
         | Inr (True, results) \<Rightarrow>
             (let found = map snd (filter (\<lambda>x. fst x = iface) results) in Inr (found \<noteq> [], found))))"

end
