(* ===== verification/Lru_Cache.thy ===== *)
theory Lru_Cache
  imports Gw_Prelude
begin

text \<open>
  \<open>LRUCache\<close> of \<open>src/my_stl/my_stl.hpp\<close>: a \<open>std::list\<close> of nodes, most recent first, and
  an \<open>unordered_map\<close> from keys to list iterators. A list cell carries its identity
  (\<open>cell_id\<close>), which is what an iterator denotes: \<open>splice\<close> moves the cell and keeps the
  iterators valid. The abstract cache is the association list of the cells in that order,
  cut at the capacity.
\<close>

section \<open>The state\<close>

datatype ('k, 'v) lru_cell = Cell (cell_id: nat) (node_key: 'k) (node_value: 'v)

record ('k, 'v) lru =
  lru_capacity :: int
  lru_map :: "'k \<Rightarrow> nat option"
  lru_list :: "('k, 'v) lru_cell list"
  lru_fresh :: nat

definition lru_new :: "int \<Rightarrow> ('k, 'v) lru" where
  "lru_new cap = \<lparr>lru_capacity = cap, lru_map = (\<lambda>_. None), lru_list = [], lru_fresh = 0\<rparr>"

section \<open>The operations\<close>

text \<open>\<open>my_list.splice(my_list.begin(), my_list, it)\<close>.\<close>

definition splice_front :: "nat \<Rightarrow> ('k, 'v) lru_cell list \<Rightarrow> ('k, 'v) lru_cell list" where
  "splice_front i xs = filter (\<lambda>c. cell_id c = i) xs @ filter (\<lambda>c. cell_id c \<noteq> i) xs"

text \<open>
  \<open>my_list.size() >= capacity\<close> compares a \<open>size_t\<close> with an \<open>int\<close>: the \<open>int\<close> is
  converted to 64 unsigned bits.
\<close>

definition size_ge_capacity :: "nat \<Rightarrow> int \<Rightarrow> bool" where
  "size_ge_capacity n cap \<longleftrightarrow> cap mod 2 ^ 64 \<le> int n"

text \<open>
  \<open>push\<close>. \<open>None\<close> is the undefined behaviour of \<open>back()\<close> on an empty list (a capacity
  of 0) or of a stale iterator.
\<close>

definition lru_push :: "'k \<Rightarrow> 'v \<Rightarrow> ('k, 'v) lru \<Rightarrow> ('k, 'v) lru option" where
  "lru_push key val c =
     (case lru_map c key of
        Some i \<Rightarrow>
          (case splice_front i (lru_list c) of
             [] \<Rightarrow> None
           | x # xs \<Rightarrow> Some (c\<lparr>lru_list := Cell (cell_id x) (node_key x) val # xs\<rparr>))
      | None \<Rightarrow>
          (let evict = lru_capacity c \<noteq> -1 \<and> size_ge_capacity (length (lru_list c)) (lru_capacity c)
           in if evict \<and> lru_list c = [] then None
              else
                let m = (if evict then (lru_map c)(node_key (last (lru_list c)) := None) else lru_map c);
                    l = (if evict then butlast (lru_list c) else lru_list c);
                    i = lru_fresh c
                in Some (c\<lparr>lru_map := m(key := Some i), lru_list := Cell i key val # l,
                            lru_fresh := Suc i\<rparr>)))"

text \<open>\<open>get\<close>; a miss returns \<open>U{}\<close>, the zero of the value type.\<close>

definition lru_get :: "'k \<Rightarrow> ('k, 'v::zero) lru \<Rightarrow> (bool \<times> 'v) \<times> ('k, 'v) lru" where
  "lru_get key c =
     (case lru_map c key of
        None \<Rightarrow> ((False, 0), c)
      | Some i \<Rightarrow>
          (let l = splice_front i (lru_list c)
           in ((True, (case l of [] \<Rightarrow> 0 | x # _ \<Rightarrow> node_value x)), c\<lparr>lru_list := l\<rparr>)))"

text \<open>\<open>clear\<close>, which the destructor calls.\<close>

definition lru_clear :: "('k, 'v) lru \<Rightarrow> ('k, 'v) lru" where
  "lru_clear c = c\<lparr>lru_map := (\<lambda>_. None), lru_list := []\<rparr>"

section \<open>Well-formed caches\<close>

definition lru_index :: "('k, 'v) lru_cell list \<Rightarrow> 'k \<Rightarrow> nat option" where
  "lru_index l = map_of (map (\<lambda>x. (node_key x, cell_id x)) l)"

definition lru_wf :: "('k, 'v) lru \<Rightarrow> bool" where
  "lru_wf c \<longleftrightarrow>
     distinct (map cell_id (lru_list c)) \<and> distinct (map node_key (lru_list c)) \<and>
     (\<forall>x \<in> set (lru_list c). cell_id x < lru_fresh c) \<and> lru_map c = lru_index (lru_list c)"

definition lru_bounded :: "('k, 'v) lru \<Rightarrow> bool" where
  "lru_bounded c \<longleftrightarrow> lru_capacity c = -1 \<or>
     (0 < lru_capacity c \<and> lru_capacity c < 2 ^ 31 \<and> int (length (lru_list c)) \<le> lru_capacity c)"

definition lru_ok :: "('k, 'v) lru \<Rightarrow> bool" where
  "lru_ok c \<longleftrightarrow> lru_wf c \<and> lru_bounded c"

definition lru_alist :: "('k, 'v) lru \<Rightarrow> ('k \<times> 'v) list" where
  "lru_alist c = map (\<lambda>x. (node_key x, node_value x)) (lru_list c)"

lemma keys_lru_alist [simp]: "map fst (lru_alist c) = map node_key (lru_list c)"
  by (simp add: lru_alist_def comp_def)

lemma lru_new_ok [inv_intros]: "cap = -1 \<or> 0 < cap \<and> cap < 2 ^ 31 \<Longrightarrow> lru_ok (lru_new cap)"
  by (auto simp: lru_ok_def lru_wf_def lru_bounded_def lru_new_def lru_index_def)

lemma lru_new_alist [simp]: "lru_alist (lru_new cap) = []"
  by (simp add: lru_alist_def lru_new_def)

lemma lru_index_None: "lru_index l k = None \<longleftrightarrow> k \<notin> set (map node_key l)"
  by (auto simp: lru_index_def map_of_eq_None_iff image_iff)

lemma lru_index_Some: "lru_index l k = Some i \<Longrightarrow> \<exists>x \<in> set l. cell_id x = i \<and> node_key x = k"
  by (auto simp: lru_index_def dest!: map_of_SomeD)

lemma lru_index_cell:
  "distinct (map node_key l) \<Longrightarrow> x \<in> set l \<Longrightarrow> lru_index l (node_key x) = Some (cell_id x)"
  by (auto simp: lru_index_def comp_def intro!: map_of_is_SomeI)

lemma lru_index_Cons: "lru_index (x # l) = (lru_index l)(node_key x \<mapsto> cell_id x)"
  by (simp add: lru_index_def)

lemma lru_index_perm:
  "distinct (map node_key l) \<Longrightarrow> distinct (map node_key l') \<Longrightarrow>
     (\<lambda>x. (node_key x, cell_id x)) ` set l = (\<lambda>x. (node_key x, cell_id x)) ` set l' \<Longrightarrow>
     lru_index l = lru_index l'"
  unfolding lru_index_def by (subst map_of_inject_set) (auto simp: comp_def)

lemma lru_index_butlast:
  assumes "distinct (map node_key l)" and "l \<noteq> []"
  shows "lru_index (butlast l) = (lru_index l)(node_key (last l) := None)"
proof -
  obtain xs x where l: "l = xs @ [x]" using assms(2) by (cases l rule: rev_cases) auto
  then have "x \<notin> set xs" "lru_index xs (node_key x) = None"
    using assms(1) by (auto simp: lru_index_None)
  then show ?thesis
    using l by (auto simp: lru_index_def fun_eq_iff map_add_def split: option.splits)
qed

lemma filter_id_singleton:
  "distinct (map f xs) \<Longrightarrow> x \<in> set xs \<Longrightarrow> filter (\<lambda>y. f y = f x) xs = [x]"
  by (induction xs) (auto simp: filter_empty_conv image_iff)

text \<open>An iterator of the map denotes one cell, the one with the key it was stored under.\<close>

lemma splice_front_hit:
  assumes "lru_wf c" and "lru_map c k = Some i"
  obtains x where "x \<in> set (lru_list c)" and "cell_id x = i" and "node_key x = k"
    and "splice_front i (lru_list c) = x # filter (\<lambda>y. node_key y \<noteq> k) (lru_list c)"
proof -
  have d: "distinct (map cell_id (lru_list c))" and "lru_index (lru_list c) k = Some i"
    using assms by (simp_all add: lru_wf_def)
  from lru_index_Some [OF this(2)]
  obtain x where x: "x \<in> set (lru_list c)" "cell_id x = i" "node_key x = k"
    by auto
  have "filter (\<lambda>y. cell_id y = i) (lru_list c) = [x]"
    using filter_id_singleton [OF d x(1)] by (simp add: x(2))
  moreover have "filter (\<lambda>y. cell_id y \<noteq> i) (lru_list c) = filter (\<lambda>y. node_key y \<noteq> k) (lru_list c)"
  proof (rule filter_cong [OF refl])
    fix y assume "y \<in> set (lru_list c)"
    then have "lru_map c (node_key y) = Some (cell_id y)"
      using assms(1) by (simp add: lru_wf_def lru_index_cell)
    moreover have "inj_on cell_id (set (lru_list c))"
      using d by (simp add: distinct_map)
    ultimately show "(cell_id y \<noteq> i) = (node_key y \<noteq> k)"
      using x \<open>y \<in> set (lru_list c)\<close> assms(2) by (metis inj_onD option.inject)
  qed
  ultimately have "splice_front i (lru_list c) = x # filter (\<lambda>y. node_key y \<noteq> k) (lru_list c)"
    by (simp add: splice_front_def)
  with x show thesis by (rule that)
qed

lemma splice_front_perm:
  "distinct (map f xs) \<Longrightarrow> distinct (map f (splice_front i xs))"
  unfolding splice_front_def by (induction xs) auto

lemma set_splice_front [simp]: "set (splice_front i xs) = set xs"
  by (auto simp: splice_front_def)

lemma length_splice_front [simp]: "length (splice_front i xs) = length xs"
  by (simp add: splice_front_def sum_length_filter_compl)

text \<open>Every operation keeps the invariant.\<close>

lemma lru_hit_update_wf:
  assumes "lru_wf c" and "splice_front i (lru_list c) = x # xs"
  shows "lru_wf (c\<lparr>lru_list := Cell (cell_id x) (node_key x) v # xs\<rparr>)"
proof -
  have set: "set (lru_list c) = insert x (set xs)"
    using assms(2) set_splice_front [of i "lru_list c"] by simp
  have d: "distinct (map cell_id (x # xs))" "distinct (map node_key (x # xs))"
    using splice_front_perm [of _ "lru_list c" i] assms by (auto simp: lru_wf_def)
  have "lru_index (lru_list c) = lru_index (Cell (cell_id x) (node_key x) v # xs)"
    using d assms(1) by (intro lru_index_perm) (auto simp: lru_wf_def set)
  with d assms(1) show ?thesis by (auto simp: lru_wf_def set)
qed

lemma lru_push_hit:
  assumes "lru_wf c" and "lru_map c k = Some i"
  shows "\<exists>c'. lru_push k v c = Some c' \<and> lru_wf c' \<and> lru_capacity c' = lru_capacity c \<and>
    length (lru_list c') = length (lru_list c) \<and>
    lru_alist c' = (k, v) # filter (\<lambda>p. fst p \<noteq> k) (lru_alist c)"
proof -
  obtain x where x: "x \<in> set (lru_list c)" "cell_id x = i" "node_key x = k"
    and sp: "splice_front i (lru_list c) = x # filter (\<lambda>y. node_key y \<noteq> k) (lru_list c)"
    using splice_front_hit [OF assms] .
  let ?c = "c\<lparr>lru_list := Cell (cell_id x) (node_key x) v # filter (\<lambda>y. node_key y \<noteq> k) (lru_list c)\<rparr>"
  have "lru_push k v c = Some ?c"
    using assms(2) sp by (simp add: lru_push_def)
  moreover have "lru_wf ?c" using assms(1) sp by (rule lru_hit_update_wf)
  moreover have "length (lru_list ?c) = length (lru_list c)"
    using arg_cong [OF sp, of length] by simp
  moreover have "lru_alist ?c = (k, v) # filter (\<lambda>p. fst p \<noteq> k) (lru_alist c)"
    using x(3) by (simp add: lru_alist_def filter_map comp_def)
  ultimately show ?thesis by auto
qed

lemma lru_evict_wf:
  assumes "lru_wf c" and "lru_list c \<noteq> []"
  shows "lru_wf (c\<lparr>lru_map := (lru_map c)(node_key (last (lru_list c)) := None),
    lru_list := butlast (lru_list c)\<rparr>)"
  using assms
  by (auto simp: lru_wf_def lru_index_butlast map_butlast distinct_butlast dest: in_set_butlastD)

lemma lru_insert_wf:
  assumes "lru_wf c" and "lru_map c k = None"
  shows "lru_wf (c\<lparr>lru_map := (lru_map c)(k \<mapsto> lru_fresh c),
    lru_list := Cell (lru_fresh c) k v # lru_list c, lru_fresh := Suc (lru_fresh c)\<rparr>)"
  using assms
  by (auto simp: lru_wf_def lru_index_Cons lru_index_None image_iff dest: less_SucI)

definition lru_evicts :: "('k, 'v) lru \<Rightarrow> bool" where
  "lru_evicts c \<longleftrightarrow>
     lru_capacity c \<noteq> -1 \<and> size_ge_capacity (length (lru_list c)) (lru_capacity c)"

lemma lru_push_miss:
  assumes "lru_map c k = None" and "lru_evicts c \<Longrightarrow> lru_list c \<noteq> []"
  defines "d \<equiv> (if lru_evicts c
      then c\<lparr>lru_map := (lru_map c)(node_key (last (lru_list c)) := None),
             lru_list := butlast (lru_list c)\<rparr>
      else c)"
  shows "lru_push k v c = Some (d\<lparr>lru_map := (lru_map d)(k \<mapsto> lru_fresh d),
    lru_list := Cell (lru_fresh d) k v # lru_list d, lru_fresh := Suc (lru_fresh d)\<rparr>)"
  using assms by (auto simp: lru_push_def lru_evicts_def Let_def)

lemma lru_evicts_iff:
  "lru_bounded c \<Longrightarrow> lru_evicts c \<longleftrightarrow> int (length (lru_list c)) = lru_capacity c"
  by (auto simp: lru_bounded_def lru_evicts_def size_ge_capacity_def)

section \<open>Refinement of the bounded association list\<close>

definition spec_push :: "int \<Rightarrow> 'k \<Rightarrow> 'v \<Rightarrow> ('k \<times> 'v) list \<Rightarrow> ('k \<times> 'v) list" where
  "spec_push cap k v al =
     (let r = (k, v) # filter (\<lambda>p. fst p \<noteq> k) al in if cap = -1 then r else take (nat cap) r)"

definition spec_get :: "'k \<Rightarrow> ('k \<times> 'v) list \<Rightarrow> ('k \<times> 'v) list" where
  "spec_get k al =
     (case map_of al k of None \<Rightarrow> al | Some v \<Rightarrow> (k, v) # filter (\<lambda>p. fst p \<noteq> k) al)"

lemma lru_push_refines:
  assumes "lru_ok c"
  shows "\<exists>c'. lru_push k v c = Some c' \<and> lru_ok c' \<and> lru_capacity c' = lru_capacity c \<and>
    lru_alist c' = spec_push (lru_capacity c) k v (lru_alist c)"
proof (cases "lru_map c k")
  case (Some i)
  from assms have wf: "lru_wf c" and b: "lru_bounded c" by (simp_all add: lru_ok_def)
  obtain c' where c': "lru_push k v c = Some c'" "lru_wf c'" "lru_capacity c' = lru_capacity c"
      "length (lru_list c') = length (lru_list c)"
      "lru_alist c' = (k, v) # filter (\<lambda>p. fst p \<noteq> k) (lru_alist c)"
    using lru_push_hit [OF wf Some] by blast
  have "length ((k, v) # filter (\<lambda>p. fst p \<noteq> k) (lru_alist c)) = length (lru_list c)"
    using c'(4,5) by (metis length_map lru_alist_def)
  then have "lru_alist c' = spec_push (lru_capacity c) k v (lru_alist c)"
    using b c'(5) by (auto simp: spec_push_def Let_def lru_bounded_def)
  with c' b show ?thesis by (auto simp: lru_ok_def lru_bounded_def)
next
  case None
  from assms have wf: "lru_wf c" and b: "lru_bounded c" by (simp_all add: lru_ok_def)
  define d where "d = (if lru_evicts c
      then c\<lparr>lru_map := (lru_map c)(node_key (last (lru_list c)) := None),
             lru_list := butlast (lru_list c)\<rparr>
      else c)"
  have ne: "lru_evicts c \<Longrightarrow> lru_list c \<noteq> []"
    using b by (auto simp: lru_evicts_iff lru_bounded_def)
  have d: "lru_wf d" "lru_map d k = None" "lru_capacity d = lru_capacity c"
    using wf None ne by (auto simp: d_def lru_evict_wf)
  let ?c = "d\<lparr>lru_map := (lru_map d)(k \<mapsto> lru_fresh d),
    lru_list := Cell (lru_fresh d) k v # lru_list d, lru_fresh := Suc (lru_fresh d)\<rparr>"
  have push: "lru_push k v c = Some ?c"
    using lru_push_miss [OF None ne] by (simp add: d_def)
  have "k \<notin> node_key ` set (lru_list c)"
    using None wf by (simp add: lru_wf_def lru_index_None)
  then have f: "filter (\<lambda>p. fst p \<noteq> k) (lru_alist c) = lru_alist c"
    by (auto simp: lru_alist_def filter_id_conv)
  have "lru_alist ?c = (k, v) # (if lru_evicts c then butlast (lru_alist c) else lru_alist c)"
    by (simp add: d_def lru_alist_def map_butlast)
  moreover have "length (lru_alist c) = length (lru_list c)" by (simp add: lru_alist_def)
  ultimately have "lru_alist ?c = spec_push (lru_capacity c) k v (lru_alist c)"
    using b by (auto simp: spec_push_def f lru_evicts_iff lru_bounded_def take_Cons_butlast)
  moreover have "lru_wf ?c" using d by (simp add: lru_insert_wf)
  moreover have "lru_bounded ?c"
    using b ne by (auto simp: lru_bounded_def d_def lru_evicts_iff)
  ultimately show ?thesis using push d(3) by (auto simp: lru_ok_def)
qed

lemma lru_get_refines:
  assumes "lru_ok c"
  shows "lru_ok (snd (lru_get k c)) \<and> lru_capacity (snd (lru_get k c)) = lru_capacity c \<and>
    lru_alist (snd (lru_get k c)) = spec_get k (lru_alist c) \<and>
    fst (lru_get k c) = (case map_of (lru_alist c) k of None \<Rightarrow> (False, 0) | Some v \<Rightarrow> (True, v))"
proof (cases "lru_map c k")
  case None
  with assms have "map_of (lru_alist c) k = None"
    by (auto simp: lru_ok_def lru_wf_def lru_index_None lru_alist_def map_of_eq_None_iff image_iff)
  with None assms show ?thesis by (simp add: lru_get_def spec_get_def)
next
  case (Some i)
  from assms have wf: "lru_wf c" and b: "lru_bounded c" by (simp_all add: lru_ok_def)
  obtain x where x: "x \<in> set (lru_list c)" "node_key x = k"
    and sp: "splice_front i (lru_list c) = x # filter (\<lambda>y. node_key y \<noteq> k) (lru_list c)"
    using splice_front_hit [OF wf Some] .
  have val: "map_of (lru_alist c) k = Some (node_value x)"
    using wf x by (auto simp: lru_alist_def lru_wf_def comp_def intro!: map_of_is_SomeI)
  have res: "lru_get k c = ((True, node_value x), c\<lparr>lru_list := splice_front i (lru_list c)\<rparr>)"
    using Some sp by (simp add: lru_get_def)
  have "Cell (cell_id x) (node_key x) (node_value x) = x" by simp
  then have "lru_wf (c\<lparr>lru_list := splice_front i (lru_list c)\<rparr>)"
    using lru_hit_update_wf [OF wf sp, of "node_value x"] sp by simp
  moreover have "lru_alist (c\<lparr>lru_list := splice_front i (lru_list c)\<rparr>) = spec_get k (lru_alist c)"
    using sp val x(2) by (simp add: spec_get_def lru_alist_def filter_map comp_def)
  ultimately show ?thesis using res val b by (simp add: lru_ok_def lru_bounded_def)
qed

section \<open>Runs of operations\<close>

datatype ('k, 'v) lru_op = Push 'k 'v | Get 'k

fun op_key :: "('k, 'v) lru_op \<Rightarrow> 'k" where
  "op_key (Push k v) = k"
| "op_key (Get k) = k"

text \<open>On well-formed caches \<open>push\<close> is defined, so the undefined case stays put.\<close>

fun lru_step :: "('k, 'v::zero) lru \<Rightarrow> ('k, 'v) lru_op \<Rightarrow> ('k, 'v) lru" where
  "lru_step c (Push k v) = (case lru_push k v c of Some c' \<Rightarrow> c' | None \<Rightarrow> c)"
| "lru_step c (Get k) = snd (lru_get k c)"

fun spec_step :: "int \<times> ('k \<times> 'v) list \<Rightarrow> ('k, 'v) lru_op \<Rightarrow> int \<times> ('k \<times> 'v) list" where
  "spec_step (cap, al) (Push k v) = (cap, spec_push cap k v al)"
| "spec_step (cap, al) (Get k) = (cap, spec_get k al)"

definition lru_view :: "('k, 'v) lru \<Rightarrow> int \<times> ('k \<times> 'v) list" where
  "lru_view c = (lru_capacity c, lru_alist c)"

lemma lru_step_refines:
  assumes "lru_ok c"
  shows "lru_ok (lru_step c x) \<and> lru_view (lru_step c x) = spec_step (lru_view c) x"
proof (cases x)
  case (Push k v)
  then show ?thesis using lru_push_refines [OF assms, of k v] by (auto simp: lru_view_def)
next
  case (Get k)
  then show ?thesis using lru_get_refines [OF assms, of k] by (simp add: lru_view_def)
qed

interpretation lru: op_refinement lru_step lru_ok spec_step lru_view
  by unfold_locales (simp_all add: lru_step_refines)

text \<open>
  C7: Every sequence of \<open>push\<close> and \<open>get\<close> keeps the list, the hash map and the iterators
  consistent (each key once, each map entry the iterator of the cell with its key, at most
  \<open>capacity\<close> cells) and has on the list, read as an association list, exactly the effect of the
  same operations of a recency-ordered list cut at the capacity.
\<close>

theorem lru_run_refines:
  "lru_ok c \<Longrightarrow> lru_ok (foldl lru_step c ops) \<and>
     lru_view (foldl lru_step c ops) = foldl spec_step (lru_view c) ops"
  by (simp add: lru.run_inv lru.run_abs)

theorem lru_run_refines_witness:
  "lru_view (foldl lru_step (lru_new 2) [Push (1::nat) (10::int), Push 2 20, Get 1, Push 3 30]) =
     (2, [(3, 30), (1, 10)])"
proof -
  have "lru_ok (lru_new 2 :: (nat, int) lru)" by (rule lru_new_ok) simp
  from lru_run_refines [OF this, of "[Push 1 10, Push 2 20, Get 1, Push 3 30]"]
  show ?thesis by (simp add: lru_view_def lru_new_def lru_alist_def spec_push_def spec_get_def)
qed

subsection \<open>What eviction may drop\<close>

text \<open>The keys more recent than \<open>k\<close>.\<close>

definition keys_before :: "'k \<Rightarrow> ('k \<times> 'v) list \<Rightarrow> 'k list" where
  "keys_before k al = takeWhile (\<lambda>q. q \<noteq> k) (map fst al)"

lemma keys_before_Cons:
  "keys_before k (p # al) = (if fst p = k then [] else fst p # keys_before k al)"
  by (simp add: keys_before_def)

lemma keys_before_notin: "k \<notin> set (keys_before k al)"
  by (auto simp: keys_before_def dest: set_takeWhileD)

lemma set_keys_before_filter:
  "k \<noteq> q \<Longrightarrow> set (keys_before k (filter (\<lambda>p. fst p \<noteq> q) al)) \<subseteq> set (keys_before k al)"
  by (induction al) (auto simp: keys_before_Cons keys_before_def)

lemma keys_before_length:
  "k \<in> fst ` set al \<Longrightarrow> length (keys_before k al) < length al"
  by (induction al) (auto simp: keys_before_Cons)

lemma map_of_take_keys_before:
  "k \<in> fst ` set al \<Longrightarrow> length (keys_before k al) < n \<Longrightarrow>
     map_of (take n al) k = map_of al k \<and> keys_before k (take n al) = keys_before k al"
proof (induction al arbitrary: n)
  case Nil
  then show ?case by simp
next
  case (Cons p al)
  then show ?case by (cases n) (auto simp: keys_before_Cons split: if_splits)
qed

lemma map_of_filter_other:
  "k \<noteq> q \<Longrightarrow> map_of (filter (\<lambda>p. fst p \<noteq> q) al) k = map_of al k"
  by (induction al) auto

lemma distinct_spec:
  "distinct (map fst al) \<Longrightarrow> distinct (map fst (snd (spec_step (cap, al) x)))"
  by (cases x)
     (auto simp: spec_push_def spec_get_def Let_def take_map [symmetric] distinct_map_filter
       simp del: map_of_eq_None_iff split: option.splits intro!: distinct_take)

text \<open>
  One operation on another key: \<open>k\<close> keeps its value as long as the keys more recent than
  it, this one included, are fewer than the capacity.
\<close>

lemma spec_step_keeps:
  assumes "distinct (map fst al)" and "map_of al k = Some v" and "op_key x \<noteq> k"
    and "cap = -1 \<or> int (card (insert (op_key x) (set (keys_before k al)))) < cap"
  shows "map_of (snd (spec_step (cap, al) x)) k = Some v \<and>
    set (keys_before k (snd (spec_step (cap, al) x))) \<subseteq> insert (op_key x) (set (keys_before k al))"
proof -
  let ?q = "op_key x"
  let ?f = "filter (\<lambda>p. fst p \<noteq> ?q) al"
  have sub: "set (keys_before k ?f) \<subseteq> set (keys_before k al)"
    using assms(3) set_keys_before_filter [of k ?q al] by auto
  have in_f: "map_of ?f k = Some v" using assms(2,3) by (simp add: map_of_filter_other)
  have kf: "k \<in> fst ` set ((?q, w) # ?f)" for w
    using map_of_SomeD [OF in_f] by (auto intro: rev_image_eqI)
  have qk: "keys_before k ((?q, w) # ?f) = ?q # keys_before k ?f" for w
    using assms(3) by (simp add: keys_before_Cons)
  have d: "distinct (?q # keys_before k ?f)"
    using assms(1) by (auto simp: keys_before_def distinct_map_filter distinct_takeWhile
        dest!: set_takeWhileD)
  have "length (?q # keys_before k ?f) = card (insert ?q (set (keys_before k ?f)))"
    using d distinct_card by fastforce
  also have "\<dots> \<le> card (insert ?q (set (keys_before k al)))"
    using sub by (intro card_mono) auto
  finally have len: "cap \<noteq> -1 \<Longrightarrow> length (keys_before k ((?q, w) # ?f)) < nat cap" for w
    using assms(4) qk by simp
  have "map_of (take (nat cap) ((?q, w) # ?f)) k = Some v \<and>
      keys_before k (take (nat cap) ((?q, w) # ?f)) = ?q # keys_before k ?f" if "cap \<noteq> -1" for w
    using map_of_take_keys_before [OF kf len [OF that]] in_f assms(3) qk by simp
  then show ?thesis
    using in_f qk sub assms(2,3)
    by (cases x) (auto simp: spec_push_def spec_get_def Let_def split: option.splits)
qed

lemma spec_get_keeps:
  "map_of al k = Some v \<Longrightarrow> map_of (snd (spec_step (cap, al) (Get k))) k = Some v \<and>
     keys_before k (snd (spec_step (cap, al) (Get k))) = []"
  by (simp add: spec_get_def keys_before_Cons)

lemma spec_run_keeps:
  assumes "distinct (map fst al)" and "map_of al k = Some v" and "\<forall>w. Push k w \<notin> set ops"
    and "cap = -1 \<or> int (card (set (keys_before k al) \<union> (op_key ` set ops - {k}))) < cap"
  shows "map_of (snd (foldl spec_step (cap, al) ops)) k = Some v"
  using assms
proof (induction ops arbitrary: al)
  case Nil
  then show ?case by simp
next
  case (Cons x ops)
  let ?al = "snd (spec_step (cap, al) x)"
  let ?all = "set (keys_before k al) \<union> (op_key ` set (x # ops) - {k})"
  have cap: "spec_step (cap, al) x = (cap, ?al)" by (cases x) auto
  have small: "cap = -1 \<or> int (card S) < cap" if "S \<subseteq> ?all" for S
    using Cons.prems(4) card_mono [of ?all S] that by force
  have step: "map_of ?al k = Some v \<and> set (keys_before k ?al) \<subseteq> ?all"
  proof (cases "op_key x = k")
    case True
    with Cons.prems(3) have "x = Get k" by (cases x) auto
    then show ?thesis using spec_get_keeps [OF Cons.prems(2), of cap] by simp
  next
    case False
    then have "insert (op_key x) (set (keys_before k al)) \<subseteq> ?all" by auto
    from spec_step_keeps [OF Cons.prems(1,2) False small [OF this]] False
    show ?thesis by auto
  qed
  moreover have "cap = -1 \<or> int (card (set (keys_before k ?al) \<union> (op_key ` set ops - {k}))) < cap"
    using step by (intro small) auto
  ultimately have "map_of (snd (foldl spec_step (cap, ?al) ops)) k = Some v"
    using Cons.prems(1,3) by (intro Cons.IH distinct_spec) auto
  with cap show ?case by simp
qed

text \<open>
  An entry that was pushed is still found, with the value it was pushed with, as long as fewer
  than \<open>capacity\<close> different other keys have been pushed or looked up since (whatever their
  number of uses), and always when the capacity is -1.
\<close>

theorem lru_retains_recent:
  assumes "lru_ok c" and "lru_push k v c = Some c'" and "\<forall>w. Push k w \<notin> set ops"
    and "lru_capacity c = -1 \<or> int (card (op_key ` set ops - {k})) < lru_capacity c"
  shows "fst (lru_get k (foldl lru_step c' ops)) = (True, v)"
proof -
  have c': "lru_ok c'" "lru_capacity c' = lru_capacity c"
      "lru_alist c' = spec_push (lru_capacity c) k v (lru_alist c)"
    using lru_push_refines [OF assms(1), of k v] assms(2) by auto
  have b: "lru_capacity c = -1 \<or> 0 < nat (lru_capacity c)"
    using assms(1) by (auto simp: lru_ok_def lru_bounded_def)
  then have "map_of (lru_alist c') k = Some v \<and> keys_before k (lru_alist c') = []"
    using c'(3) by (cases "nat (lru_capacity c)") (auto simp: spec_push_def Let_def keys_before_Cons)
  moreover have "distinct (map fst (lru_alist c'))"
    using c'(1) by (simp add: lru_ok_def lru_wf_def)
  ultimately have "map_of (snd (foldl spec_step (lru_view c') ops)) k = Some v"
    using assms(3,4) c'(2) by (simp add: lru_view_def spec_run_keeps)
  then have "map_of (lru_alist (foldl lru_step c' ops)) k = Some v"
    using lru.run_abs [OF c'(1), of ops] by (metis lru_view_def snd_conv)
  then show ?thesis
    using lru_get_refines [OF lru.run_inv [OF c'(1), of ops], of k] by simp
qed

theorem lru_retains_recent_witness:
  "fst (lru_get 7 (foldl lru_step (the (lru_push (7::nat) (70::int) (lru_new 2)))
     [Push 8 80, Get 8, Push 8 81])) = (True, 70)"
proof -
  have ok: "lru_ok (lru_new 2 :: (nat, int) lru)" by (rule lru_new_ok) simp
  obtain c' where c': "lru_push 7 70 (lru_new 2 :: (nat, int) lru) = Some c'"
    using lru_push_refines [OF ok, of 7 70] by auto
  show ?thesis
    using lru_retains_recent [OF ok c', of "[Push 8 80, Get 8, Push 8 81]"]
    by (simp add: c') (simp add: lru_new_def)
qed

section \<open>The interface of a cache\<close>

text \<open>
  What a client relies on: a cache never invents an entry. A property of entries that holds
  for everything that is pushed holds for everything that is found.
\<close>

locale kv_cache =
  fixes push :: "'k \<Rightarrow> 'v \<Rightarrow> 'c \<Rightarrow> 'c option"
    and get :: "'k \<Rightarrow> 'c \<Rightarrow> (bool \<times> 'v) \<times> 'c"
    and entries :: "'c \<Rightarrow> ('k \<times> 'v) set"
    and ok :: "'c \<Rightarrow> bool"
  assumes push_ok: "ok c \<Longrightarrow> \<exists>c'. push k v c = Some c' \<and> ok c' \<and> entries c' \<subseteq> insert (k, v) (entries c)"
    and get_ok: "ok c \<Longrightarrow> ok (snd (get k c)) \<and> entries (snd (get k c)) \<subseteq> entries c"
    and get_hit: "ok c \<Longrightarrow> fst (fst (get k c)) \<Longrightarrow> (k, snd (fst (get k c))) \<in> entries c"
begin

definition all_entries :: "('k \<Rightarrow> 'v \<Rightarrow> bool) \<Rightarrow> 'c \<Rightarrow> bool" where
  "all_entries P c \<longleftrightarrow> ok c \<and> (\<forall>(k, v) \<in> entries c. P k v)"

lemma all_entries_push:
  "all_entries P c \<Longrightarrow> P k v \<Longrightarrow> \<exists>c'. push k v c = Some c' \<and> all_entries P c'"
  using push_ok [of c k v] unfolding all_entries_def by (auto; blast)

lemma all_entries_get: "all_entries P c \<Longrightarrow> all_entries P (snd (get k c))"
  using get_ok [of c k] unfolding all_entries_def by blast

lemma all_entries_hit: "all_entries P c \<Longrightarrow> fst (fst (get k c)) \<Longrightarrow> P k (snd (fst (get k c)))"
  using get_hit [of c k] unfolding all_entries_def by blast

end

lemma set_spec_push: "set (spec_push cap k v al) \<subseteq> insert (k, v) (set al)"
  by (auto simp: spec_push_def Let_def split: if_splits dest: in_set_takeD)

lemma set_spec_get: "set (spec_get k al) \<subseteq> set al"
  by (auto simp: spec_get_def split: option.splits dest: map_of_SomeD)

interpretation lru_cache: kv_cache lru_push lru_get "\<lambda>c. set (lru_alist c)" lru_ok
proof unfold_locales
  fix c :: "('k, 'v::zero) lru" and k v
  assume ok: "lru_ok c"
  show "\<exists>c'. lru_push k v c = Some c' \<and> lru_ok c' \<and>
      set (lru_alist c') \<subseteq> insert (k, v) (set (lru_alist c))"
    using lru_push_refines [OF ok, of k v] set_spec_push by force
  show "lru_ok (snd (lru_get k c)) \<and> set (lru_alist (snd (lru_get k c))) \<subseteq> set (lru_alist c)"
    using lru_get_refines [OF ok, of k] set_spec_get by force
  show "(k, snd (fst (lru_get k c))) \<in> set (lru_alist c)" if "fst (fst (lru_get k c))"
    using lru_get_refines [OF ok, of k] that by (auto split: option.splits dest: map_of_SomeD)
qed

lemma lru_clear_new: "lru_alist (lru_clear c) = []"
  by (simp add: lru_clear_def lru_alist_def)

end
