(* ===== verification/Jwt.thy ===== *)
theory Jwt
  imports Gw_Text Lru_Cache
begin

text \<open>
  \<open>src/util/jwt_utils.cpp\<close> (signing and verifying HS256 tokens) and
  \<open>src/util/jwt_cache.cpp\<close> (the cache of verified tokens). OpenSSL is not part of the
  program: its base64 filter and HMAC are the fields of \<open>crypto\<close>. The system clock is an
  argument. \<open>err\<close> and the \<open>bool\<close> result of \<open>verify_hs256\<close> are one value, \<open>Inl err\<close> or
  \<open>Inr ()\<close>.
\<close>

section \<open>Text encodings\<close>

record crypto =
  bio_b64_read :: "string \<Rightarrow> nat \<Rightarrow> string option"
  bio_b64_write :: "string \<Rightarrow> string"
  hmac_sha256 :: "string \<Rightarrow> string \<Rightarrow> string"

text \<open>\<open>while (out.size() % 4 != 0) out.push_back('=')\<close>.\<close>

function pad4 :: "string \<Rightarrow> string" where
  "pad4 out = (if length out mod 4 \<noteq> 0 then pad4 (out @ [CHR ''='']) else out)"
  by pat_completeness auto
termination
proof (relation "measure (\<lambda>s. (4 - length s mod 4) mod 4)")
  fix out :: string
  have "\<And>n :: nat. n mod 4 \<noteq> 0 \<Longrightarrow> (4 - Suc n mod 4) mod 4 < (4 - n mod 4) mod 4"
  proof -
    fix n :: nat
    assume "n mod 4 \<noteq> 0"
    moreover have "n mod 4 < 4" by simp
    ultimately consider "n mod 4 = 1" | "n mod 4 = 2" | "n mod 4 = 3" by linarith
    then show "(4 - Suc n mod 4) mod 4 < (4 - n mod 4) mod 4"
      by cases (simp_all add: mod_Suc)
  qed
  then show "length out mod 4 \<noteq> 0 \<Longrightarrow> (out @ [CHR ''=''], out) \<in> measure (\<lambda>s. (4 - length s mod 4) mod 4)"
    by simp
qed simp

declare pad4.simps [simp del]

definition b64url_to_b64 :: "string \<Rightarrow> string" where
  "b64url_to_b64 s =
     pad4 (map (\<lambda>c. if c = CHR ''-'' then CHR ''+'' else if c = CHR ''_'' then CHR ''/'' else c) s)"

definition base64_decode :: "crypto \<Rightarrow> string \<Rightarrow> string" where
  "base64_decode cr s = (case bio_b64_read cr s (length s) of None \<Rightarrow> [] | Some bytes \<Rightarrow> bytes)"

definition base64_encode :: "crypto \<Rightarrow> string \<Rightarrow> string" where
  "base64_encode cr s = bio_b64_write cr s"

text \<open>\<open>while (!out.empty() && out.back() == '=') out.pop_back()\<close> is a \<open>dropWhile\<close> from the end.\<close>

definition b64_to_b64url :: "string \<Rightarrow> string" where
  "b64_to_b64url s =
     rev (dropWhile (\<lambda>c. c = CHR ''='') (rev
       (map (\<lambda>c. if c = CHR ''+'' then CHR ''-'' else if c = CHR ''/'' then CHR ''_'' else c) s)))"

section \<open>The JSON scanners\<close>

definition quoted :: "string \<Rightarrow> string" where
  "quoted w = CHR 0x22 # w @ [CHR 0x22]"

definition extract_string :: "string \<Rightarrow> string \<Rightarrow> string option" where
  "extract_string json key =
     (let k = quoted key in
      case str_find json k 0 of None \<Rightarrow> None
      | Some p \<Rightarrow>
        (case str_find json [CHR '':''] (p + length k) of None \<Rightarrow> None
         | Some c \<Rightarrow>
           (case str_find json [CHR 0x22] (c + 1) of None \<Rightarrow> None
            | Some s \<Rightarrow>
              (case str_find json [CHR 0x22] (s + 1) of None \<Rightarrow> None
               | Some e \<Rightarrow> Some (substr json (s + 1) (Some (e - s - 1)))))))"

definition extract_number :: "string \<Rightarrow> string \<Rightarrow> int option" where
  "extract_number json key =
     (let k = quoted key in
      case str_find json k 0 of None \<Rightarrow> None
      | Some p \<Rightarrow>
        (case str_find json [CHR '':''] (p + length k) of None \<Rightarrow> None
         | Some c \<Rightarrow>
           (let s = c + 1 + length (takeWhile (\<lambda>x. x = CHR '' '' \<or> x = CHR 0x09) (drop (c + 1) json));
                e = s + length (takeWhile is_digit (drop s json))
            in if e = s then None else Some (strtoll10 (substr json s (Some (e - s)))))))"

section \<open>Tokens\<close>

definition alg_marker :: string where
  "alg_marker = quoted ''alg'' @ '':'' @ quoted ''HS256''"

definition verify_hs256 ::
  "crypto \<Rightarrow> string \<Rightarrow> string \<Rightarrow> string \<Rightarrow> string \<Rightarrow> int \<Rightarrow> string + unit" where
  "verify_hs256 cr token secret issuer audience now =
     (case str_find token ''.'' 0 of None \<Rightarrow> Inl ''format''
      | Some p1 \<Rightarrow>
      (case str_find token ''.'' (p1 + 1) of None \<Rightarrow> Inl ''format''
       | Some p2 \<Rightarrow>
       (let h = substr token 0 (Some p1);
            p = substr token (p1 + 1) (Some (p2 - p1 - 1));
            s = substr token (p2 + 1) None;
            header = base64_decode cr (b64url_to_b64 h);
            payload = base64_decode cr (b64url_to_b64 p);
            sig = base64_decode cr (b64url_to_b64 s);
            mac = hmac_sha256 cr secret (h @ ''.'' @ p);
            expired = (case extract_number payload ''exp'' of None \<Rightarrow> False | Some e \<Rightarrow> e < now)
        in if header = [] \<or> payload = [] \<or> sig = [] then Inl ''b64''
           else if str_find header alg_marker 0 = None then Inl ''alg''
           else if length sig \<noteq> length mac \<or> take (length mac) sig \<noteq> mac then Inl ''sig''
           else if expired then Inl ''exp''
           else if issuer \<noteq> [] \<and> extract_string payload ''iss'' \<noteq> Some issuer then Inl ''iss''
           else if audience \<noteq> [] \<and> extract_string payload ''aud'' \<noteq> Some audience then Inl ''aud''
           else Inr ())))"

definition get_exp :: "crypto \<Rightarrow> string \<Rightarrow> int option" where
  "get_exp cr token =
     (case str_find token ''.'' 0 of None \<Rightarrow> None
      | Some p1 \<Rightarrow>
      (case str_find token ''.'' (p1 + 1) of None \<Rightarrow> None
       | Some p2 \<Rightarrow>
       (let payload = base64_decode cr (b64url_to_b64 (substr token (p1 + 1) (Some (p2 - p1 - 1))))
        in if payload = [] then None else extract_number payload ''exp'')))"

definition jwt_header :: string where
  "jwt_header = ''{'' @ quoted ''alg'' @ '':'' @ quoted ''HS256'' @ '','' @ quoted ''typ'' @ '':'' @ quoted ''JWT'' @ ''}''"

definition jwt_payload :: "string \<Rightarrow> string \<Rightarrow> int \<Rightarrow> string" where
  "jwt_payload issuer audience exp =
     ''{'' @ quoted ''iss'' @ '':'' @ quoted issuer @ '','' @ quoted ''aud'' @ '':'' @ quoted audience @
     '','' @ quoted ''exp'' @ '':'' @ show_int exp @ ''}''"

definition sign_hs256 :: "crypto \<Rightarrow> string \<Rightarrow> string \<Rightarrow> string \<Rightarrow> int \<Rightarrow> string" where
  "sign_hs256 cr secret issuer audience exp =
     (let h_b64 = b64_to_b64url (base64_encode cr jwt_header);
          p_b64 = b64_to_b64url (base64_encode cr (jwt_payload issuer audience exp));
          signing_input = h_b64 @ ''.'' @ p_b64;
          sig = hmac_sha256 cr secret signing_input
      in signing_input @ ''.'' @ b64_to_b64url (base64_encode cr sig))"

section \<open>The cache of verified tokens\<close>

type_synonym jwt_cache = "(string, int) lru"

definition jwt_cache_init :: jwt_cache where
  "jwt_cache_init = lru_new 10000"

definition is_valid_cached :: "string \<Rightarrow> int \<Rightarrow> jwt_cache \<Rightarrow> bool \<times> jwt_cache" where
  "is_valid_cached token now_sec c =
     (case lru_get token c of (p, c') \<Rightarrow> (if \<not> fst p then (False, c') else (snd p > now_sec, c')))"

definition put_valid :: "string \<Rightarrow> int \<Rightarrow> jwt_cache \<Rightarrow> jwt_cache option" where
  "put_valid token exp_sec c = lru_push token exp_sec c"

text \<open>Both assign a new \<open>LRUCache\<close>; \<open>clear\<close> does so with the capacity 10000.\<close>

definition jwt_cache_clear :: "jwt_cache \<Rightarrow> jwt_cache" where
  "jwt_cache_clear c = lru_new 10000"

definition jwt_set_capacity :: "int \<Rightarrow> jwt_cache \<Rightarrow> jwt_cache" where
  "jwt_set_capacity cap c = lru_new cap"

section \<open>Which tokens are accepted\<close>

definition token_parts :: "string \<Rightarrow> string \<Rightarrow> string \<Rightarrow> string" where
  "token_parts h p s = h @ ''.'' @ p @ ''.'' @ s"

lemma token_dots:
  assumes "CHR ''.'' \<notin> set h" and "CHR ''.'' \<notin> set p"
  shows "str_find (token_parts h p s) ''.'' 0 = Some (length h)"
    and "str_find (token_parts h p s) ''.'' (length h + 1) = Some (length h + 1 + length p)"
    and "substr (token_parts h p s) 0 (Some (length h)) = h"
    and "substr (token_parts h p s) (length h + 1) (Some (length p)) = p"
    and "substr (token_parts h p s) (length h + 1 + length p + 1) None = s"
proof -
  show "str_find (token_parts h p s) ''.'' 0 = Some (length h)"
    using str_find_char_append [OF assms(1), of 0 "[]" "p @ ''.'' @ s"]
    by (simp add: token_parts_def)
  show "str_find (token_parts h p s) ''.'' (length h + 1) = Some (length h + 1 + length p)"
    using str_find_char_append [OF assms(2), of "length h + 1" "h @ ''.''" s]
    by (simp add: token_parts_def)
qed (simp_all add: token_parts_def substr_def)

lemma token_cases:
  assumes "str_find token ''.'' 0 = Some p1" and "str_find token ''.'' (p1 + 1) = Some p2"
  obtains h p s where "token = token_parts h p s" and "CHR ''.'' \<notin> set h" and "CHR ''.'' \<notin> set p"
proof -
  from str_find_char_decomp [OF assms(1)]
  obtain h b where h: "token = h @ CHR ''.'' # b" "CHR ''.'' \<notin> set h" "p1 = length h" by auto
  obtain p s where p: "token = take (p1 + 1) token @ p @ CHR ''.'' # s" "CHR ''.'' \<notin> set p"
    and "p2 = p1 + 1 + length p" "length (take (p1 + 1) token) = p1 + 1"
    by (rule str_find_char_decomp [OF assms(2)])
  have "take (p1 + 1) token = h @ ''.''" using h by simp
  with p(1) have "token = token_parts h p s" by (simp add: token_parts_def)
  with h(2) p(2) show thesis using that by blast
qed

lemma token_format: "str_find token ''.'' 0 = None \<or>
    (\<exists>p1. str_find token ''.'' 0 = Some p1 \<and> str_find token ''.'' (p1 + 1) = None) \<Longrightarrow>
  verify_hs256 cr token sec iss aud now = Inl ''format'' \<and> get_exp cr token = None"
  by (auto simp: verify_hs256_def get_exp_def)

definition parts_ok :: "crypto \<Rightarrow> string \<Rightarrow> string \<Rightarrow> string \<Rightarrow> string \<Rightarrow> string \<Rightarrow> string \<Rightarrow> bool" where
  "parts_ok cr h p s secret issuer audience \<longleftrightarrow>
     (let header = base64_decode cr (b64url_to_b64 h);
          payload = base64_decode cr (b64url_to_b64 p);
          sig = base64_decode cr (b64url_to_b64 s)
      in header \<noteq> [] \<and> payload \<noteq> [] \<and> sig \<noteq> [] \<and> str_find header alg_marker 0 \<noteq> None \<and>
         sig = hmac_sha256 cr secret (h @ ''.'' @ p) \<and>
         (issuer = [] \<or> extract_string payload ''iss'' = Some issuer) \<and>
         (audience = [] \<or> extract_string payload ''aud'' = Some audience))"

lemma verify_parts:
  assumes "CHR ''.'' \<notin> set h" and "CHR ''.'' \<notin> set p"
  shows "verify_hs256 cr (token_parts h p s) secret issuer audience now = Inr () \<longleftrightarrow>
     parts_ok cr h p s secret issuer audience \<and>
     (case extract_number (base64_decode cr (b64url_to_b64 p)) ''exp'' of
        None \<Rightarrow> True | Some e \<Rightarrow> now \<le> e)"
  using token_dots [OF assms, of s]
  by (auto simp: verify_hs256_def parts_ok_def Let_def split: option.splits)

lemma get_exp_parts:
  assumes "CHR ''.'' \<notin> set h" and "CHR ''.'' \<notin> set p"
  shows "get_exp cr (token_parts h p s) =
    (if base64_decode cr (b64url_to_b64 p) = [] then None
     else extract_number (base64_decode cr (b64url_to_b64 p)) ''exp'')"
  using token_dots [OF assms, of s] by (simp add: get_exp_def Let_def)

lemma verify_hs256_iff:
  "verify_hs256 cr token secret issuer audience now = Inr () \<longleftrightarrow>
     (\<exists>h p s. token = h @ ''.'' @ p @ ''.'' @ s \<and> CHR ''.'' \<notin> set h \<and> CHR ''.'' \<notin> set p \<and>
        parts_ok cr h p s secret issuer audience \<and>
        (case get_exp cr token of None \<Rightarrow> True | Some e \<Rightarrow> now \<le> e))" (is "?l \<longleftrightarrow> ?r")
proof
  assume l: ?l
  then obtain p1 p2 where "str_find token ''.'' 0 = Some p1" "str_find token ''.'' (p1 + 1) = Some p2"
    using token_format [of token cr secret issuer audience now] by fastforce
  then obtain h p s where t: "token = token_parts h p s" "CHR ''.'' \<notin> set h" "CHR ''.'' \<notin> set p"
    by (rule token_cases)
  have "parts_ok cr h p s secret issuer audience \<and>
      (case get_exp cr token of None \<Rightarrow> True | Some e \<Rightarrow> now \<le> e)"
    using l t by (auto simp: verify_parts get_exp_parts)
  with t show ?r by (auto simp: token_parts_def)
next
  assume ?r
  then obtain h p s where t: "token = token_parts h p s" "CHR ''.'' \<notin> set h" "CHR ''.'' \<notin> set p"
      and ok: "parts_ok cr h p s secret issuer audience"
      and e: "case get_exp cr token of None \<Rightarrow> True | Some e \<Rightarrow> now \<le> e"
    by (auto simp: token_parts_def)
  from ok have "base64_decode cr (b64url_to_b64 p) \<noteq> []" by (simp add: parts_ok_def Let_def)
  with ok e t show ?l by (simp add: verify_parts get_exp_parts)
qed

text \<open>
  C5: A token is accepted exactly when it consists of three parts without dots in the first two,
  the decoded third part is the HMAC of the first two under the secret (whole, same length), the
  decoded header names HS256, none of the decoded parts is empty, the configured issuer and
  audience are the payload's, and the payload's expiry, where it has a numeric one, has not passed.
\<close>

theorem verify_hs256_accepts_iff:
  "verify_hs256 cr token secret issuer audience now = Inr () \<longleftrightarrow>
     (\<exists>h p s. token = h @ ''.'' @ p @ ''.'' @ s \<and> CHR ''.'' \<notin> set h \<and> CHR ''.'' \<notin> set p \<and>
        base64_decode cr (b64url_to_b64 h) \<noteq> [] \<and>
        str_find (base64_decode cr (b64url_to_b64 h)) alg_marker 0 \<noteq> None \<and>
        base64_decode cr (b64url_to_b64 s) = hmac_sha256 cr secret (h @ ''.'' @ p) \<and>
        hmac_sha256 cr secret (h @ ''.'' @ p) \<noteq> [] \<and>
        (let payload = base64_decode cr (b64url_to_b64 p)
         in payload \<noteq> [] \<and>
            (issuer = [] \<or> extract_string payload ''iss'' = Some issuer) \<and>
            (audience = [] \<or> extract_string payload ''aud'' = Some audience) \<and>
            (case extract_number payload ''exp'' of None \<Rightarrow> True | Some e \<Rightarrow> now \<le> e)))"
  unfolding verify_hs256_iff parts_ok_def Let_def
  by (intro ex_cong1 iffI; clarsimp simp: get_exp_parts [unfolded token_parts_def, simplified])

text \<open>The answer depends on the clock only through the expiry.\<close>

lemma verify_later:
  assumes "verify_hs256 cr token secret issuer audience now = Inr ()"
    and "get_exp cr token = Some e" and "now' \<le> e"
  shows "verify_hs256 cr token secret issuer audience now' = Inr ()"
  using assms by (auto simp: verify_hs256_iff)

section \<open>Signing and verifying\<close>

text \<open>What the code relies on of OpenSSL: standard padded base64, and a digest that is not empty.\<close>

definition b64_alphabet :: string where
  "b64_alphabet = ''ABCDEFGHIJKLMNOPQRSTUVWXYZabcdefghijklmnopqrstuvwxyz0123456789+/''"

definition b64_canonical :: "string \<Rightarrow> bool" where
  "b64_canonical e \<longleftrightarrow>
     (let body = takeWhile (\<lambda>c. c \<noteq> CHR ''='') e; pad = dropWhile (\<lambda>c. c \<noteq> CHR ''='') e
      in length e mod 4 = 0 \<and> list_all (\<lambda>c. c \<in> set b64_alphabet) body \<and>
         list_all (\<lambda>c. c = CHR ''='') pad \<and> length pad < 4)"

definition b64_codec :: "crypto \<Rightarrow> bool" where
  "b64_codec cr \<longleftrightarrow>
     (\<forall>x. base64_decode cr (base64_encode cr x) = x \<and> b64_canonical (base64_encode cr x))"

definition hmac_nonempty :: "crypto \<Rightarrow> bool" where
  "hmac_nonempty cr \<longleftrightarrow> (\<forall>key msg. hmac_sha256 cr key msg \<noteq> [])"

lemma pad4_replicate:
  "k < 4 \<Longrightarrow> (length s + k) mod 4 = 0 \<Longrightarrow> pad4 s = s @ replicate k (CHR ''='')"
proof (induction k arbitrary: s)
  case 0
  then show ?case by (subst pad4.simps) simp
next
  case (Suc k)
  have "length s mod 4 \<noteq> 0"
  proof
    assume "length s mod 4 = 0"
    then have "(length s + Suc k) mod 4 = Suc k mod 4" by (metis add_0 mod_add_left_eq)
    with Suc.prems show False by simp
  qed
  moreover have "pad4 (s @ ''='') = (s @ ''='') @ replicate k (CHR ''='')"
    using Suc.prems by (intro Suc.IH) auto
  ultimately show ?case by (subst pad4.simps) simp
qed

lemma alphabet_chars:
  "c \<in> set b64_alphabet \<Longrightarrow> c \<noteq> CHR ''='' \<and> c \<noteq> CHR ''-'' \<and> c \<noteq> CHR ''_'' \<and> c \<noteq> CHR ''.''"
proof -
  have "list_all (\<lambda>c. c \<noteq> CHR ''='' \<and> c \<noteq> CHR ''-'' \<and> c \<noteq> CHR ''_'' \<and> c \<noteq> CHR ''.'') b64_alphabet"
    by code_simp
  then show "c \<in> set b64_alphabet \<Longrightarrow> ?thesis" by (auto simp: list_all_iff)
qed

lemma b64_canonicalE:
  assumes "b64_canonical e"
  obtains body k where "e = body @ replicate k (CHR ''='')" and "\<forall>c \<in> set body. c \<in> set b64_alphabet"
    and "k < 4" and "(length body + k) mod 4 = 0"
proof -
  define body pad where "body = takeWhile (\<lambda>c. c \<noteq> CHR ''='') e"
    and "pad = dropWhile (\<lambda>c. c \<noteq> CHR ''='') e"
  have all: "length e mod 4 = 0 \<and> list_all (\<lambda>c. c \<in> set b64_alphabet) body \<and>
      list_all (\<lambda>c. c = CHR ''='') pad \<and> length pad < 4"
    using assms unfolding b64_canonical_def body_def pad_def Let_def .
  then have b: "\<forall>c \<in> set body. c \<in> set b64_alphabet" and k: "length pad < 4" and m: "length e mod 4 = 0"
    unfolding list_all_iff by blast+
  have "list_all (\<lambda>c. c = CHR ''='') xs \<Longrightarrow> xs = replicate (length xs) (CHR ''='')" for xs
    by (induction xs) auto
  with all obtain n where n: "length pad = n" "pad = replicate n (CHR ''='')" by blast
  have e: "e = body @ replicate n (CHR ''='')"
    unfolding n(2) [symmetric] body_def pad_def by (rule takeWhile_dropWhile_id [symmetric])
  then have "length e = length body + n" by simp
  with m have "(length body + n) mod 4 = 0" by simp
  moreover have "n < 4" using k n(1) by simp
  ultimately show thesis using that [OF e b] by simp
qed

lemma url_of_canonical:
  assumes "\<forall>c \<in> set body. c \<in> set b64_alphabet"
  shows "b64_to_b64url (body @ replicate k (CHR ''='')) =
    map (\<lambda>c. if c = CHR ''+'' then CHR ''-'' else if c = CHR ''/'' then CHR ''_'' else c) body"
    (is "_ = map ?f body")
proof -
  have "\<forall>c \<in> set (rev (map ?f body)). c \<noteq> CHR ''=''"
    using assms alphabet_chars by auto
  then have "dropWhile (\<lambda>c. c = CHR ''='') (rev (map ?f body)) = rev (map ?f body)"
    by (cases "rev (map ?f body)") auto
  then have "dropWhile (\<lambda>c. c = CHR ''='') (replicate k (CHR ''='') @ rev (map ?f body)) = rev (map ?f body)"
    by (induction k) auto
  then show ?thesis by (simp add: b64_to_b64url_def rev_map)
qed

lemma b64url_roundtrip:
  assumes "b64_canonical e"
  shows "b64url_to_b64 (b64_to_b64url e) = e" and "CHR ''.'' \<notin> set (b64_to_b64url e)"
proof -
  from assms obtain body k where e: "e = body @ replicate k (CHR ''='')"
    and b: "\<forall>c \<in> set body. c \<in> set b64_alphabet" and k: "k < 4" "(length body + k) mod 4 = 0"
    by (rule b64_canonicalE)
  let ?undo = "\<lambda>c. if c = CHR ''-'' then CHR ''+'' else if c = CHR ''_'' then CHR ''/'' else c"
  let ?f = "\<lambda>c. if c = CHR ''+'' then CHR ''-'' else if c = CHR ''/'' then CHR ''_'' else c"
  have "?undo (?f c) = c" if "c \<in> set body" for c
    using alphabet_chars [of c] b that by simp
  then have "map ?undo (map ?f body) = body"
    unfolding map_map by (intro map_idI) (simp only: comp_def)
  then have "map ?undo (b64_to_b64url e) = body"
    unfolding e url_of_canonical [OF b] .
  then show "b64url_to_b64 (b64_to_b64url e) = e"
    using pad4_replicate [OF k] by (simp add: b64url_to_b64_def e)
  show "CHR ''.'' \<notin> set (b64_to_b64url e)"
    using b unfolding e url_of_canonical [OF b] by (auto dest: alphabet_chars split: if_splits)
qed

subsection \<open>Scanning the signed payload\<close>

lemma find_quoted:
  assumes "CHR 0x22 \<notin> set a" and "CHR 0x22 \<notin> set t" and "CHR 0x22 \<notin> set w"
  shows "find0 (quoted w) (a @ CHR 0x22 # t @ CHR 0x22 # rest) =
    (if t = w then Some (length a)
     else map_option ((+) (length a + 1 + length t)) (find0 (quoted w) (CHR 0x22 # rest)))"
proof -
  have pre: "prefix (w @ [CHR 0x22]) (t @ CHR 0x22 # rest) \<longleftrightarrow> t = w"
    using assms(2,3)
  proof (induction w arbitrary: t)
    case Nil
    then show ?case by (cases t) auto
  next
    case (Cons x w)
    then show ?case by (cases t) auto
  qed
  have "find0 (quoted w) (CHR 0x22 # t @ CHR 0x22 # rest) =
    (if t = w then Some 0
     else map_option ((+) (1 + length t)) (find0 (quoted w) (CHR 0x22 # rest)))"
    using find0_skip [OF assms(2), of "w @ [CHR 0x22]" "CHR 0x22 # rest"] pre
    by (simp add: quoted_def option.map_comp comp_def)
  then show ?thesis
    using find0_skip [OF assms(1), of "w @ [CHR 0x22]" "CHR 0x22 # t @ CHR 0x22 # rest"]
    by (auto simp: quoted_def option.map_comp comp_def add.assoc)
qed

lemma extract_at:
  assumes "find0 (quoted key) json = Some (length pre)"
    and "json = pre @ quoted key @ a @ '':'' @ more'" and "CHR '':'' \<notin> set a"
  shows "str_find json (quoted key) 0 = Some (length pre)"
    and "str_find json '':'' (length pre + length (quoted key)) = Some (length (pre @ quoted key @ a))"
    and "drop (length (pre @ quoted key @ a) + 1) json = more'"
proof -
  show "str_find json (quoted key) 0 = Some (length pre)" using assms(1) by (simp add: str_find_def)
  show "str_find json '':'' (length pre + length (quoted key)) = Some (length (pre @ quoted key @ a))"
    using str_find_char_append [OF assms(3), of _ "pre @ quoted key" more'] assms(2) by simp
  show "drop (length (pre @ quoted key @ a) + 1) json = more'" by (simp add: assms(2))
qed

lemma extract_string_at:
  assumes "find0 (quoted key) json = Some (length pre)"
    and "json = pre @ quoted key @ a @ '':'' @ quoted v @ rest"
    and "CHR '':'' \<notin> set a" and "CHR 0x22 \<notin> set v"
  shows "extract_string json key = Some v"
proof -
  let ?c = "length (pre @ quoted key @ a)"
  have json: "json = pre @ quoted key @ a @ '':'' @ (quoted v @ rest)" by (simp add: assms(2))
  have s: "str_find json [CHR 0x22] (?c + 1) = Some (?c + 1)"
    using str_find_char_append [of "CHR 0x22" "[]" "?c + 1" "pre @ quoted key @ a @ '':''"]
    by (simp add: assms(2) quoted_def [of v])
  have e: "str_find json [CHR 0x22] (?c + 1 + 1) = Some (?c + 2 + length v)"
    using str_find_char_append [OF assms(4), of "?c + 2" "pre @ quoted key @ a @ '':'' @ [CHR 0x22]" rest]
    by (simp add: assms(2) quoted_def [of v])
  have "substr json (?c + 1 + 1) (Some (length v)) = v"
    by (simp add: assms(2) quoted_def [of v] substr_def)
  then show ?thesis
    using s e extract_at [OF assms(1) json assms(3)] by (simp add: extract_string_def Let_def)
qed

lemma extract_number_at:
  assumes "find0 (quoted key) json = Some (length pre)"
    and "json = pre @ quoted key @ a @ '':'' @ show_nat n @ rest"
    and "CHR '':'' \<notin> set a" and "rest \<noteq> [] \<Longrightarrow> \<not> is_digit (hd rest)" and "int n < 2 ^ 63"
  shows "extract_number json key = Some (int n)"
proof -
  let ?c = "length (pre @ quoted key @ a)"
  let ?blank = "\<lambda>x. x = CHR '' '' \<or> x = CHR 0x09"
  note at = extract_at [OF assms(1-3)]
  have "\<not> ?blank (hd (show_nat n))"
    using show_nat_digits [of n] by (cases "show_nat n") (auto simp: is_digit_def)
  then have blanks: "takeWhile ?blank (show_nat n @ rest) = []"
    by (cases "show_nat n") auto
  have "takeWhile is_digit rest = []" using assms(4) by (cases rest) auto
  then have digits: "takeWhile is_digit (show_nat n @ rest) = show_nat n"
    using show_nat_digits [of n] by (simp add: takeWhile_append)
  have "substr json (?c + 1) (Some (length (show_nat n))) = show_nat n"
    using at(3) by (simp add: substr_def)
  then show ?thesis
    using at blanks digits strtoll10_show_nat [OF assms(5)]
    by (simp add: extract_number_def Let_def)
qed

lemma extract_number_none_at:
  assumes "find0 (quoted key) json = Some (length pre)"
    and "json = pre @ quoted key @ a @ '':'' @ x # rest" and "CHR '':'' \<notin> set a"
    and "\<not> is_digit x" and "x \<noteq> CHR '' ''" and "x \<noteq> CHR 0x09"
  shows "extract_number json key = None"
proof -
  have "drop (length (pre @ quoted key @ a) + 1) json = x # rest"
    using extract_at(3) [OF assms(1-3)] .
  then show ?thesis
    using extract_at(1,2) [OF assms(1-3)] assms(4-6) by (simp add: extract_number_def Let_def)
qed

text \<open>A JSON text as its pieces between quotes, and the first piece equal to a key.\<close>

fun qjoin :: "string list \<Rightarrow> string \<Rightarrow> string" where
  "qjoin [] rest = CHR 0x22 # rest"
| "qjoin (t # ts) rest = CHR 0x22 # t @ qjoin ts rest"

fun qfind :: "string \<Rightarrow> string list \<Rightarrow> nat option" where
  "qfind w [] = None"
| "qfind w (t # ts) = (if t = w then Some 0 else map_option ((+) (1 + length t)) (qfind w ts))"

lemma qjoin_head: "\<exists>more'. qjoin ts rest = CHR 0x22 # more'"
  by (cases ts) auto

lemma find_qjoin:
  "qfind w ts = Some i \<Longrightarrow> list_all (\<lambda>t. CHR 0x22 \<notin> set t) ts \<Longrightarrow> CHR 0x22 \<notin> set w \<Longrightarrow>
     find0 (quoted w) (qjoin ts rest) = Some i"
proof (induction ts arbitrary: i)
  case Nil
  then show ?case by simp
next
  case (Cons t ts)
  obtain more' where m: "qjoin ts rest = CHR 0x22 # more'" using qjoin_head by blast
  have "CHR 0x22 \<notin> set t" using Cons.prems(2) by simp
  from find_quoted [of "[]" t w more', OF _ this Cons.prems(3)]
  have "find0 (quoted w) (qjoin (t # ts) rest) =
      (if t = w then Some 0 else map_option ((+) (1 + length t)) (find0 (quoted w) (qjoin ts rest)))"
    using m by simp
  with Cons show ?case by (auto split: if_splits)
qed

lemma find_quoted_text:
  assumes "CHR 0x22 \<notin> set a" and "qfind w ts = Some i" and "list_all (\<lambda>t. CHR 0x22 \<notin> set t) ts"
    and "CHR 0x22 \<notin> set w"
  shows "find0 (quoted w) (a @ qjoin ts rest) = Some (length a + i)"
  using find_qjoin [OF assms(2-4), of rest] find0_skip [OF assms(1), of "w @ [CHR 0x22]"]
  by (simp add: quoted_def)

lemma payload_pieces:
  "jwt_payload iss aud exp = ''{'' @ qjoin [''iss'', '':'', iss, '','', ''aud'', '':'', aud, '','', ''exp'']
     ('':'' @ show_int exp @ ''}'')"
  by (simp add: jwt_payload_def quoted_def)

text \<open>Where the scanner finds each key of a signed payload.\<close>

lemma payload_keys:
  assumes "CHR 0x22 \<notin> set iss" and "CHR 0x22 \<notin> set aud"
  shows "find0 (quoted ''iss'') (jwt_payload iss aud exp) = Some 1"
    and "find0 (quoted ''aud'') (jwt_payload iss aud exp) =
      Some (if iss = ''aud'' then 7 else 10 + length iss)"
    and "find0 (quoted ''exp'') (jwt_payload iss aud exp) =
      Some (if iss = ''exp'' then 7 else if aud = ''exp'' then 16 + length iss
            else 19 + length iss + length aud)"
proof -
  let ?ps = "[''iss'', '':'', iss, '','', ''aud'', '':'', aud, '','', ''exp'']"
  have clean: "list_all (\<lambda>t. CHR 0x22 \<notin> set t) ?ps" using assms by simp
  have i: "qfind ''iss'' ?ps = Some 0"
    and a: "qfind ''aud'' ?ps = Some (if iss = ''aud'' then 6 else 9 + length iss)"
    and e: "qfind ''exp'' ?ps = Some (if iss = ''exp'' then 6
        else if aud = ''exp'' then 15 + length iss else 18 + length iss + length aud)"
    by (auto simp: eval_nat_numeral)
  show "find0 (quoted ''iss'') (jwt_payload iss aud exp) = Some 1"
    unfolding payload_pieces using find_quoted_text [OF _ i clean, of "''{''"] by simp
  show "find0 (quoted ''aud'') (jwt_payload iss aud exp) =
      Some (if iss = ''aud'' then 7 else 10 + length iss)"
    unfolding payload_pieces using find_quoted_text [OF _ a clean, of "''{''"] by simp
  show "find0 (quoted ''exp'') (jwt_payload iss aud exp) =
      Some (if iss = ''exp'' then 7 else if aud = ''exp'' then 16 + length iss
            else 19 + length iss + length aud)"
    unfolding payload_pieces using find_quoted_text [OF _ e clean, of "''{''"] by simp
qed

lemma payload_iss:
  assumes "CHR 0x22 \<notin> set iss" and "CHR 0x22 \<notin> set aud"
  shows "extract_string (jwt_payload iss aud exp) ''iss'' = Some iss"
proof (rule extract_string_at)
  show "find0 (quoted ''iss'') (jwt_payload iss aud exp) = Some (length ''{'')"
    unfolding payload_keys(1) [OF assms] by simp
  show "jwt_payload iss aud exp = ''{'' @ quoted ''iss'' @ [] @ '':'' @ quoted iss @
      '','' @ quoted ''aud'' @ '':'' @ quoted aud @ '','' @ quoted ''exp'' @ '':'' @ show_int exp @ ''}''"
    by (simp add: jwt_payload_def)
qed (simp_all add: assms)

lemma payload_aud:
  assumes "CHR 0x22 \<notin> set iss" and "CHR 0x22 \<notin> set aud"
  shows "extract_string (jwt_payload iss aud exp) ''aud'' = Some aud"
proof -
  let ?p0 = "''{'' @ quoted ''iss'' @ '':''"
  define pre a where "pre = (if iss = ''aud'' then ?p0 else ?p0 @ quoted iss @ '','')"
    and "a = (if iss = ''aud'' then '','' @ quoted ''aud'' else [])"
  have at: "find0 (quoted ''aud'') (jwt_payload iss aud exp) = Some (length pre)"
    unfolding payload_keys(2) [OF assms] by (simp add: pre_def quoted_def)
  have pay: "jwt_payload iss aud exp =
      pre @ quoted ''aud'' @ a @ '':'' @ quoted aud @ '','' @ quoted ''exp'' @ '':'' @ show_int exp @ ''}''"
    by (simp add: pre_def a_def jwt_payload_def)
  have "CHR '':'' \<notin> set a" by (simp add: a_def quoted_def)
  from extract_string_at [OF at pay this assms(2)] show ?thesis .
qed

lemma payload_exp:
  assumes "CHR 0x22 \<notin> set iss" and "CHR 0x22 \<notin> set aud" and "exp < 2 ^ 63"
  shows "extract_number (jwt_payload iss aud exp) ''exp'' =
    (if iss = ''exp'' \<or> exp < 0 then None else Some exp)"
proof -
  let ?p0 = "''{'' @ quoted ''iss'' @ '':''"
  let ?num = "'':'' @ show_int exp @ ''}''"
  define pre a where "pre = (if iss = ''exp'' then ?p0
      else if aud = ''exp'' then ?p0 @ quoted iss @ '','' @ quoted ''aud'' @ '':''
      else ?p0 @ quoted iss @ '','' @ quoted ''aud'' @ '':'' @ quoted aud @ '','')"
    and "a = (if iss = ''exp'' then '','' @ quoted ''aud''
      else if aud = ''exp'' then '','' @ quoted ''exp'' else [])"
  have at: "find0 (quoted ''exp'') (jwt_payload iss aud exp) = Some (length pre)"
    unfolding payload_keys(3) [OF assms(1,2)] by (simp add: pre_def quoted_def)
  have a: "CHR '':'' \<notin> set a" by (simp add: a_def quoted_def)
  consider (blind) "iss = ''exp''" | (neg) "iss \<noteq> ''exp''" "exp < 0" | (num) "iss \<noteq> ''exp''" "0 \<le> exp"
    by linarith
  then show ?thesis
  proof cases
    case blind
    have "jwt_payload iss aud exp = pre @ quoted ''exp'' @ a @ '':'' @ CHR 0x22 # aud @ [CHR 0x22] @
        '','' @ quoted ''exp'' @ ?num"
      by (simp add: pre_def a_def jwt_payload_def blind quoted_def)
    from extract_number_none_at [OF at this a] blind show ?thesis by (simp add: is_digit_def)
  next
    case neg
    have "jwt_payload iss aud exp =
        pre @ quoted ''exp'' @ a @ '':'' @ CHR ''-'' # show_nat (nat (- exp)) @ ''}''"
      using neg by (simp add: pre_def a_def jwt_payload_def show_int_def)
    from extract_number_none_at [OF at this a] neg show ?thesis by (simp add: is_digit_def)
  next
    case num
    have "jwt_payload iss aud exp = pre @ quoted ''exp'' @ a @ '':'' @ show_nat (nat exp) @ ''}''"
      using num by (simp add: pre_def a_def jwt_payload_def show_int_def)
    from extract_number_at [OF at this a] num assms(3) show ?thesis by (simp add: is_digit_def)
  qed
qed

lemma header_alg: "str_find jwt_header alg_marker 0 \<noteq> None"
  by code_simp

text \<open>The tokens of \<open>sign_hs256\<close>: when they verify, under whatever is expected, and their letters.\<close>

definition signed_text :: "crypto \<Rightarrow> string \<Rightarrow> string \<Rightarrow> int \<Rightarrow> string" where
  "signed_text cr iss aud exp =
     b64_to_b64url (base64_encode cr jwt_header) @ ''.'' @ b64_to_b64url (base64_encode cr (jwt_payload iss aud exp))"

lemma signed_verifies:
  assumes "b64_codec cr" and "hmac_nonempty cr"
    and "CHR 0x22 \<notin> set iss" and "CHR 0x22 \<notin> set aud" and "exp < 2 ^ 63"
  shows "verify_hs256 cr (sign_hs256 cr secret iss aud exp) secret' iss' aud' now = Inr () \<longleftrightarrow>
    hmac_sha256 cr secret (signed_text cr iss aud exp) = hmac_sha256 cr secret' (signed_text cr iss aud exp) \<and>
    (iss' = [] \<or> iss' = iss) \<and> (aud' = [] \<or> aud' = aud) \<and> (iss = ''exp'' \<or> exp < 0 \<or> now \<le> exp)"
proof -
  have rt: "base64_decode cr (b64url_to_b64 (b64_to_b64url (base64_encode cr x))) = x"
    and dot: "CHR ''.'' \<notin> set (b64_to_b64url (base64_encode cr x))" for x
    using assms(1) b64url_roundtrip [of "base64_encode cr x"] by (auto simp: b64_codec_def)
  have hm: "hmac_sha256 cr k m \<noteq> []" for k m using assms(2) by (simp add: hmac_nonempty_def)
  define h p where "h = b64_to_b64url (base64_encode cr jwt_header)"
    and "p = b64_to_b64url (base64_encode cr (jwt_payload iss aud exp))"
  define s where "s = b64_to_b64url (base64_encode cr (hmac_sha256 cr secret (h @ ''.'' @ p)))"
  have tok: "sign_hs256 cr secret iss aud exp = token_parts h p s" and text_eq: "signed_text cr iss aud exp = h @ ''.'' @ p"
    by (simp_all add: sign_hs256_def Let_def token_parts_def h_def p_def s_def signed_text_def)
  have "jwt_header \<noteq> []" "jwt_payload iss aud exp \<noteq> []" by (simp_all add: jwt_header_def jwt_payload_def)
  then have "parts_ok cr h p s secret' iss' aud' \<longleftrightarrow>
      hmac_sha256 cr secret (h @ ''.'' @ p) = hmac_sha256 cr secret' (h @ ''.'' @ p) \<and>
      (iss' = [] \<or> iss' = iss) \<and> (aud' = [] \<or> aud' = aud)"
    using header_alg by (auto simp: parts_ok_def Let_def h_def p_def s_def rt hm payload_iss payload_aud assms)
  moreover have "base64_decode cr (b64url_to_b64 p) = jwt_payload iss aud exp" by (simp add: p_def rt)
  ultimately show ?thesis
    using verify_parts [OF dot [of jwt_header] dot [of "jwt_payload iss aud exp"], folded h_def p_def]
      payload_exp [OF assms(3-5)]
    unfolding tok text_eq by auto
qed

lemma b64url_chars:
  assumes "b64_canonical e" and "c \<in> set (b64_to_b64url e)"
  shows "c \<in> set (CHR ''-'' # CHR ''_'' # b64_alphabet)"
proof -
  from assms(1) obtain body k where e: "e = body @ replicate k (CHR ''='')"
    and b: "\<forall>c \<in> set body. c \<in> set b64_alphabet" by (rule b64_canonicalE)
  show ?thesis using assms(2) b unfolding e url_of_canonical [OF b] by (auto split: if_splits)
qed

lemma sign_chars:
  assumes "b64_codec cr" and "c \<in> set (sign_hs256 cr secret iss aud exp)"
  shows "c \<in> set (''.-_'' @ b64_alphabet)"
proof -
  have "x \<in> set (b64_to_b64url (base64_encode cr t)) \<Longrightarrow> x \<in> set (CHR ''-'' # CHR ''_'' # b64_alphabet)" for x t
    by (rule b64url_chars) (use assms(1) in \<open>simp_all add: b64_codec_def\<close>)
  then show ?thesis using assms(2) by (auto simp: sign_hs256_def Let_def)
qed

text \<open>
  C6: A signed token verifies under the same secret, issuer and audience exactly when its expiry has
  not passed or is never enforced: an expiry that is negative is not, nor is any when the issuer is the
  word \<open>exp\<close>. Issuer and audience are texts without a double quote (they are written unescaped), and the
  expiry is below \<open>2 ^ 63\<close>, as its type is in the code.
\<close>

theorem sign_verify_roundtrip:
  assumes "b64_codec cr" and "hmac_nonempty cr"
    and "CHR 0x22 \<notin> set iss" and "CHR 0x22 \<notin> set aud" and "exp < 2 ^ 63"
  shows "verify_hs256 cr (sign_hs256 cr secret iss aud exp) secret iss aud now = Inr () \<longleftrightarrow>
    iss = ''exp'' \<or> exp < 0 \<or> now \<le> exp"
  using signed_verifies [OF assms, of secret secret iss aud now] by simp

text \<open>A codec and a digest that satisfy the laws: four letters for a byte, the key before the text.\<close>

definition nibble_char :: "nat \<Rightarrow> char" where
  "nibble_char n = char_of (65 + n)"

definition spell_bytes :: "string \<Rightarrow> string" where
  "spell_bytes s =
     concat (map (\<lambda>c. [nibble_char (of_char c div 16), nibble_char (of_char c mod 16), CHR ''A'', CHR ''A'']) s)"

fun unspell_bytes :: "string \<Rightarrow> string" where
  "unspell_bytes (a # b # c # d # s) =
     char_of (16 * (of_char a - 65) + (of_char b - 65 :: nat)) # unspell_bytes s"
| "unspell_bytes s = []"

definition sample_crypto :: crypto where
  "sample_crypto = \<lparr>bio_b64_read = (\<lambda>s n. Some (unspell_bytes s)), bio_b64_write = spell_bytes,
     hmac_sha256 = (\<lambda>key msg. CHR ''k'' # key @ msg)\<rparr>"

lemma nibble_char: "n < 16 \<Longrightarrow> of_char (nibble_char n) = 65 + n \<and> nibble_char n \<in> set b64_alphabet"
proof -
  have "list_all (\<lambda>n. of_char (nibble_char n) = 65 + n \<and> nibble_char n \<in> set b64_alphabet) [0..<16]"
    by code_simp
  then show "n < 16 \<Longrightarrow> ?thesis" by (simp add: list_all_iff)
qed

lemma byte_nibbles: "of_char c div 16 < (16 :: nat) \<and> of_char c mod 16 < (16 :: nat)"
proof -
  have "of_char c < 16 * (16 :: nat)" by simp
  then show ?thesis by (simp only: less_mult_imp_div_less) simp
qed

lemma unspell_spell: "unspell_bytes (spell_bytes s) = s"
proof (induction s)
  case Nil
  then show ?case by (simp add: spell_bytes_def)
next
  case (Cons c s)
  have "16 * (of_char c div 16) + of_char c mod 16 = (of_char c :: nat)" by simp
  with Cons byte_nibbles [of c] show ?case
    by (simp add: spell_bytes_def nibble_char)
qed

lemma spell_chars: "\<forall>c \<in> set (spell_bytes s). c \<in> set b64_alphabet"
proof -
  have "CHR ''A'' \<in> set b64_alphabet" by code_simp
  then show ?thesis using byte_nibbles nibble_char by (auto simp: spell_bytes_def)
qed

lemma canonical_letters:
  assumes "\<forall>c \<in> set s. c \<in> set b64_alphabet" and "length s mod 4 = 0"
  shows "b64_canonical s"
proof -
  have tw: "takeWhile (\<lambda>c. c \<noteq> CHR ''='') s = s" and dw: "dropWhile (\<lambda>c. c \<noteq> CHR ''='') s = []"
    using assms(1) alphabet_chars by auto
  show ?thesis unfolding b64_canonical_def list_all_iff Let_def tw dw using assms by simp
qed

lemma sample_crypto_laws: "b64_codec sample_crypto \<and> hmac_nonempty sample_crypto"
proof -
  have "length (spell_bytes x) = 4 * length x" for x
    by (induction x) (simp_all add: spell_bytes_def)
  then have "b64_canonical (spell_bytes x)" for x
    by (intro canonical_letters spell_chars) simp
  then show ?thesis
    by (simp add: b64_codec_def hmac_nonempty_def sample_crypto_def base64_decode_def base64_encode_def
        unspell_spell)
qed

theorem sign_verify_roundtrip_witness:
  "verify_hs256 sample_crypto (sign_hs256 sample_crypto ''s'' ''me'' ''you'' 100) ''s'' ''me'' ''you'' 100 = Inr () \<and>
   verify_hs256 sample_crypto (sign_hs256 sample_crypto ''s'' ''me'' ''you'' 100) ''s'' ''me'' ''you'' 101 \<noteq> Inr () \<and>
   verify_hs256 sample_crypto (sign_hs256 sample_crypto ''s'' ''exp'' ''you'' 100) ''s'' ''exp'' ''you'' 101 = Inr ()"
  using sign_verify_roundtrip [of sample_crypto "''me''" "''you''" 100 "''s''"]
    sign_verify_roundtrip [of sample_crypto "''exp''" "''you''" 100 "''s''"] sample_crypto_laws
  by simp

end
