(* ===== verification/Gw_Config.thy ===== *)
theory Gw_Config
  imports Gw_Base Net_Address Jwt
begin

text \<open>
  \<open>src/gateway/gateway_config.h\<close> and \<open>gateway_config.cpp\<close>: the route table, the trie and the
  map that find a path's route, and the reader of the configuration file. A
  \<open>const RouteConfig*\<close> points into \<open>m_routes\<close> and is the index there. The file system and
  \<open>getaddrinfo\<close> are arguments; the cache of verified tokens, which loading resets, is passed
  and returned.
\<close>

section \<open>State\<close>

record route =
  path_prefix :: string
  targets :: "string list"
  resolved_targets :: "address list"
  exact :: bool
  rc_required_token :: string

text \<open>A node's 256 child pointers and its route pointer.\<close>

datatype trie = TrieNode (children: "char \<Rightarrow> trie option") (node_route: "nat option")

record gateway_config =
  m_routes :: "route list"
  m_blacklist :: "string list"
  m_max_qps :: int
  m_config_path :: string
  m_inited :: bool
  m_max_body_size :: int
  m_timeout_connect :: int
  m_timeout_send :: int
  m_timeout_recv :: int
  m_jwt_enabled :: bool
  m_jwt_secret :: string
  m_jwt_issuer :: string
  m_jwt_audience :: string
  m_jwt_alg :: string
  m_trie_root :: "trie option"
  m_exact_map :: "string \<Rightarrow> nat option"

definition GatewayConfig_init :: gateway_config where
  "GatewayConfig_init =
     \<lparr>m_routes = [], m_blacklist = [], m_max_qps = 0, m_config_path = [], m_inited = False,
      m_max_body_size = 4 * 1024 * 1024, m_timeout_connect = 2000, m_timeout_send = 2000,
      m_timeout_recv = 2000, m_jwt_enabled = False, m_jwt_secret = [], m_jwt_issuer = [],
      m_jwt_audience = [], m_jwt_alg = ''HS256'', m_trie_root = None, m_exact_map = Map.empty\<rparr>"

definition set_config_path :: "string \<Rightarrow> gateway_config \<Rightarrow> gateway_config" where
  "set_config_path p cfg = cfg\<lparr>m_config_path := p\<rparr>"

section \<open>Finding a route\<close>

definition trie_empty :: trie where
  "trie_empty = TrieNode (\<lambda>c. None) None"

text \<open>\<open>build_trie\<close>'s inner loop: walk down the prefix, making the nodes that are missing.\<close>

fun trie_insert :: "string \<Rightarrow> nat \<Rightarrow> trie \<Rightarrow> trie" where
  "trie_insert [] i (TrieNode ch r) = TrieNode ch (Some i)"
| "trie_insert (c # cs) i (TrieNode ch r) =
     TrieNode (ch(c := Some (trie_insert cs i (case ch c of None \<Rightarrow> trie_empty | Some t \<Rightarrow> t)))) r"

definition build_step :: "nat \<times> route \<Rightarrow> trie \<times> (string \<Rightarrow> nat option) \<Rightarrow> trie \<times> (string \<Rightarrow> nat option)" where
  "build_step ir tm =
     (let (i, r) = ir; (t, em) = tm
      in if exact r then (t, em(path_prefix r \<mapsto> i)) else (trie_insert (path_prefix r) i t, em))"

definition build_trie :: "gateway_config \<Rightarrow> gateway_config" where
  "build_trie cfg =
     (let (t, em) = fold build_step (enumerate 0 (m_routes cfg)) (trie_empty, Map.empty)
      in cfg\<lparr>m_trie_root := Some t, m_exact_map := em\<rparr>)"

fun trie_walk :: "trie \<Rightarrow> nat option \<Rightarrow> string \<Rightarrow> nat option" where
  "trie_walk node best [] = best"
| "trie_walk node best (c # cs) =
     (case children node c of
        None \<Rightarrow> best
      | Some node' \<Rightarrow> trie_walk node' (if node_route node' \<noteq> None then node_route node' else best) cs)"

definition match_route :: "gateway_config \<Rightarrow> string \<Rightarrow> nat option" where
  "match_route cfg path =
     (case m_exact_map cfg path of
        Some i \<Rightarrow> Some i
      | None \<Rightarrow>
          (case m_trie_root cfg of None \<Rightarrow> None | Some root \<Rightarrow> trie_walk root None path))"

section \<open>Reading the file\<close>

text \<open>The local variables of \<open>load_from_file\<close>, and the cache one directive resets.\<close>

record load_vars =
  lv_routes :: "route list"
  lv_blacklist :: "string list"
  lv_max_qps :: int
  lv_route_tokens :: "string \<Rightarrow> string option"
  lv_max_body_size :: int
  lv_timeout_connect :: int
  lv_timeout_send :: int
  lv_timeout_recv :: int
  lv_jwt_enabled :: bool
  lv_jwt_secret :: string
  lv_jwt_issuer :: string
  lv_jwt_audience :: string
  lv_jwt_alg :: string
  lv_cache :: jwt_cache

text \<open>The bodies of the \<open>route\<close> and \<open>exact\<close> directives, which differ in one flag.\<close>

definition load_route :: "bool \<Rightarrow> string \<Rightarrow> load_vars \<Rightarrow> load_vars" where
  "load_route is_exact ss v =
     (let (prefix, ss') = stream_token ss;
          tgts = fst (stream_token ss')
      in if prefix = [] \<or> tgts = [] then v
         else
           (let items = filter (\<lambda>item. item \<noteq> []) (getlines (CHR '','') tgts)
            in if items = [] then v
               else v\<lparr>lv_routes := lv_routes v @
                 [\<lparr>path_prefix = prefix, targets = items, resolved_targets = [], exact = is_exact,
                   rc_required_token = []\<rparr>]\<rparr>))"

definition load_line :: "string \<Rightarrow> load_vars \<Rightarrow> load_vars" where
  "load_line line v =
     (if line = [] then v
      else
       (let (type, ss) = stream_token line;
            word = fst (stream_token ss);
            int32 = stream_int 32 ss;
            int64 = stream_int 64 ss
        in if type = ''route'' then load_route False ss v
           else if type = ''exact'' then load_route True ss v
           else if type = ''black'' then
             (if word \<noteq> [] then v\<lparr>lv_blacklist := lv_blacklist v @ [word]\<rparr> else v)
           else if type = ''qps'' then (if int32 > 0 then v\<lparr>lv_max_qps := int32\<rparr> else v)
           else if type = ''token'' then
             (let (pfx, ss') = stream_token ss; token = fst (stream_token ss')
              in if pfx \<noteq> [] \<and> token \<noteq> [] then v\<lparr>lv_route_tokens := (lv_route_tokens v)(pfx \<mapsto> token)\<rparr> else v)
           else if type = ''max_body_size'' then (if int64 > 0 then v\<lparr>lv_max_body_size := int64\<rparr> else v)
           else if type = ''timeout_connect_ms'' then (if int32 > 0 then v\<lparr>lv_timeout_connect := int32\<rparr> else v)
           else if type = ''timeout_send_ms'' then (if int32 > 0 then v\<lparr>lv_timeout_send := int32\<rparr> else v)
           else if type = ''timeout_recv_ms'' then (if int32 > 0 then v\<lparr>lv_timeout_recv := int32\<rparr> else v)
           else if type = ''jwt_enabled'' then
             v\<lparr>lv_jwt_enabled := (word = ''on'' \<or> word = ''true'' \<or> word = ''1'')\<rparr>
           else if type = ''jwt_secret'' then v\<lparr>lv_jwt_secret := word\<rparr>
           else if type = ''jwt_issuer'' then v\<lparr>lv_jwt_issuer := word\<rparr>
           else if type = ''jwt_audience'' then v\<lparr>lv_jwt_audience := word\<rparr>
           else if type = ''jwt_alg'' then v\<lparr>lv_jwt_alg := word\<rparr>
           else if type = ''jwt_cache_capacity'' then
             (if int32 > 0 then v\<lparr>lv_cache := jwt_set_capacity int32 (lv_cache v)\<rparr> else v)
           else v))"

definition load_init :: "gateway_config \<Rightarrow> jwt_cache \<Rightarrow> load_vars" where
  "load_init cfg cache =
     \<lparr>lv_routes = [], lv_blacklist = [], lv_max_qps = 0, lv_route_tokens = Map.empty,
      lv_max_body_size = m_max_body_size cfg, lv_timeout_connect = m_timeout_connect cfg,
      lv_timeout_send = m_timeout_send cfg, lv_timeout_recv = m_timeout_recv cfg,
      lv_jwt_enabled = m_jwt_enabled cfg, lv_jwt_secret = m_jwt_secret cfg,
      lv_jwt_issuer = m_jwt_issuer cfg, lv_jwt_audience = m_jwt_audience cfg,
      lv_jwt_alg = m_jwt_alg cfg, lv_cache = cache\<rparr>"

definition load_lines :: "string list \<Rightarrow> load_vars \<Rightarrow> load_vars" where
  "load_lines lines v = fold load_line lines v"

definition finish_route :: "gai \<Rightarrow> (string \<Rightarrow> string option) \<Rightarrow> route \<Rightarrow> route" where
  "finish_route gai tokens r =
     (let resolved = List.map_filter (\<lambda>t. LookupAnyIPAddress gai t default_hints) (targets r)
      in r\<lparr>resolved_targets := resolved,
           rc_required_token := (case tokens (path_prefix r) of None \<Rightarrow> rc_required_token r | Some tok \<Rightarrow> tok)\<rparr>)"

text \<open>What is published under the mutex, and the whole function; \<open>fs path\<close> is \<open>None\<close> when the
  file does not open.\<close>

definition publish :: "gai \<Rightarrow> string \<Rightarrow> load_vars \<Rightarrow> gateway_config \<Rightarrow> gateway_config" where
  "publish gai path v cfg =
     (build_trie (cfg\<lparr>
        m_routes := map (finish_route gai (lv_route_tokens v)) (lv_routes v),
        m_blacklist := lv_blacklist v,
        m_max_qps := (if lv_max_qps v > 0 then lv_max_qps v else m_max_qps cfg),
        m_max_body_size := lv_max_body_size v,
        m_timeout_connect := lv_timeout_connect v,
        m_timeout_send := lv_timeout_send v,
        m_timeout_recv := lv_timeout_recv v,
        m_jwt_enabled := lv_jwt_enabled v,
        m_jwt_secret := lv_jwt_secret v,
        m_jwt_issuer := lv_jwt_issuer v,
        m_jwt_audience := lv_jwt_audience v,
        m_jwt_alg := lv_jwt_alg v,
        m_config_path := path\<rparr>))\<lparr>m_inited := True\<rparr>"

definition load_from_file ::
  "(string \<Rightarrow> string option) \<Rightarrow> gai \<Rightarrow> string \<Rightarrow> gateway_config \<times> jwt_cache \<Rightarrow>
     bool \<times> gateway_config \<times> jwt_cache" where
  "load_from_file fs gai path s =
     (case fs path of
        None \<Rightarrow> (False, s)
      | Some content \<Rightarrow>
         (let (cfg, cache) = s;
              v = load_lines (getlines chr_lf content) (load_init cfg cache)
          in if lv_routes v = [] then (False, cfg, lv_cache v)
             else if \<not> list_ex (\<lambda>r. \<not> exact r \<and> path_prefix r = ''/'') (lv_routes v)
             then (False, cfg, lv_cache v)
             else (True, publish gai path v cfg, jwt_cache_clear (lv_cache v))))"

definition reload ::
  "(string \<Rightarrow> string option) \<Rightarrow> gai \<Rightarrow> gateway_config \<times> jwt_cache \<Rightarrow>
     bool \<times> gateway_config \<times> jwt_cache" where
  "reload fs gai s =
     (if m_config_path (fst s) = [] then (False, s)
      else load_from_file fs gai (m_config_path (fst s)) s)"

section \<open>Which route a path finds\<close>

fun trie_route :: "trie \<Rightarrow> string \<Rightarrow> nat option" where
  "trie_route t [] = node_route t"
| "trie_route t (c # cs) = (case children t c of None \<Rightarrow> None | Some t' \<Rightarrow> trie_route t' cs)"

lemma trie_route_empty [simp]: "trie_route trie_empty q = None"
  by (cases q) (simp_all add: trie_empty_def)

lemma trie_route_insert: "trie_route (trie_insert p i t) q = (if q = p then Some i else trie_route t q)"
proof (induction p arbitrary: t q)
  case Nil
  then show ?case by (cases t; cases q) auto
next
  case (Cons c cs)
  show ?case
  proof (cases q)
    case Nil
    then show ?thesis by (cases t) simp
  next
    case (Cons d ds)
    then show ?thesis by (cases t) (auto simp: Cons.IH split: option.splits)
  qed
qed

text \<open>A route is at the node of its prefix: the last of the list among equals.\<close>

definition plain_at :: "route list \<Rightarrow> string \<Rightarrow> nat option" where
  "plain_at rs q = last_idx (\<lambda>r. \<not> exact r \<and> path_prefix r = q) rs"

definition exact_at :: "route list \<Rightarrow> string \<Rightarrow> nat option" where
  "exact_at rs q = last_idx (\<lambda>r. exact r \<and> path_prefix r = q) rs"

lemma build_step_simp:
  "build_step (i, r) (t, em) =
     (if exact r then (t, em(path_prefix r \<mapsto> i)) else (trie_insert (path_prefix r) i t, em))"
  by (simp add: build_step_def)

lemma build_steps:
  assumes "fold build_step (enumerate n rs) (t, em) = (t', em')"
  shows "trie_route t' q = (case plain_at rs q of Some i \<Rightarrow> Some (n + i) | None \<Rightarrow> trie_route t q) \<and>
    em' q = (case exact_at rs q of Some i \<Rightarrow> Some (n + i) | None \<Rightarrow> em q)"
  using assms
proof (induction rs arbitrary: n t em)
  case Nil
  then show ?case by (simp add: plain_at_def exact_at_def)
next
  case (Cons r rs)
  show ?case
  proof (cases "exact r")
    case True
    from Cons.prems have "fold build_step (enumerate (Suc n) rs) (t, em(path_prefix r \<mapsto> n)) = (t', em')"
      by (simp add: build_step_simp True)
    from Cons.IH [OF this] True show ?thesis
      by (auto simp: plain_at_def exact_at_def split: option.splits)
  next
    case False
    from Cons.prems have "fold build_step (enumerate (Suc n) rs) (trie_insert (path_prefix r) n t, em) = (t', em')"
      by (simp add: build_step_simp False)
    from Cons.IH [OF this] False show ?thesis
      by (auto simp: plain_at_def exact_at_def trie_route_insert split: option.splits)
  qed
qed

lemma build_trie_lookup:
  obtains root where "m_trie_root (build_trie c) = Some root"
    and "\<And>q. trie_route root q = plain_at (m_routes c) q"
    and "\<And>q. m_exact_map (build_trie c) q = exact_at (m_routes c) q"
proof -
  obtain t em where b: "fold build_step (enumerate 0 (m_routes c)) (trie_empty, Map.empty) = (t, em)"
    by (cases "fold build_step (enumerate 0 (m_routes c)) (trie_empty, Map.empty)")
  show thesis
    using build_steps [OF b] that [of t] b by (auto simp: build_trie_def split: option.splits)
qed

text \<open>The walk keeps the deepest route on the way, the root's excepted.\<close>

lemma trie_walk_deepest:
  "(\<exists>k. 0 < k \<and> k \<le> length path \<and> trie_walk t best path = trie_route t (take k path) \<and>
        trie_route t (take k path) \<noteq> None \<and>
        (\<forall>j. k < j \<and> j \<le> length path \<longrightarrow> trie_route t (take j path) = None)) \<or>
   trie_walk t best path = best \<and> (\<forall>j. 0 < j \<and> j \<le> length path \<longrightarrow> trie_route t (take j path) = None)"
proof (induction path arbitrary: t best)
  case Nil
  then show ?case by simp
next
  case (Cons c cs)
  show ?case
  proof (cases "children t c")
    case None
    then have "trie_route t (take j (c # cs)) = None" if "0 < j" for j
      using that by (cases j) simp_all
    with None show ?thesis by simp
  next
    case (Some t')
    let ?best = "if node_route t' \<noteq> None then node_route t' else best"
    have below: "trie_route t (take (Suc j) (c # cs)) = trie_route t' (take j cs)" for j
      using Some by simp
    have walk: "trie_walk t best (c # cs) = trie_walk t' ?best cs" using Some by simp
    from Cons.IH [of t' ?best] show ?thesis
    proof (elim disjE exE conjE)
      fix k assume k: "0 < k" "k \<le> length cs" "trie_walk t' ?best cs = trie_route t' (take k cs)"
        "trie_route t' (take k cs) \<noteq> None"
        "\<forall>j. k < j \<and> j \<le> length cs \<longrightarrow> trie_route t' (take j cs) = None"
      have "trie_route t (take j (c # cs)) = None" if "Suc k < j" "j \<le> Suc (length cs)" for j
        using that k(5) below by (cases j) (auto simp del: take_Suc_Cons)
      with k walk show ?thesis
        by (intro disjI1 exI [of _ "Suc k"]) (simp only: below; simp)
    next
      assume k: "trie_walk t' ?best cs = ?best"
        "\<forall>j. 0 < j \<and> j \<le> length cs \<longrightarrow> trie_route t' (take j cs) = None"
      have rest: "trie_route t (take j (c # cs)) = None" if "1 < j" "j \<le> Suc (length cs)" for j
        using that k(2) below by (cases j) (auto simp del: take_Suc_Cons)
      have one: "trie_route t (take 1 (c # cs)) = node_route t'" using Some by simp
      show ?thesis
      proof (cases "node_route t' = None")
        case True
        have "trie_route t (take j (c # cs)) = None" if "0 < j" "j \<le> length (c # cs)" for j
          using that rest [of j] one True by (cases "j = 1") auto
        with walk k True show ?thesis by simp
      next
        case False
        with walk k rest one show ?thesis by (intro disjI1 exI [of _ 1]) auto
      qed
    qed
  qed
qed

lemma prefix_take_iff: "prefix p s \<longleftrightarrow> (\<exists>k \<le> length s. p = take k s)"
  by (metis append_eq_conv_conj append_take_drop_id length_take min.absorb2 nat_le_linear prefix_def prefix_length_le take_all)

definition plain_match :: "route \<Rightarrow> string \<Rightarrow> bool" where
  "plain_match r path \<longleftrightarrow> \<not> exact r \<and> path_prefix r \<noteq> [] \<and> prefix (path_prefix r) path"

definition best_plain :: "route list \<Rightarrow> string \<Rightarrow> nat \<Rightarrow> bool" where
  "best_plain rs path i \<longleftrightarrow>
    i < length rs \<and> plain_match (rs ! i) path \<and>
    (\<forall>j < length rs. plain_match (rs ! j) path \<longrightarrow>
       length (path_prefix (rs ! j)) \<le> length (path_prefix (rs ! i)) \<and>
       (path_prefix (rs ! j) = path_prefix (rs ! i) \<longrightarrow> j \<le> i))"

lemma best_plain_unique:
  assumes "best_plain rs path i" and "best_plain rs path j"
  shows "i = j"
proof -
  have len: "length (path_prefix (rs ! i)) = length (path_prefix (rs ! j))"
    using assms unfolding best_plain_def by (meson le_antisym)
  have "prefix (path_prefix (rs ! i)) path" "prefix (path_prefix (rs ! j)) path"
    using assms by (simp_all add: best_plain_def plain_match_def)
  with len have eq: "path_prefix (rs ! i) = path_prefix (rs ! j)"
    by (metis prefix_length_prefix prefix_order.antisym order_refl)
  have "i \<le> j"
    using assms(1) spec [OF assms(2) [unfolded best_plain_def, THEN conjunct2, THEN conjunct2], of i] eq
    by (simp add: best_plain_def)
  moreover have "j \<le> i"
    using assms(2) spec [OF assms(1) [unfolded best_plain_def, THEN conjunct2, THEN conjunct2], of j] eq
    by (simp add: best_plain_def)
  ultimately show ?thesis by simp
qed

lemma plain_at_None:
  "plain_at rs q = None \<Longrightarrow> j < length rs \<Longrightarrow> \<not> exact (rs ! j) \<Longrightarrow> path_prefix (rs ! j) \<noteq> q"
  by (auto simp: plain_at_def last_idx_None)

lemma plain_at_Some:
  "plain_at rs q = Some i \<longleftrightarrow> i < length rs \<and> \<not> exact (rs ! i) \<and> path_prefix (rs ! i) = q \<and>
      (\<forall>j < length rs. i < j \<longrightarrow> \<not> (\<not> exact (rs ! j) \<and> path_prefix (rs ! j) = q))"
  by (auto simp: plain_at_def last_idx_Some)

lemma trie_walk_Some:
  assumes t: "\<And>q. trie_route t q = plain_at rs q"
  shows "trie_walk t None path = Some i \<longleftrightarrow> best_plain rs path i"
proof -
  from trie_walk_deepest [of path t None] show ?thesis
  proof (elim disjE exE conjE)
    fix k assume k: "0 < k" "k \<le> length path" "trie_walk t None path = trie_route t (take k path)"
      "trie_route t (take k path) \<noteq> None"
      "\<forall>j. k < j \<and> j \<le> length path \<longrightarrow> trie_route t (take j path) = None"
    then obtain i' where w: "trie_walk t None path = Some i'" and i': "plain_at rs (take k path) = Some i'"
      using t by auto
    have pre: "path_prefix (rs ! i') = take k path" "i' < length rs" "\<not> exact (rs ! i')"
      using i' by (simp_all add: plain_at_Some)
    have "best_plain rs path i'"
      unfolding best_plain_def
    proof (intro conjI allI impI)
      show "i' < length rs" by (rule pre)
      show "plain_match (rs ! i') path"
        using pre k(1,2) by (auto simp: plain_match_def take_is_prefix)
      fix j assume j: "j < length rs" "plain_match (rs ! j) path"
      then obtain m where m: "m \<le> length path" "path_prefix (rs ! j) = take m path"
        by (auto simp: plain_match_def prefix_take_iff)
      have "plain_at rs (take m path) \<noteq> None"
        using plain_at_None [of rs "take m path" j] j m by (auto simp: plain_match_def)
      then have "\<not> k < m" using k(5) m(1) t by auto
      then show "length (path_prefix (rs ! j)) \<le> length (path_prefix (rs ! i'))"
        using m pre k(2) by simp
      show "j \<le> i'" if "path_prefix (rs ! j) = path_prefix (rs ! i')"
      proof (rule ccontr)
        assume "\<not> j \<le> i'"
        then have "i' < j" by simp
        with i' j(1) have "exact (rs ! j) \<or> path_prefix (rs ! j) \<noteq> take k path"
          unfolding plain_at_Some by blast
        with j(2) that pre(1) show False by (simp add: plain_match_def)
      qed
    qed
    then show ?thesis using best_plain_unique w by (metis option.inject)
  next
    assume k: "trie_walk t None path = None"
      "\<forall>j. 0 < j \<and> j \<le> length path \<longrightarrow> trie_route t (take j path) = None"
    have "\<not> plain_match (rs ! j) path" if "j < length rs" for j
    proof
      assume "plain_match (rs ! j) path"
      then obtain m where "m \<le> length path" "path_prefix (rs ! j) = take m path" "\<not> exact (rs ! j)" "0 < m"
        by (auto simp: plain_match_def prefix_take_iff)
      with k(2) t plain_at_None [of rs "take m path" j] that show False by metis
    qed
    with k(1) show ?thesis by (auto simp: best_plain_def)
  qed
qed

lemma match_route_iff:
  "match_route (build_trie c) path = Some i \<longleftrightarrow>
     i < length (m_routes c) \<and> exact (m_routes c ! i) \<and> path_prefix (m_routes c ! i) = path \<and>
        (\<forall>j < length (m_routes c). i < j \<longrightarrow> \<not> (exact (m_routes c ! j) \<and> path_prefix (m_routes c ! j) = path)) \<or>
      (\<forall>j < length (m_routes c). \<not> (exact (m_routes c ! j) \<and> path_prefix (m_routes c ! j) = path)) \<and>
        best_plain (m_routes c) path i"
proof -
  obtain root where r: "m_trie_root (build_trie c) = Some root"
    "\<And>q. trie_route root q = plain_at (m_routes c) q"
    "m_exact_map (build_trie c) path = exact_at (m_routes c) path"
    using build_trie_lookup [of c] by metis
  show ?thesis
  proof (cases "exact_at (m_routes c) path")
    case None
    then have "\<forall>j < length (m_routes c). \<not> (exact (m_routes c ! j) \<and> path_prefix (m_routes c ! j) = path)"
      by (auto simp: exact_at_def last_idx_None)
    with None r show ?thesis by (auto simp: match_route_def trie_walk_Some)
  next
    case (Some k)
    then have "k < length (m_routes c) \<and> exact (m_routes c ! k) \<and> path_prefix (m_routes c ! k) = path \<and>
        (\<forall>j < length (m_routes c). k < j \<longrightarrow> \<not> (exact (m_routes c ! j) \<and> path_prefix (m_routes c ! j) = path))"
      by (auto simp: exact_at_def last_idx_Some)
    moreover have "match_route (build_trie c) path = Some k"
      using Some r by (simp add: match_route_def)
    ultimately show ?thesis by (cases "i < k"; cases "k < i") auto
  qed
qed

text \<open>
  C3: After \<open>build_trie\<close>, \<open>match_route\<close> finds route \<open>i\<close> exactly when it is the last exact
  route of that very path, or there is none and it is a prefix route whose prefix is the longest
  of all prefix routes that fit, the last one among those with the same prefix.
\<close>

theorem match_route_longest_prefix:
  "match_route (build_trie c) path = Some i \<longleftrightarrow>
     i < length (m_routes c) \<and>
     (exact (m_routes c ! i) \<and> path_prefix (m_routes c ! i) = path \<and>
        (\<forall>j < length (m_routes c). i < j \<longrightarrow> \<not> (exact (m_routes c ! j) \<and> path_prefix (m_routes c ! j) = path)) \<or>
      (\<forall>j < length (m_routes c). \<not> (exact (m_routes c ! j) \<and> path_prefix (m_routes c ! j) = path)) \<and>
        plain_match (m_routes c ! i) path \<and>
        (\<forall>j < length (m_routes c). plain_match (m_routes c ! j) path \<longrightarrow>
           length (path_prefix (m_routes c ! j)) \<le> length (path_prefix (m_routes c ! i)) \<and>
           (path_prefix (m_routes c ! j) = path_prefix (m_routes c ! i) \<longrightarrow> j \<le> i)))"
  unfolding match_route_iff best_plain_def by blast

definition sample_routes :: gateway_config where
  "sample_routes = GatewayConfig_init\<lparr>m_routes :=
     [\<lparr>path_prefix = ''/'', targets = [''h:1''], resolved_targets = [], exact = False, rc_required_token = []\<rparr>,
      \<lparr>path_prefix = ''/api'', targets = [''h:2''], resolved_targets = [], exact = False, rc_required_token = []\<rparr>,
      \<lparr>path_prefix = ''/api/x'', targets = [''h:3''], resolved_targets = [], exact = True, rc_required_token = []\<rparr>]\<rparr>"

theorem match_route_longest_prefix_witness:
  "match_route (build_trie sample_routes) ''/api/y'' = Some 1"
proof -
  have three: "(\<forall>j < 3. P j) \<longleftrightarrow> P 0 \<and> P 1 \<and> P (2 :: nat)" for P
    by (auto simp: numeral_3_eq_3 less_Suc_eq numeral_2_eq_2)
  have rs: "length (m_routes sample_routes) = 3" by (simp add: sample_routes_def)
  show ?thesis
    unfolding match_route_longest_prefix [of sample_routes "''/api/y''" 1] rs three
    by (simp add: sample_routes_def plain_match_def)
qed

section \<open>Loading\<close>

text \<open>A line changes a variable to a value of its own or not at all.\<close>

definition sets_or_keeps :: "('s \<Rightarrow> 'b) \<Rightarrow> ('s \<Rightarrow> 's) \<Rightarrow> bool" where
  "sets_or_keeps x f \<longleftrightarrow> (\<exists>v. \<forall>s. x (f s) = v) \<or> (\<forall>s. x (f s) = x s)"

lemma sets_or_keeps_fold:
  "(\<And>l. sets_or_keeps x (f l)) \<Longrightarrow> sets_or_keeps x (fold f ls)"
proof (induction ls)
  case Nil
  then show ?case by (simp add: sets_or_keeps_def)
next
  case (Cons l ls)
  then have "sets_or_keeps x (f l)" "sets_or_keeps x (fold f ls)" by simp_all
  then show ?case by (auto simp: sets_or_keeps_def)
qed

definition depends_only :: "('s \<Rightarrow> 'b) \<Rightarrow> ('s \<Rightarrow> 's) \<Rightarrow> bool" where
  "depends_only x f \<longleftrightarrow> (\<forall>s t. x s = x t \<longrightarrow> x (f s) = x (f t))"

lemma depends_only_fold:
  "(\<And>l. depends_only x (f l)) \<Longrightarrow> depends_only x (fold f ls)"
proof (induction ls)
  case Nil
  then show ?case by (simp add: depends_only_def)
next
  case (Cons l ls)
  then have "depends_only x (f l)" "depends_only x (fold f ls)" by blast+
  then show ?case unfolding depends_only_def fold_simps by blast
qed

text \<open>Which variables the lines of one directive can change.\<close>

lemma load_route_frame [frame_simps]:
  "lv_blacklist (load_route b ss v) = lv_blacklist v"
  "lv_max_qps (load_route b ss v) = lv_max_qps v"
  "lv_route_tokens (load_route b ss v) = lv_route_tokens v"
  "lv_max_body_size (load_route b ss v) = lv_max_body_size v"
  "lv_timeout_connect (load_route b ss v) = lv_timeout_connect v"
  "lv_timeout_send (load_route b ss v) = lv_timeout_send v"
  "lv_timeout_recv (load_route b ss v) = lv_timeout_recv v"
  "lv_jwt_enabled (load_route b ss v) = lv_jwt_enabled v"
  "lv_jwt_secret (load_route b ss v) = lv_jwt_secret v"
  "lv_jwt_issuer (load_route b ss v) = lv_jwt_issuer v"
  "lv_jwt_audience (load_route b ss v) = lv_jwt_audience v"
  "lv_jwt_alg (load_route b ss v) = lv_jwt_alg v"
  "lv_cache (load_route b ss v) = lv_cache v"
  by (simp_all add: load_route_def Let_def split_def)

lemma sk_if: "sets_or_keeps x f \<Longrightarrow> sets_or_keeps x g \<Longrightarrow> sets_or_keeps x (\<lambda>v. if b then f v else g v)"
  by (cases b) simp_all

lemma sk_keep: "(\<And>s. x (f s) = x s) \<Longrightarrow> sets_or_keeps x f"
  by (simp add: sets_or_keeps_def)

lemma sk_set: "(\<And>s. x (f s) = k) \<Longrightarrow> sets_or_keeps x f"
  by (auto simp: sets_or_keeps_def)

lemma dep_if: "depends_only x f \<Longrightarrow> depends_only x g \<Longrightarrow> depends_only x (\<lambda>v. if b then f v else g v)"
  by (cases b) simp_all

lemma depI: "(\<And>s t. x s = x t \<Longrightarrow> x (f s) = x (f t)) \<Longrightarrow> depends_only x f"
  unfolding depends_only_def by blast

lemmas load_line_eta = load_line_def [abs_def] load_route_def [abs_def] Let_def split_def

lemma load_line_depends:
  "depends_only lv_routes (load_line l)" "depends_only lv_blacklist (load_line l)"
  "depends_only lv_max_qps (load_line l)" "depends_only lv_route_tokens (load_line l)"
  unfolding load_line_eta by ((intro dep_if; (rule depI, simp))+)

lemma load_line_keeps:
  "sets_or_keeps lv_max_body_size (load_line l)" "sets_or_keeps lv_timeout_connect (load_line l)"
  "sets_or_keeps lv_timeout_send (load_line l)" "sets_or_keeps lv_timeout_recv (load_line l)"
  "sets_or_keeps lv_jwt_enabled (load_line l)" "sets_or_keeps lv_jwt_secret (load_line l)"
  "sets_or_keeps lv_jwt_issuer (load_line l)" "sets_or_keeps lv_jwt_audience (load_line l)"
  "sets_or_keeps lv_jwt_alg (load_line l)"
  unfolding load_line_eta
  by ((intro sk_if; (rule sk_keep, simp; fail | rule sk_set, simp; fail))+)

lemma kept_twice:
  assumes "\<And>l. sets_or_keeps x (f l)" and "x t = x (fold f ls s)"
  shows "x (fold f ls t) = x (fold f ls s)"
  using sets_or_keeps_fold [of x f ls, OF assms(1)] assms(2)
  unfolding sets_or_keeps_def by metis

lemma from_same:
  assumes "\<And>l. depends_only x (f l)" and "x t = x s"
  shows "x (fold f ls t) = x (fold f ls s)"
  using depends_only_fold [of x f ls, OF assms(1)] assms(2) unfolding depends_only_def by blast

lemma build_trie_fields [simp]:
  "m_routes (build_trie c) = m_routes c" "m_blacklist (build_trie c) = m_blacklist c"
  "m_max_qps (build_trie c) = m_max_qps c" "m_config_path (build_trie c) = m_config_path c"
  "m_max_body_size (build_trie c) = m_max_body_size c"
  "m_timeout_connect (build_trie c) = m_timeout_connect c"
  "m_timeout_send (build_trie c) = m_timeout_send c" "m_timeout_recv (build_trie c) = m_timeout_recv c"
  "m_jwt_enabled (build_trie c) = m_jwt_enabled c" "m_jwt_secret (build_trie c) = m_jwt_secret c"
  "m_jwt_issuer (build_trie c) = m_jwt_issuer c" "m_jwt_audience (build_trie c) = m_jwt_audience c"
  "m_jwt_alg (build_trie c) = m_jwt_alg c" "m_inited (build_trie c) = m_inited c"
  by (simp_all add: build_trie_def split_def Let_def)

lemma publish_again:
  assumes "lv_routes v' = lv_routes v" "lv_blacklist v' = lv_blacklist v" "lv_max_qps v' = lv_max_qps v"
    "lv_route_tokens v' = lv_route_tokens v" "lv_max_body_size v' = lv_max_body_size v"
    "lv_timeout_connect v' = lv_timeout_connect v" "lv_timeout_send v' = lv_timeout_send v"
    "lv_timeout_recv v' = lv_timeout_recv v" "lv_jwt_enabled v' = lv_jwt_enabled v"
    "lv_jwt_secret v' = lv_jwt_secret v" "lv_jwt_issuer v' = lv_jwt_issuer v"
    "lv_jwt_audience v' = lv_jwt_audience v" "lv_jwt_alg v' = lv_jwt_alg v"
  shows "publish gai path v' (publish gai path v cfg) = publish gai path v cfg"
  unfolding publish_def assms by (simp add: build_trie_def split_def Let_def)

lemma load_success:
  "load_from_file fs gai path (cfg, cache) = (True, cfg', cache') \<Longrightarrow>
     \<exists>content v. fs path = Some content \<and> v = load_lines (getlines chr_lf content) (load_init cfg cache) \<and>
       (\<exists>r \<in> set (lv_routes v). \<not> exact r \<and> path_prefix r = ''/'') \<and>
       cfg' = publish gai path v cfg \<and> cache' = lru_new 10000"
  by (auto simp: load_from_file_def Let_def jwt_cache_clear_def list_ex_iff split: option.splits if_splits)

text \<open>
  A reload right after a successful load, from an unchanged file and an unchanged resolver,
  succeeds and changes nothing of the configuration, although every setting the file does not give
  is carried over from the configuration before.
\<close>

theorem reload_idempotent:
  assumes load: "load_from_file fs gai path (cfg, cache) = (True, cfg', cache')" and "path \<noteq> []"
  shows "reload fs gai (cfg', cache'') = (True, cfg', lru_new 10000)"
proof -
  from load_success [OF load] obtain content where c: "fs path = Some content"
    and d: "\<exists>r \<in> set (lv_routes (load_lines (getlines chr_lf content) (load_init cfg cache))).
        \<not> exact r \<and> path_prefix r = ''/''"
    and cfg': "cfg' = publish gai path (load_lines (getlines chr_lf content) (load_init cfg cache)) cfg"
    by blast
  define ls where "ls = getlines chr_lf content"
  define v where "v = load_lines ls (load_init cfg cache)"
  define v' where "v' = load_lines ls (load_init cfg' cache'')"
  have pub: "cfg' = publish gai path v cfg" using cfg' by (simp add: v_def ls_def)
  have dep: "lv_routes v' = lv_routes v" "lv_blacklist v' = lv_blacklist v"
      "lv_max_qps v' = lv_max_qps v" "lv_route_tokens v' = lv_route_tokens v"
    unfolding v'_def v_def load_lines_def
    by (rule from_same, rule load_line_depends, simp add: load_init_def)+
  have "lv_max_body_size v' = lv_max_body_size v" "lv_timeout_connect v' = lv_timeout_connect v"
      "lv_timeout_send v' = lv_timeout_send v" "lv_timeout_recv v' = lv_timeout_recv v"
      "lv_jwt_enabled v' = lv_jwt_enabled v" "lv_jwt_secret v' = lv_jwt_secret v"
      "lv_jwt_issuer v' = lv_jwt_issuer v" "lv_jwt_audience v' = lv_jwt_audience v"
      "lv_jwt_alg v' = lv_jwt_alg v"
    unfolding v'_def v_def load_lines_def
    by (rule kept_twice, rule load_line_keeps,
        simp add: load_init_def pub publish_def v_def load_lines_def)+
  with dep have "publish gai path v' cfg' = cfg'" unfolding pub by (intro publish_again)
  moreover have "m_config_path cfg' = path" by (simp add: pub publish_def)
  ultimately show ?thesis
    using c d dep assms(2)
    by (auto simp: reload_def load_from_file_def Let_def jwt_cache_clear_def list_ex_iff
        v'_def [symmetric] v_def [symmetric] ls_def [symmetric])
qed

section \<open>The invariant of the configuration\<close>

definition route_ok :: "route \<Rightarrow> bool" where
  "route_ok r \<longleftrightarrow> path_prefix r \<noteq> [] \<and> targets r \<noteq> [] \<and> [] \<notin> set (targets r)"

definition int_setting_ok :: "nat \<Rightarrow> int \<Rightarrow> bool" where
  "int_setting_ok w v \<longleftrightarrow> 0 < v \<and> v < 2 ^ (w - 1)"

definition vars_ok :: "load_vars \<Rightarrow> bool" where
  "vars_ok v \<longleftrightarrow>
     (\<forall>r \<in> set (lv_routes v). route_ok r) \<and> (lv_max_qps v = 0 \<or> int_setting_ok 32 (lv_max_qps v)) \<and>
     int_setting_ok 64 (lv_max_body_size v) \<and> int_setting_ok 32 (lv_timeout_connect v) \<and>
     int_setting_ok 32 (lv_timeout_send v) \<and> int_setting_ok 32 (lv_timeout_recv v) \<and> lru_ok (lv_cache v)"

lemma stream_int_ok: "0 < w \<Longrightarrow> 0 < stream_int w s \<Longrightarrow> int_setting_ok w (stream_int w s)"
  using clamp_int_range [of w] by (simp add: int_setting_ok_def stream_int_def)

lemma load_route_ok [inv_intros]: "vars_ok v \<Longrightarrow> vars_ok (load_route b ss v)"
  by (auto simp: vars_ok_def load_route_def Let_def route_ok_def split: prod.splits)

lemma set_capacity_ok: "int_setting_ok 32 n \<Longrightarrow> lru_ok (jwt_set_capacity n c)"
  unfolding jwt_set_capacity_def by (rule lru_new_ok) (simp add: int_setting_ok_def)

lemma vars_ok_if: "(b \<Longrightarrow> vars_ok x) \<Longrightarrow> (\<not> b \<Longrightarrow> vars_ok y) \<Longrightarrow> vars_ok (if b then x else y)"
  by simp

lemma vars_ok_update:
  assumes "vars_ok v"
  shows "vars_ok (v\<lparr>lv_blacklist := bl\<rparr>)" "vars_ok (v\<lparr>lv_route_tokens := tk\<rparr>)"
    "vars_ok (v\<lparr>lv_jwt_enabled := en\<rparr>)" "vars_ok (v\<lparr>lv_jwt_secret := s\<rparr>)"
    "vars_ok (v\<lparr>lv_jwt_issuer := s\<rparr>)" "vars_ok (v\<lparr>lv_jwt_audience := s\<rparr>)" "vars_ok (v\<lparr>lv_jwt_alg := s\<rparr>)"
    "int_setting_ok 32 n \<Longrightarrow> vars_ok (v\<lparr>lv_max_qps := n\<rparr>)"
    "int_setting_ok 64 n \<Longrightarrow> vars_ok (v\<lparr>lv_max_body_size := n\<rparr>)"
    "int_setting_ok 32 n \<Longrightarrow> vars_ok (v\<lparr>lv_timeout_connect := n\<rparr>)"
    "int_setting_ok 32 n \<Longrightarrow> vars_ok (v\<lparr>lv_timeout_send := n\<rparr>)"
    "int_setting_ok 32 n \<Longrightarrow> vars_ok (v\<lparr>lv_timeout_recv := n\<rparr>)"
    "lru_ok c \<Longrightarrow> vars_ok (v\<lparr>lv_cache := c\<rparr>)"
  using assms by (simp_all add: vars_ok_def)

lemma load_line_ok [inv_intros]: "vars_ok v \<Longrightarrow> vars_ok (load_line l v)"
  unfolding load_line_def Let_def split_def
  by (intro vars_ok_if; (assumption | rule load_route_ok vars_ok_update set_capacity_ok stream_int_ok | simp)+)

lemma load_lines_ok: "vars_ok v \<Longrightarrow> vars_ok (load_lines ls v)"
  unfolding load_lines_def by (induction ls arbitrary: v) (simp_all add: load_line_ok)

definition has_default :: "route list \<Rightarrow> bool" where
  "has_default rs \<longleftrightarrow> (\<exists>r \<in> set rs. \<not> exact r \<and> path_prefix r = ''/'')"

text \<open>
  The invariant of the configuration and the cache of tokens: the limits are positive, every route
  has targets, and before the first load there is nothing to find, after it the trie and the map
  are those of the routes, one of which is the default route.
\<close>

definition config_ok :: "gateway_config \<times> jwt_cache \<Rightarrow> bool" where
  "config_ok s \<longleftrightarrow> (case s of (cfg, cache) \<Rightarrow>
     (\<forall>r \<in> set (m_routes cfg). route_ok r) \<and> (m_max_qps cfg = 0 \<or> int_setting_ok 32 (m_max_qps cfg)) \<and>
     int_setting_ok 64 (m_max_body_size cfg) \<and> int_setting_ok 32 (m_timeout_connect cfg) \<and>
     int_setting_ok 32 (m_timeout_send cfg) \<and> int_setting_ok 32 (m_timeout_recv cfg) \<and> lru_ok cache \<and>
     (if m_inited cfg then build_trie cfg = cfg \<and> has_default (m_routes cfg)
      else m_routes cfg = [] \<and> m_trie_root cfg = None \<and> m_exact_map cfg = Map.empty))"

lemma load_init_ok: "config_ok (cfg, cache) \<Longrightarrow> vars_ok (load_init cfg cache)"
  by (simp add: config_ok_def vars_ok_def load_init_def)

lemma build_trie_idem: "build_trie ((build_trie c)\<lparr>m_inited := b\<rparr>) = (build_trie c)\<lparr>m_inited := b\<rparr>"
  by (simp add: build_trie_def split_def Let_def)

lemma finish_route_simps [simp]:
  "path_prefix (finish_route gai tk r) = path_prefix r" "exact (finish_route gai tk r) = exact r"
  "targets (finish_route gai tk r) = targets r" "route_ok (finish_route gai tk r) = route_ok r"
  by (simp_all add: finish_route_def Let_def route_ok_def)

lemma publish_ok:
  assumes "config_ok (cfg, cache)" and "vars_ok v" and "has_default (lv_routes v)"
  shows "config_ok (publish gai path v cfg, lru_new 10000)"
proof -
  have "build_trie (publish gai path v cfg) = publish gai path v cfg"
    unfolding publish_def by (rule build_trie_idem)
  moreover have "lru_ok (lru_new 10000 :: jwt_cache)" by (rule lru_new_ok) simp
  ultimately show ?thesis
    using assms by (auto simp: config_ok_def vars_ok_def has_default_def publish_def)
qed

lemma load_from_file_ok [inv_intros]:
  assumes "config_ok s"
  shows "config_ok (snd (load_from_file fs gai path s))"
proof -
  obtain cfg cache where s: "s = (cfg, cache)" by (cases s)
  have v: "vars_ok (load_lines ls (load_init cfg cache))" for ls
    using assms s by (intro load_lines_ok load_init_ok) simp
  show ?thesis
  proof (cases "fs path")
    case None
    then show ?thesis using assms by (simp add: load_from_file_def)
  next
    case (Some content)
    define w where "w = load_lines (getlines chr_lf content) (load_init cfg cache)"
    have w: "vars_ok w" "lru_ok (lv_cache w)" using v by (simp_all add: w_def vars_ok_def)
    have "config_ok (publish gai path w cfg, lru_new 10000)" if "has_default (lv_routes w)"
      using publish_ok assms s w(1) that by blast
    moreover have "config_ok (cfg, lv_cache w)" using assms w(2) by (simp add: s config_ok_def)
    ultimately show ?thesis
      by (simp add: load_from_file_def Some s Let_def w_def [symmetric] jwt_cache_clear_def has_default_def list_ex_iff)
  qed
qed

datatype config_op =
    Set_path string
  | Load "string \<Rightarrow> string option" gai string
  | Reload "string \<Rightarrow> string option" gai

fun config_step :: "gateway_config \<times> jwt_cache \<Rightarrow> config_op \<Rightarrow> gateway_config \<times> jwt_cache" where
  "config_step s (Set_path p) = (set_config_path p (fst s), snd s)"
| "config_step s (Load fs gai p) = snd (load_from_file fs gai p s)"
| "config_step s (Reload fs gai) = snd (reload fs gai s)"

lemma build_trie_path: "build_trie (c\<lparr>m_config_path := p\<rparr>) = (build_trie c)\<lparr>m_config_path := p\<rparr>"
  by (simp add: build_trie_def split_def Let_def)

lemma set_config_path_ok [inv_intros]:
  "config_ok (cfg, cache) \<Longrightarrow> config_ok (set_config_path p cfg, cache)"
  by (simp add: set_config_path_def config_ok_def build_trie_path)

interpretation config: op_machine config_step config_ok
proof unfold_locales
  fix s x assume "config_ok s"
  then show "config_ok (config_step s x)"
    by (cases x; cases s; simp add: load_from_file_ok reload_def set_config_path_ok)
qed

lemma config_init_ok: "config_ok (GatewayConfig_init, jwt_cache_init)"
proof -
  have "lru_ok (lru_new 10000 :: jwt_cache)" by (rule lru_new_ok) simp
  then show ?thesis by (simp add: config_ok_def GatewayConfig_init_def jwt_cache_init_def int_setting_ok_def)
qed

lemma match_route_ok:
  assumes "config_ok (cfg, cache)" and "match_route cfg path = Some i"
  shows "i < length (m_routes cfg) \<and> m_inited cfg"
proof -
  have "m_inited cfg" using assms by (auto simp: config_ok_def match_route_def split: if_splits)
  then have "build_trie cfg = cfg" using assms(1) by (simp add: config_ok_def)
  with assms(2) show ?thesis
    using match_route_iff [of cfg path i] \<open>m_inited cfg\<close> by (auto simp: best_plain_def)
qed

lemma match_route_default:
  assumes "config_ok (cfg, cache)" and "m_inited cfg"
  shows "match_route cfg (CHR ''/'' # p) \<noteq> None"
proof -
  have bt: "build_trie cfg = cfg" and d: "has_default (m_routes cfg)"
    using assms by (simp_all add: config_ok_def)
  obtain root where r: "m_trie_root cfg = Some root" "\<And>q. trie_route root q = plain_at (m_routes cfg) q"
    using build_trie_lookup [of cfg] bt by metis
  have "plain_at (m_routes cfg) ''/'' \<noteq> None"
    using d by (auto simp only: plain_at_def last_idx_None has_default_def)
  then have "trie_route root (take 1 (CHR ''/'' # p)) \<noteq> None"
    by (simp only: r(2)) simp
  then have "trie_walk root None (CHR ''/'' # p) \<noteq> None"
    using trie_walk_deepest [of "CHR ''/'' # p" root None]
    by (metis One_nat_def Suc_leI length_greater_0_conv list.discI zero_less_one)
  with r(1) show ?thesis by (auto simp: match_route_def split: option.splits)
qed

text \<open>
  C4: After any sequence of setting the path, loading and reloading, with any files and any
  resolver, the configuration is sound: \<open>match_route\<close> never points outside the routes, and finds
  nothing before the first successful load; from then on every path that starts with a slash has a
  route; every route has targets; the limit of the body and the three timeouts are positive, and the
  number of requests a second is not negative (0 stands for no limit).
\<close>

theorem config_run_sound:
  assumes "foldl config_step (GatewayConfig_init, jwt_cache_init) ops = (cfg, cache)"
  shows "(\<forall>path i. match_route cfg path = Some i \<longrightarrow> i < length (m_routes cfg) \<and> m_inited cfg) \<and>
    (m_inited cfg \<longrightarrow> (\<forall>p. match_route cfg (CHR ''/'' # p) \<noteq> None)) \<and>
    (\<forall>r \<in> set (m_routes cfg). targets r \<noteq> []) \<and>
    0 < m_max_body_size cfg \<and> 0 < m_timeout_connect cfg \<and> 0 < m_timeout_send cfg \<and>
    0 < m_timeout_recv cfg \<and> 0 \<le> m_max_qps cfg \<and> lru_ok cache"
proof -
  have ok: "config_ok (cfg, cache)"
    using config.run_inv [OF config_init_ok, of ops] assms by simp
  then have "(\<forall>r \<in> set (m_routes cfg). targets r \<noteq> []) \<and>
    0 < m_max_body_size cfg \<and> 0 < m_timeout_connect cfg \<and> 0 < m_timeout_send cfg \<and>
    0 < m_timeout_recv cfg \<and> 0 \<le> m_max_qps cfg \<and> lru_ok cache"
    by (auto simp: config_ok_def route_ok_def int_setting_ok_def)
  with match_route_ok [OF ok] match_route_default [OF ok] show ?thesis by blast
qed

definition sample_file :: "string \<Rightarrow> string option" where
  "sample_file p = (if p = ''g.conf'' then Some (''qps 5'' @ [chr_lf] @ ''route / h:1,h:2'' @ [chr_lf]) else None)"

definition no_hosts :: gai where
  "no_hosts node service hints = None"

lemma sample_load:
  obtains cfg cache where
    "load_from_file sample_file no_hosts ''g.conf'' (GatewayConfig_init, jwt_cache_init) = (True, cfg, cache)"
proof -
  have "fst (load_from_file sample_file no_hosts ''g.conf'' (GatewayConfig_init, jwt_cache_init))"
    by code_simp
  then show thesis
    using that by (cases "load_from_file sample_file no_hosts ''g.conf'' (GatewayConfig_init, jwt_cache_init)") auto
qed

theorem config_run_sound_witness:
  "\<exists>cfg cache. foldl config_step (GatewayConfig_init, jwt_cache_init) [Load sample_file no_hosts ''g.conf''] = (cfg, cache) \<and>
     match_route cfg ''/x'' \<noteq> None"
proof -
  obtain cfg cache where l: "load_from_file sample_file no_hosts ''g.conf'' (GatewayConfig_init, jwt_cache_init) = (True, cfg, cache)"
    by (rule sample_load)
  then have s: "foldl config_step (GatewayConfig_init, jwt_cache_init) [Load sample_file no_hosts ''g.conf''] = (cfg, cache)"
    by simp
  have "m_inited cfg" using load_success [OF l] by (auto simp: publish_def)
  with config_run_sound [OF s] s show ?thesis by blast
qed

theorem reload_idempotent_witness:
  "\<exists>cfg cache. load_from_file sample_file no_hosts ''g.conf'' (GatewayConfig_init, jwt_cache_init) = (True, cfg, cache) \<and>
     reload sample_file no_hosts (cfg, cache) = (True, cfg, lru_new 10000)"
proof -
  obtain cfg cache where l: "load_from_file sample_file no_hosts ''g.conf'' (GatewayConfig_init, jwt_cache_init) = (True, cfg, cache)"
    by (rule sample_load)
  from reload_idempotent [OF l, of cache] l show ?thesis by auto
qed

definition cache_kept :: "load_vars \<Rightarrow> load_vars \<Rightarrow> bool" where
  "cache_kept v w \<longleftrightarrow> lv_cache w = lv_cache v \<or> lru_list (lv_cache w) = []"

lemma cache_kept_if: "cache_kept v x \<Longrightarrow> cache_kept v y \<Longrightarrow> cache_kept v (if b then x else y)"
  by simp

lemma load_line_cache: "cache_kept v (load_line l v)"
  unfolding load_line_def Let_def split_def
  by (intro cache_kept_if; simp add: cache_kept_def frame_simps jwt_set_capacity_def lru_new_def)

lemma load_lines_cache: "cache_kept v (load_lines ls v)"
proof (induction ls arbitrary: v)
  case Nil
  then show ?case by (simp add: load_lines_def cache_kept_def)
next
  case (Cons l ls)
  from Cons [of "load_line l v"] load_line_cache [of v l] show ?case
    by (auto simp: load_lines_def cache_kept_def)
qed

lemma load_from_file_outcome:
  assumes "load_from_file fs gai path (cfg, cache) = (ok, cfg', cache')"
  shows "(ok \<longrightarrow> cache' = lru_new 10000 \<and> m_config_path cfg' = path \<and> m_inited cfg' \<and>
      has_default (m_routes cfg') \<and> (m_max_qps cfg' = m_max_qps cfg \<or> 0 < m_max_qps cfg')) \<and>
    (\<not> ok \<longrightarrow> cfg' = cfg \<and> (cache' = cache \<or> lru_list cache' = []))"
proof (cases ok)
  case True
  with assms have l: "load_from_file fs gai path (cfg, cache) = (True, cfg', cache')" by simp
  from load_success [OF l] True show ?thesis by (auto simp: publish_def has_default_def)
next
  case False
  with assms show ?thesis
    using load_lines_cache [where v = "load_init cfg cache"]
    by (auto simp: cache_kept_def load_from_file_def Let_def load_init_def split: option.splits if_splits)
qed

text \<open>
  What a load leaves behind. A load that fails, because the file does not open, has no route or
  no default route, leaves the configuration as it was; the cache of tokens may be emptied all the
  same. One that succeeds empties the cache and always gives it the capacity 10000, whatever
  \<open>jwt_cache_capacity\<close> the file asks for, and keeps the old rate limit when the file names none.
\<close>

theorem load_outcome:
  assumes "load_from_file fs gai path (cfg, cache) = (ok, cfg', cache')"
  shows "(ok \<longrightarrow> cache' = lru_new 10000 \<and> m_config_path cfg' = path \<and> m_inited cfg' \<and>
      has_default (m_routes cfg') \<and> (m_max_qps cfg' = m_max_qps cfg \<or> 0 < m_max_qps cfg')) \<and>
    (\<not> ok \<longrightarrow> cfg' = cfg \<and> (cache' = cache \<or> lru_list cache' = []))"
  using assms by (rule load_from_file_outcome)

theorem load_outcome_witness:
  "\<exists>cfg cache. load_from_file sample_file no_hosts ''g.conf'' (GatewayConfig_init, jwt_cache_init) = (True, cfg, cache) \<and>
     cache = lru_new 10000"
proof -
  obtain cfg cache where l: "load_from_file sample_file no_hosts ''g.conf'' (GatewayConfig_init, jwt_cache_init) = (True, cfg, cache)"
    by (rule sample_load)
  from load_outcome [OF l] l show ?thesis by auto
qed

end
