(* ===== verification/Gw_Filters.thy ===== *)
theory Gw_Filters
  imports Gw_Config
begin

text \<open>
  \<open>src/gateway/gateway_filter_chain.cpp\<close>: the blacklist, the rate limit, the two kinds of
  authentication, and the chain that runs them in this order. A filter's answer is
  \<open>Inr ()\<close> for \<open>true\<close> and \<open>Inl (status, body)\<close> for \<open>false\<close>. The clock is read in up to
  three places of a request, so a \<open>clock\<close> holds three readings in seconds. The filters'
  state is the rate limiter's window and the shared cache of tokens. \<open>Inl Undefined_behaviour\<close>
  is a push into a cache of capacity 0, which no run reaches.
\<close>

section \<open>State and requests\<close>

record request_context =
  ctx_method :: string
  ctx_path :: string
  ctx_version :: string
  client_address :: string
  raw_request :: string

record clock =
  c_time :: int
  c_now :: int
  c_verify :: int

record rate_limit =
  m_last_sec :: int
  m_count :: int

definition rate_limit_init :: rate_limit where
  "rate_limit_init = \<lparr>m_last_sec = 0, m_count = 0\<rparr>"

record filter_state =
  fs_rate :: rate_limit
  fs_cache :: jwt_cache

type_synonym verdict = "int \<times> string + unit"

definition unauthorized :: verdict where
  "unauthorized = Inl (HTTP_UNAUTHORIZED, ''unauthorized'' @ [chr_lf])"

section \<open>The filters\<close>

definition blacklist_apply :: "gateway_config \<Rightarrow> request_context \<Rightarrow> verdict" where
  "blacklist_apply cfg ctx =
     (if m_blacklist cfg = [] then Inr ()
      else if client_address ctx = [] then Inr ()
      else if client_address ctx \<in> set (m_blacklist cfg) then Inl (HTTP_FORBIDDEN, ''blocked'' @ [chr_lf])
      else Inr ())"

text \<open>
  One call that nobody interrupts. \<open>m_count\<close> is an \<open>int\<close>. The code takes no lock here: what calls on several
  threads do to each other is in \<open>Rate_Race\<close>.
\<close>

definition rate_apply :: "gateway_config \<Rightarrow> int \<Rightarrow> rate_limit \<Rightarrow> verdict \<times> rate_limit" where
  "rate_apply cfg now r =
     (if m_max_qps cfg \<le> 0 then (Inr (), r)
      else
        (let r = (if now \<noteq> m_last_sec r then \<lparr>m_last_sec = now, m_count = 0\<rparr> else r);
             r = r\<lparr>m_count := i32 (m_count r + 1)\<rparr>
         in if m_count r > m_max_qps cfg
            then (Inl (HTTP_TOO_MANY_REQUESTS, ''too many requests'' @ [chr_lf]), r)
            else (Inr (), r)))"

text \<open>The value of \<open>Authorization:\<close> less a leading \<open>Bearer\<close>; \<open>None\<close> when it is missing.\<close>

definition bearer_token :: "string \<Rightarrow> string option" where
  "bearer_token raw =
     (case header_value raw ''Authorization:'' of
        None \<Rightarrow> None
      | Some val \<Rightarrow>
          Some (if prefix ''Bearer '' val then substr val (length ''Bearer '') None else val))"

definition jwt_auth ::
  "crypto \<Rightarrow> gateway_config \<Rightarrow> clock \<Rightarrow> request_context \<Rightarrow> jwt_cache \<Rightarrow> ub + verdict \<times> jwt_cache" where
  "jwt_auth cr cfg clk ctx cache =
     (case bearer_token (raw_request ctx) of
        None \<Rightarrow> Inr (unauthorized, cache)
      | Some token \<Rightarrow>
         (case is_valid_cached token (c_now clk) cache of
            (True, cache') \<Rightarrow> Inr (Inr (), cache')
          | (False, cache') \<Rightarrow>
             (case verify_hs256 cr token (m_jwt_secret cfg) (m_jwt_issuer cfg) (m_jwt_audience cfg) (c_verify clk) of
                Inl err \<Rightarrow> Inr (unauthorized, cache')
              | Inr _ \<Rightarrow>
                 (let exp = (case get_exp cr token of None \<Rightarrow> 0 | Some e \<Rightarrow> e)
                  in if exp > 0 then
                       (case put_valid token exp cache' of
                          None \<Rightarrow> Inl Undefined_behaviour
                        | Some cache'' \<Rightarrow> Inr (Inr (), cache''))
                     else Inr (Inr (), cache')))))"

definition route_auth :: "gateway_config \<Rightarrow> request_context \<Rightarrow> verdict" where
  "route_auth cfg ctx =
     (case match_route cfg (ctx_path ctx) of
        None \<Rightarrow> Inr ()
      | Some rc \<Rightarrow>
          (let required = rc_required_token (m_routes cfg ! rc)
           in if required = [] then Inr ()
              else (case bearer_token (raw_request ctx) of
                 None \<Rightarrow> unauthorized
               | Some client_token \<Rightarrow> if client_token \<noteq> required then unauthorized else Inr ())))"

definition auth_apply ::
  "crypto \<Rightarrow> gateway_config \<Rightarrow> clock \<Rightarrow> request_context \<Rightarrow> jwt_cache \<Rightarrow> ub + verdict \<times> jwt_cache" where
  "auth_apply cr cfg clk ctx cache =
     (if m_jwt_enabled cfg then jwt_auth cr cfg clk ctx cache else Inr (route_auth cfg ctx, cache))"

section \<open>The chain\<close>

datatype gateway_filter = BlacklistFilter | RateLimitFilter | AuthFilter

fun filter_apply ::
  "crypto \<Rightarrow> gateway_config \<Rightarrow> clock \<Rightarrow> request_context \<Rightarrow> gateway_filter \<Rightarrow> filter_state \<Rightarrow>
     ub + verdict \<times> filter_state" where
  "filter_apply cr cfg clk ctx BlacklistFilter s = Inr (blacklist_apply cfg ctx, s)"
| "filter_apply cr cfg clk ctx RateLimitFilter s =
     (case rate_apply cfg (c_time clk) (fs_rate s) of (v, r) \<Rightarrow> Inr (v, s\<lparr>fs_rate := r\<rparr>))"
| "filter_apply cr cfg clk ctx AuthFilter s =
     (case auth_apply cr cfg clk ctx (fs_cache s) of
        Inl e \<Rightarrow> Inl e | Inr (v, c) \<Rightarrow> Inr (v, s\<lparr>fs_cache := c\<rparr>))"

fun chain_loop ::
  "crypto \<Rightarrow> gateway_config \<Rightarrow> clock \<Rightarrow> request_context \<Rightarrow> gateway_filter list \<Rightarrow> filter_state \<Rightarrow>
     ub + verdict \<times> filter_state" where
  "chain_loop cr cfg clk ctx [] s = Inr (Inr (), s)"
| "chain_loop cr cfg clk ctx (f # fs) s =
     (case filter_apply cr cfg clk ctx f s of
        Inl e \<Rightarrow> Inl e
      | Inr (Inl reject, s') \<Rightarrow> Inr (Inl reject, s')
      | Inr (Inr _, s') \<Rightarrow> chain_loop cr cfg clk ctx fs s')"

definition default_filters :: "gateway_filter list" where
  "default_filters = [BlacklistFilter, RateLimitFilter, AuthFilter]"

definition chain_apply ::
  "crypto \<Rightarrow> gateway_config \<Rightarrow> clock \<Rightarrow> request_context \<Rightarrow> filter_state \<Rightarrow> ub + verdict \<times> filter_state" where
  "chain_apply cr cfg clk ctx s = chain_loop cr cfg clk ctx default_filters s"

text \<open>What a filter that rejects answers: one of three statuses, each with a text.\<close>

lemma chain_rejection:
  assumes "chain_apply cr cfg clk ctx s = Inr (Inl (status, body), s')"
  shows "(status, body) \<in> {(403, ''blocked'' @ [chr_lf]), (429, ''too many requests'' @ [chr_lf]),
    (401, ''unauthorized'' @ [chr_lf])}"
proof -
  have b: "blacklist_apply cfg ctx = Inl (st, b) \<Longrightarrow> (st, b) = (403, ''blocked'' @ [chr_lf])" for st b
    by (auto simp: blacklist_apply_def http_codes split: if_splits)
  have r: "rate_apply cfg now r = (Inl (st, b), r') \<Longrightarrow> (st, b) = (429, ''too many requests'' @ [chr_lf])" for st b r r' now
    by (auto simp: rate_apply_def Let_def http_codes split: if_splits)
  have a: "auth_apply cr cfg clk ctx c = Inr (Inl (st, b), c') \<Longrightarrow> (st, b) = (401, ''unauthorized'' @ [chr_lf])" for st b c c'
    by (auto simp: auth_apply_def jwt_auth_def route_auth_def unauthorized_def http_codes Let_def
        split: if_splits option.splits sum.splits prod.splits bool.splits)
  show ?thesis
    using assms b r a
    by (auto simp: chain_apply_def default_filters_def split: sum.splits prod.splits)
qed

section \<open>The blacklist\<close>

text \<open>
  The client's address is compared as the text of its socket address, port included. So a
  blacklist whose entries have no colon, such as the \<open>192.168.1.100\<close> of the configuration that
  comes with the program, blocks no IP client, whatever its address is.
\<close>

theorem blacklist_without_port_inert:
  assumes "is_ip a" and "client_address ctx = toString a"
    and "\<forall>entry \<in> set (m_blacklist cfg). CHR '':'' \<notin> set entry"
  shows "blacklist_apply cfg ctx = Inr ()"
  using ip_text_colon [OF assms(1)] assms(2,3) by (auto simp: blacklist_apply_def)

section \<open>The rate limit\<close>

fun rate_run :: "gateway_config \<Rightarrow> rate_limit \<Rightarrow> int list \<Rightarrow> (int \<times> bool) list \<times> rate_limit" where
  "rate_run cfg r [] = ([], r)"
| "rate_run cfg r (t # ts) =
     (let (v, r') = rate_apply cfg t r; (out, r'') = rate_run cfg r' ts
      in ((t, v = Inr ()) # out, r''))"

definition passed :: "(int \<times> bool) list \<Rightarrow> int \<Rightarrow> nat" where
  "passed out t = length (filter (\<lambda>x. x = (t, True)) out)"

definition asked :: "int list \<Rightarrow> int \<Rightarrow> nat" where
  "asked ts t = length (filter (\<lambda>x. x = t) ts)"

lemma rate_run_snoc:
  "rate_run cfg r (ts @ [t]) =
     (let (out, r') = rate_run cfg r ts; (v, r'') = rate_apply cfg t r'
      in (out @ [(t, v = Inr ())], r''))"
  by (induction ts arbitrary: r) (auto simp: Let_def split: prod.splits)

lemma asked_snoc: "asked (xs @ [x]) t = asked xs t + (if t = x then 1 else 0)"
  by (simp add: asked_def)

lemma passed_snoc: "passed (out @ [(x, b)]) t = passed out t + (if t = x \<and> b then 1 else 0)"
  by (simp add: passed_def)

lemma sorted_le_last: "sorted xs \<Longrightarrow> y \<in> set xs \<Longrightarrow> y \<le> last xs"
  by (induction xs) auto

text \<open>The answers as they should be: a request passes when fewer than the limit came before it in its second.\<close>

definition rate_answers :: "gateway_config \<Rightarrow> int list \<Rightarrow> (int \<times> bool) list" where
  "rate_answers cfg ts = map (\<lambda>i. (ts ! i, int (asked (take i ts) (ts ! i)) < m_max_qps cfg)) [0..<length ts]"

lemma rate_answers_snoc: "rate_answers cfg (ts @ [t]) = rate_answers cfg ts @ [(t, int (asked ts t) < m_max_qps cfg)]"
  by (simp add: rate_answers_def nth_append)

lemma asked_mono: "asked xs t \<le> asked (xs @ ys) t"
  by (simp add: asked_def)

text \<open>The window's count is the number of requests of its second.\<close>

lemma rate_run_window:
  assumes "0 < m_max_qps cfg" and "sorted ts" and "ts \<noteq> []" and "0 < hd ts" and "\<And>t. asked ts t < 2 ^ 31"
    and "rate_run cfg rate_limit_init ts = (out, r)"
  shows "m_last_sec r = last ts \<and> m_count r = int (asked ts (last ts)) \<and> out = rate_answers cfg ts"
  using assms(2-6)
proof (induction ts arbitrary: out r rule: rev_induct)
  case Nil
  then show ?case by simp
next
  case (snoc x xs)
  obtain out' r' where run: "rate_run cfg rate_limit_init xs = (out', r')" by fastforce
  obtain v r'' where v: "rate_apply cfg x r' = (v, r'')" by fastforce
  have res: "out = out' @ [(x, v = Inr ())]" "r = r''"
    using snoc.prems(5) run v by (simp_all add: rate_run_snoc)
  have few: "int (asked xs x) + 1 < 2 ^ 31" using snoc.prems(4) [of x] by (simp add: asked_snoc)
  show ?case
  proof (cases "xs = []")
    case True
    then have "r' = rate_limit_init" "out' = []" using run by auto
    with True v res snoc.prems(3) assms(1) show ?thesis
      by (auto simp: rate_apply_def rate_limit_init_def Let_def asked_def rate_answers_def)
  next
    case False
    have s: "sorted xs" "\<forall>y \<in> set xs. y \<le> x" using snoc.prems(1) by (auto simp: sorted_append)
    have "asked xs t < 2 ^ 31" for t using snoc.prems(4) [of t] asked_mono [of xs t "[x]"] by simp
    then have IH: "m_last_sec r' = last xs" "m_count r' = int (asked xs (last xs))" "out' = rate_answers cfg xs"
      using snoc.IH [OF s(1) False _ _ run] snoc.prems(3) False by auto
    show ?thesis
    proof (cases "x = last xs")
      case True
      with v IH(1,2) assms(1) res few show ?thesis
        by (auto simp: rate_apply_def Let_def asked_snoc rate_answers_snoc IH(3) split: if_splits)
    next
      case new: False
      have "last xs < x" using s(2) new False last_in_set by force
      then have "x \<notin> set xs" using sorted_le_last [OF s(1), of x] by auto
      then have "asked xs x = 0" by (auto simp: asked_def filter_empty_conv)
      with v IH(1,2) assms(1) res new show ?thesis
        by (auto simp: rate_apply_def Let_def asked_snoc rate_answers_snoc IH(3) split: if_splits)
    qed
  qed
qed

lemma rate_answers_passed:
  assumes "0 < m_max_qps cfg"
  shows "passed (rate_answers cfg ts) t = min (asked ts t) (nat (m_max_qps cfg))"
proof (induction ts rule: rev_induct)
  case Nil
  then show ?case by (simp add: passed_def asked_def rate_answers_def)
next
  case (snoc x xs)
  then show ?case using assms by (auto simp: rate_answers_snoc passed_snoc asked_snoc)
qed

lemma asked_le: "asked ts t \<le> length ts"
  by (simp add: asked_def)

text \<open>
  C11: With a positive limit, a clock that does not go back, and less than 2 ^ 31 requests in each second, of
  requests that go through the rate filter one after the other exactly those pass before which fewer than
  \<open>limit\<close> came in the same second: the first \<open>limit\<close> of every second, and all of them when there are fewer.
\<close>

theorem rate_limit_per_second:
  assumes "0 < m_max_qps cfg" and "sorted ts" and "\<forall>t \<in> set ts. 0 < t" and "\<forall>t. asked ts t < 2 ^ 31"
  shows "fst (rate_run cfg rate_limit_init ts) =
      map (\<lambda>i. (ts ! i, int (asked (take i ts) (ts ! i)) < m_max_qps cfg)) [0..<length ts] \<and>
    passed (fst (rate_run cfg rate_limit_init ts)) t = min (asked ts t) (nat (m_max_qps cfg))"
proof -
  have "fst (rate_run cfg rate_limit_init ts) = rate_answers cfg ts"
  proof (cases "ts = []")
    case False
    obtain out r where run: "rate_run cfg rate_limit_init ts = (out, r)" by fastforce
    with rate_run_window [OF assms(1,2) False _ _ run] assms(3,4) False show ?thesis by simp
  qed (simp add: rate_answers_def)
  then show ?thesis using rate_answers_passed [OF assms(1), of ts t] by (simp add: rate_answers_def)
qed

theorem blacklist_without_port_inert_witness:
  "blacklist_apply (GatewayConfig_init\<lparr>m_blacklist := [''192.168.1.100'']\<rparr>)
     \<lparr>ctx_method = [], ctx_path = [], ctx_version = [],
      client_address = toString (IPv4Address (IPv4_new 0xC0A80164 4711)), raw_request = []\<rparr> = Inr ()"
  by (rule blacklist_without_port_inert [of "IPv4Address (IPv4_new 0xC0A80164 4711)"])
    (simp_all add: is_ip_def)

theorem rate_limit_per_second_witness:
  "fst (rate_run (GatewayConfig_init\<lparr>m_max_qps := 2\<rparr>) rate_limit_init [7, 7, 7, 8]) = [(7, True), (7, True), (7, False), (8, True)]"
    (is "fst (rate_run ?cfg _ ?ts) = _")
proof -
  have "asked ?ts t < 2 ^ 31" for t
    by (rule le_less_trans [OF asked_le]) simp
  then have few: "\<forall>t. asked ?ts t < 2 ^ 31" by blast
  have "0 < m_max_qps ?cfg" "sorted ?ts" "\<forall>t \<in> set ?ts. 0 < t" by simp_all
  from conjunct1 [OF rate_limit_per_second [OF this few]]
  have "fst (rate_run ?cfg rate_limit_init ?ts) =
    map (\<lambda>i. (?ts ! i, int (asked (take i ?ts) (?ts ! i)) < m_max_qps ?cfg)) [0..<length ?ts]" .
  also have "\<dots> = [(7, True), (7, True), (7, False), (8, True)]" by (simp add: upt_rec asked_def)
  finally show ?thesis .
qed

section \<open>Authentication with the cache\<close>

definition verifies :: "crypto \<Rightarrow> gateway_config \<Rightarrow> string \<Rightarrow> int \<Rightarrow> bool" where
  "verifies cr cfg token t \<longleftrightarrow>
     verify_hs256 cr token (m_jwt_secret cfg) (m_jwt_issuer cfg) (m_jwt_audience cfg) t = Inr ()"

text \<open>What every entry of the cache is: a token that verified once, with its own expiry.\<close>

definition entry_sound :: "crypto \<Rightarrow> gateway_config \<Rightarrow> string \<Rightarrow> int \<Rightarrow> bool" where
  "entry_sound cr cfg token e \<longleftrightarrow> get_exp cr token = Some e \<and> (\<exists>t. verifies cr cfg token t)"

definition cache_sound :: "crypto \<Rightarrow> gateway_config \<Rightarrow> jwt_cache \<Rightarrow> bool" where
  "cache_sound cr cfg c \<longleftrightarrow> lru_ok c \<and> (\<forall>(token, e) \<in> set (lru_alist c). entry_sound cr cfg token e)"

lemma cache_sound_all: "cache_sound cr cfg c \<longleftrightarrow> lru_cache.all_entries (entry_sound cr cfg) c"
  by (simp add: cache_sound_def lru_cache.all_entries_def)

lemma cache_sound_empty: "lru_ok c \<Longrightarrow> lru_list c = [] \<Longrightarrow> cache_sound cr cfg c"
  by (simp add: cache_sound_def lru_alist_def)

lemma is_valid_cached_sound:
  assumes "cache_sound cr cfg c" and "is_valid_cached token now c = (hit, c')"
  shows "cache_sound cr cfg c' \<and> (hit \<longrightarrow> verifies cr cfg token now)"
proof -
  have c': "c' = snd (lru_get token c)"
    and hit: "hit \<longleftrightarrow> fst (fst (lru_get token c)) \<and> now < snd (fst (lru_get token c))"
    using assms(2) by (auto simp: is_valid_cached_def split: prod.splits if_splits)
  have all: "lru_cache.all_entries (entry_sound cr cfg) c"
    using assms(1) by (simp add: cache_sound_all)
  have "verifies cr cfg token now" if hit
  proof -
    have "entry_sound cr cfg token (snd (fst (lru_get token c)))"
      using lru_cache.all_entries_hit [OF all] that hit by simp
    with that hit show ?thesis
      unfolding entry_sound_def verifies_def by (meson less_imp_le verify_later)
  qed
  with lru_cache.all_entries_get [OF all] c' show ?thesis by (simp add: cache_sound_all)
qed

lemma put_valid_sound:
  assumes "cache_sound cr cfg c" and "entry_sound cr cfg token e"
  obtains c' where "put_valid token e c = Some c'" and "cache_sound cr cfg c'"
  using lru_cache.all_entries_push [of "entry_sound cr cfg" c token e] assms that
  by (auto simp: put_valid_def cache_sound_all)

definition auth_token_ok :: "crypto \<Rightarrow> gateway_config \<Rightarrow> request_context \<Rightarrow> int \<Rightarrow> bool" where
  "auth_token_ok cr cfg ctx t \<longleftrightarrow>
     (case bearer_token (raw_request ctx) of None \<Rightarrow> False | Some token \<Rightarrow> verifies cr cfg token t)"

lemma jwt_auth_sound:
  assumes "cache_sound cr cfg c"
  obtains v c' where "jwt_auth cr cfg clk ctx c = Inr (v, c')" and "cache_sound cr cfg c'"
    and "v = Inr () \<or> v = unauthorized"
    and "v = Inr () \<Longrightarrow> auth_token_ok cr cfg ctx (c_now clk) \<or> auth_token_ok cr cfg ctx (c_verify clk)"
    and "auth_token_ok cr cfg ctx (c_verify clk) \<Longrightarrow> v = Inr ()"
proof (cases "bearer_token (raw_request ctx)")
  case None
  then show thesis using that [of unauthorized c] assms
    by (simp add: jwt_auth_def auth_token_ok_def unauthorized_def)
next
  case (Some token)
  obtain hit c1 where g: "is_valid_cached token (c_now clk) c = (hit, c1)" by fastforce
  from is_valid_cached_sound [OF assms g]
  have c1: "cache_sound cr cfg c1" and hit: "hit \<Longrightarrow> verifies cr cfg token (c_now clk)" by auto
  show thesis
  proof (cases hit)
    case True
    then show thesis using that [of "Inr ()" c1] g c1 hit Some
      by (simp add: jwt_auth_def auth_token_ok_def)
  next
    case miss: False
    show thesis
    proof (cases "verifies cr cfg token (c_verify clk)")
      case False
      then obtain err where "verify_hs256 cr token (m_jwt_secret cfg) (m_jwt_issuer cfg) (m_jwt_audience cfg) (c_verify clk) = Inl err"
        unfolding verifies_def by (metis old.sum.exhaust old.unit.exhaust)
      with False show thesis using that [of unauthorized c1] g c1 miss Some
        by (simp add: jwt_auth_def auth_token_ok_def unauthorized_def)
    next
      case ok: True
      then have v: "verify_hs256 cr token (m_jwt_secret cfg) (m_jwt_issuer cfg) (m_jwt_audience cfg) (c_verify clk) = Inr ()"
        by (simp add: verifies_def)
      show thesis
      proof (cases "\<exists>e > 0. get_exp cr token = Some e")
        case True
        then obtain e where e: "get_exp cr token = Some e" "0 < e" by blast
        with ok have "entry_sound cr cfg token e" by (auto simp: entry_sound_def)
        from put_valid_sound [OF c1 this] obtain c2 where "put_valid token e c1 = Some c2" "cache_sound cr cfg c2" .
        then show thesis using that [of "Inr ()" c2] g miss Some e v ok
          by (simp add: jwt_auth_def auth_token_ok_def)
      next
        case False
        then have "\<not> 0 < (case get_exp cr token of None \<Rightarrow> 0 | Some e \<Rightarrow> e)" by (auto split: option.splits)
        then show thesis using that [of "Inr ()" c1] g c1 miss Some v ok
          by (simp add: jwt_auth_def auth_token_ok_def)
      qed
    qed
  qed
qed

end
