(* ===== verification/Gw_Router.thy ===== *)
theory Gw_Router
  imports Gw_Config
begin

text \<open>
  \<open>src/gateway/gateway_router.cpp\<close>: the choice of the upstream of a request. \<open>s_index\<close>
  is one 64-bit counter for the whole process. \<open>fetch_add\<close> gives the old value and adds 1
  with wrap-around.
\<close>

definition pick_upstream :: "gateway_config \<Rightarrow> gai \<Rightarrow> u64 \<Rightarrow> string \<Rightarrow> address option \<times> u64" where
  "pick_upstream cfg gai s_index path =
     (case match_route cfg path of
        None \<Rightarrow> (None, s_index)
      | Some k \<Rightarrow>
         (let rc = m_routes cfg ! k
          in if resolved_targets rc = [] \<and> targets rc = [] then (None, s_index)
             else
              (let i = unat s_index; s_index' = s_index + 1
               in if resolved_targets rc \<noteq> []
                  then (Some (resolved_targets rc ! (i mod length (resolved_targets rc))), s_index')
                  else (LookupAnyIPAddress gai (targets rc ! (i mod length (targets rc))) default_hints,
                        s_index'))))"

text \<open>The choices of a sequence of requests.\<close>

fun picks :: "gateway_config \<Rightarrow> gai \<Rightarrow> u64 \<Rightarrow> string list \<Rightarrow> address option list \<times> u64" where
  "picks cfg gai i [] = ([], i)"
| "picks cfg gai i (path # paths) =
     (let (a, i') = pick_upstream cfg gai i path; (as, i'') = picks cfg gai i' paths in (a # as, i''))"

definition route_targets :: "gateway_config \<Rightarrow> string \<Rightarrow> address list" where
  "route_targets cfg path =
     (case match_route cfg path of None \<Rightarrow> [] | Some k \<Rightarrow> resolved_targets (m_routes cfg ! k))"

lemma pick_upstream_resolved:
  "route_targets cfg path \<noteq> [] \<Longrightarrow>
     pick_upstream cfg gai i path =
       (Some (route_targets cfg path ! (unat i mod length (route_targets cfg path))), i + 1)"
  by (auto simp: pick_upstream_def route_targets_def Let_def split: option.splits)

lemma unat_Suc_no_wrap: "unat (i :: u64) + 1 < 2 ^ 64 \<Longrightarrow> unat (i + 1) = unat i + 1"
  by (simp add: unat_word_ariths)

lemma picks_replicate:
  assumes "route_targets cfg path \<noteq> []" and "unat i + n \<le> 2 ^ 64"
  shows "fst (picks cfg gai i (replicate n path)) =
     map (\<lambda>j. Some (route_targets cfg path ! ((unat i + j) mod length (route_targets cfg path)))) [0..<n]"
  using assms(2)
proof (induction n arbitrary: i)
  case 0
  then show ?case by simp
next
  case (Suc n)
  show ?case
  proof (cases n)
    case 0
    then show ?thesis by (simp add: pick_upstream_resolved [OF assms(1)])
  next
    case (Suc m)
    with Suc.prems have i: "unat (i + 1) = unat i + 1" by (intro unat_Suc_no_wrap) simp
    with Suc.prems have "unat (i + 1) + n \<le> 2 ^ 64" by simp
    from Suc.IH [OF this] i show ?thesis
      by (simp add: pick_upstream_resolved [OF assms(1)] split_def upt_conv_Cons map_Suc_upt [symmetric]
          comp_def del: upt_Suc)
  qed
qed

text \<open>
  When nothing else is requested and the counter does not wrap, as many consecutive requests
  of one route as it has resolved targets go once to each of them, in the order of the file,
  starting where the counter stands.
\<close>

theorem round_robin_rotation:
  assumes "route_targets cfg path \<noteq> []"
    and "unat i + length (route_targets cfg path) \<le> 2 ^ 64"
  shows "fst (picks cfg gai i (replicate (length (route_targets cfg path)) path)) =
     map Some (rotate (unat i) (route_targets cfg path))"
  unfolding picks_replicate [OF assms] using assms(1)
  by (intro nth_equalityI) (simp_all add: nth_rotate)

lemma parity_step:
  "(b :: nat) mod 2 = (c + 1) mod 2 \<Longrightarrow> a mod 2 = (b + 1) mod 2 \<Longrightarrow> a mod 2 = c mod 2"
  by (auto simp: mod_Suc split: if_splits)

text \<open>
  The counter is shared by all routes, and so the rotation is not one per route: when requests
  of two routes with two targets each alternate, all requests of either route go to one and the
  same target, the other one is never chosen.
\<close>

theorem shared_counter_starves:
  assumes "length (route_targets cfg a) = 2" and "length (route_targets cfg b) = 2"
  shows "fst (picks cfg gai i (concat (replicate m [a, b]))) =
     concat (replicate m [Some (route_targets cfg a ! (unat i mod 2)),
                          Some (route_targets cfg b ! ((unat i + 1) mod 2))])"
proof (induction m arbitrary: i)
  case 0
  then show ?case by simp
next
  case (Suc m)
  have ne: "route_targets cfg a \<noteq> []" "route_targets cfg b \<noteq> []" using assms by auto
  have m1: "unat (k + 1) mod 2 = (unat k + 1) mod 2" for k :: u64
    by (simp add: unat_word_ariths mod_mod_cancel)
  have m2: "unat (i + 1 + 1) mod 2 = unat i mod 2"
    using m1 [of i] m1 [of "i + 1"] by (rule parity_step)
  have "(unat (i + 1 + 1) + 1) mod 2 = (unat i + 1) mod 2" using m2 by (metis mod_add_left_eq)
  with Suc.IH [of "i + 1 + 1"] m1 [of i] m2 show ?case
    by (simp add: pick_upstream_resolved [OF ne(1)] pick_upstream_resolved [OF ne(2)] split_def assms)
qed

definition two_routes :: gateway_config where
  "two_routes = build_trie (GatewayConfig_init\<lparr>m_routes :=
     [\<lparr>path_prefix = ''/'', targets = [''h:1'', ''h:2''],
       resolved_targets = [IPv4Address (IPv4_new 1 1), IPv4Address (IPv4_new 1 2)], exact = False, rc_required_token = []\<rparr>,
      \<lparr>path_prefix = ''/a'', targets = [''h:3'', ''h:4''],
       resolved_targets = [IPv4Address (IPv4_new 1 3), IPv4Address (IPv4_new 1 4)], exact = False, rc_required_token = []\<rparr>]\<rparr>)"

lemma two_routes_match: "match_route two_routes ''/'' = Some 0" "match_route two_routes ''/a'' = Some 1"
  by (simp_all add: two_routes_def match_route_def build_trie_def build_step_def trie_empty_def
      enumerate_eq_zip)

lemma two_routes_targets:
  "route_targets two_routes ''/'' = [IPv4Address (IPv4_new 1 1), IPv4Address (IPv4_new 1 2)]"
  "route_targets two_routes ''/a'' = [IPv4Address (IPv4_new 1 3), IPv4Address (IPv4_new 1 4)]"
  by (simp_all add: route_targets_def two_routes_match) (simp_all add: two_routes_def)

theorem round_robin_rotation_witness:
  "fst (picks two_routes no_hosts 1 [''/'', ''/'']) =
     [Some (IPv4Address (IPv4_new 1 2)), Some (IPv4Address (IPv4_new 1 1))]"
  using round_robin_rotation [of two_routes "''/''" 1 no_hosts]
  by (simp add: two_routes_targets rotate_def)

theorem shared_counter_starves_witness:
  "fst (picks two_routes no_hosts 0 [''/'', ''/a'', ''/'', ''/a'']) =
     [Some (IPv4Address (IPv4_new 1 1)), Some (IPv4Address (IPv4_new 1 4)),
      Some (IPv4Address (IPv4_new 1 1)), Some (IPv4Address (IPv4_new 1 4))]"
  using shared_counter_starves [of two_routes "''/''" "''/a''" no_hosts 0 2]
  by (simp add: two_routes_targets numeral_2_eq_2)

end
