(* ===== verification/Gw_Conn.thy ===== *)
theory Gw_Conn
  imports Gw_Filters Gw_Router
begin

text \<open>
  \<open>src/server/gateway_conn.cpp\<close>: reading one request, parsing its first line, and answering or
  forwarding it. A socket
  is modelled by what the process can see of it: what it will receive (\<open>so_in\<close>, one item per
  segment; an empty item is an orderly end, the end of the list an error or a timeout; so every stream
  ends, while in the code a peer that sends for ever is read and relayed for ever), how much
  each \<open>send\<close> takes (\<open>so_accept\<close>, a number that is not positive is a failure) and what has
  been sent (\<open>so_out\<close>). \<open>m_read_buf\<close> holds nothing between calls that is read again, so a
  read appends to \<open>m_request\<close>; the bounds of each \<open>recv\<close> are kept.
\<close>

section \<open>Sockets\<close>

record sock =
  so_valid :: bool
  so_connected :: bool
  so_in :: "string list"
  so_accept :: "int list"
  so_out :: string
  so_remote :: "address option"

text \<open>\<open>recv\<close> of at most \<open>n\<close> bytes; \<open>None\<close> is a result of 0 or less.\<close>

definition sock_recv :: "nat \<Rightarrow> sock \<Rightarrow> string option \<times> sock" where
  "sock_recv n s =
     (if \<not> so_connected s then (None, s)
      else case so_in s of
        [] \<Rightarrow> (None, s)
      | seg # segs \<Rightarrow>
          if seg = [] \<or> n = 0 then (None, s)
          else (Some (take n seg),
                s\<lparr>so_in := (if length seg \<le> n then segs else drop n seg # segs)\<rparr>))"

definition sock_send :: "string \<Rightarrow> sock \<Rightarrow> nat option \<times> sock" where
  "sock_send buf s =
     (if \<not> so_connected s then (None, s)
      else case so_accept s of
        [] \<Rightarrow> (None, s)
      | a # acc \<Rightarrow>
          if a \<le> 0 then (None, s\<lparr>so_accept := acc\<rparr>)
          else (let n = min (nat a) (length buf)
                in (Some n, s\<lparr>so_accept := acc, so_out := so_out s @ take n buf\<rparr>)))"

definition sock_close :: "sock \<Rightarrow> sock" where
  "sock_close s = s\<lparr>so_valid := False, so_connected := False\<rparr>"

text \<open>The \<open>while (left > 0)\<close> loops around \<open>send\<close>: whether everything was taken.\<close>

function send_loop :: "string \<Rightarrow> sock \<Rightarrow> bool \<times> sock" where
  "send_loop buf s =
     (if buf = [] then (True, s)
      else case sock_send buf s of
        (None, s') \<Rightarrow> (False, s')
      | (Some n, s') \<Rightarrow> send_loop (drop n buf) s')"
  by pat_completeness auto
termination
  by (relation "measure (\<lambda>(buf, s). length (so_accept s))")
     (auto simp: sock_send_def Let_def split: if_splits list.splits)

declare send_loop.simps [simp del]

section \<open>The connection\<close>

definition READ_BUFFER_SIZE :: nat where "READ_BUFFER_SIZE = 16 * 1024"

record gateway_conn =
  m_client :: "sock option"
  m_read_idx :: nat
  m_request :: string
  m_content_length :: int
  m_upstreams :: "(string \<times> sock) list"
  m_oversize :: bool

definition conn_default :: gateway_conn where
  "conn_default = \<lparr>m_client = None, m_read_idx = 0, m_request = [], m_content_length = 0,
     m_upstreams = [], m_oversize = False\<rparr>"

text \<open>\<open>init\<close>; closing the sockets kept from the connection before has no effect on the state that
  is left, since they are dropped.\<close>

definition conn_init :: "sock \<Rightarrow> gateway_conn \<Rightarrow> gateway_conn" where
  "conn_init client c =
     c\<lparr>m_client := Some client, m_read_idx := 0, m_request := [], m_content_length := 0,
       m_upstreams := [], m_oversize := False\<rparr>"

definition has_client :: "gateway_conn \<Rightarrow> bool" where
  "has_client c = (case m_client c of None \<Rightarrow> False | Some s \<Rightarrow> so_valid s)"

section \<open>Reading a request\<close>

text \<open>
  The loop that reads until the blank line: \<open>m_read_idx\<close>, \<open>m_request\<close> and the client.
  \<open>recv\<close> gets the free part of the buffer.
\<close>

function header_loop :: "nat \<Rightarrow> string \<Rightarrow> sock \<Rightarrow> bool \<times> nat \<times> string \<times> sock" where
  "header_loop idx req s =
     (if str_find req blank_line 0 \<noteq> None then (True, idx, req, s)
      else if READ_BUFFER_SIZE \<le> idx then (False, idx, req, s)
      else case sock_recv (READ_BUFFER_SIZE - idx) s of
        (None, s') \<Rightarrow> (False, idx, req, s')
      | (Some bytes, s') \<Rightarrow>
          (let idx' = idx + length bytes; req' = req @ bytes
           in if 64 * 1024 < length req' then (False, idx', req', s') else header_loop idx' req' s'))"
  by pat_completeness auto
termination
  by (relation "measure (\<lambda>(idx, req, s). READ_BUFFER_SIZE - idx)")
     (auto simp: sock_recv_def neq_Nil_conv split: if_splits list.splits)

declare header_loop.simps [simp del]

definition content_length :: "string \<Rightarrow> int" where
  "content_length req =
     (case header_value req ''Content-Length:'' of
        None \<Rightarrow> 0
      | Some num \<Rightarrow> if num = [] then 0 else strtoll10 num)"

text \<open>The loop that reads the body: \<open>have < m_content_length\<close>.\<close>

function body_loop :: "int \<Rightarrow> nat \<Rightarrow> nat \<Rightarrow> string \<Rightarrow> sock \<Rightarrow> bool \<times> nat \<times> string \<times> sock" where
  "body_loop len got idx req s =
     (if int got < len then
        (let idx = (if READ_BUFFER_SIZE \<le> idx then 0 else idx)
         in case sock_recv READ_BUFFER_SIZE s of
              (None, s') \<Rightarrow> (False, idx, req, s')
            | (Some bytes, s') \<Rightarrow> body_loop len (got + length bytes) idx (req @ bytes) s')
      else (True, idx, req, s))"
  by pat_completeness auto
termination
  by (relation "measure (\<lambda>(len, h, idx, req, s). nat (len - int h))")
     (auto simp: sock_recv_def READ_BUFFER_SIZE_def split: if_splits list.splits)

declare body_loop.simps [simp del]

definition read_once :: "int \<Rightarrow> gateway_conn \<Rightarrow> bool \<times> gateway_conn" where
  "read_once max_body c =
     (case m_client c of None \<Rightarrow> (False, c)
      | Some client \<Rightarrow>
         if \<not> so_valid client then (False, c)
         else
          (case header_loop (m_read_idx c) (m_request c) client of
             (ok, idx, req, client') \<Rightarrow>
               (let c = c\<lparr>m_client := Some client', m_read_idx := idx, m_request := req\<rparr>
                in if \<not> ok then (False, c)
                   else
                    (let len = content_length req;
                         c = c\<lparr>m_content_length := len\<rparr>
                     in if 0 < len \<and> max_body < len then (True, c\<lparr>m_oversize := True\<rparr>)
                        else if 0 < len then
                          (let pos = the (str_find req blank_line 0)
                           in case body_loop len (length req - (pos + 4)) idx req client' of
                                (ok', idx', req', client'') \<Rightarrow>
                                  (ok', c\<lparr>m_client := Some client'', m_read_idx := idx', m_request := req'\<rparr>))
                        else (True, c)))))"

definition parse_request_line :: "string \<Rightarrow> (string \<times> string \<times> string) option" where
  "parse_request_line request =
     (case str_find request crlf 0 of None \<Rightarrow> None
      | Some pos \<Rightarrow>
         (let line = substr request 0 (Some pos)
          in case str_find line '' '' 0 of None \<Rightarrow> None
             | Some p1 \<Rightarrow>
                (case str_find line '' '' (p1 + 1) of None \<Rightarrow> None
                 | Some p2 \<Rightarrow>
                     Some (substr line 0 (Some p1), substr line (p1 + 1) (Some (p2 - p1 - 1)),
                           substr line (p2 + 1) None))))"

section \<open>Answering\<close>

definition response_text :: "int \<Rightarrow> string \<Rightarrow> string \<Rightarrow> string" where
  "response_text status text body =
     ''HTTP/1.1 '' @ show_int status @ '' '' @ text @ crlf @
     ''Content-Type: text/plain'' @ crlf @
     ''Connection: close'' @ crlf @
     ''Content-Length: '' @ show_nat (length body) @ crlf @ crlf @ body"

definition send_simple_response :: "int \<Rightarrow> string \<Rightarrow> string \<Rightarrow> sock \<Rightarrow> sock" where
  "send_simple_response status text body client = snd (send_loop (response_text status text body) client)"

text \<open>
  What a request reads and changes besides its connection: the configuration, the filters' state
  with the cache of tokens, the counters and the router's index; and its surroundings: OpenSSL,
  the files, the resolver, the clock, and \<open>dial\<close> for \<open>CreateTCP\<close> and \<open>connect\<close>
  (\<open>None\<close>: no socket, \<open>Some None\<close>: connecting failed within the time).
\<close>

record gateway =
  g_config :: gateway_config
  g_filters :: filter_state
  g_metrics :: metrics
  s_index :: u64

record surroundings =
  env_crypto :: crypto
  env_files :: "string \<Rightarrow> string option"
  env_gai :: gai
  env_clock :: clock
  env_dial :: "address \<Rightarrow> int \<Rightarrow> sock option option"

definition update_alist :: "'k \<Rightarrow> 'v \<Rightarrow> ('k \<times> 'v) list \<Rightarrow> ('k \<times> 'v) list" where
  "update_alist k v al = (k, v) # filter (\<lambda>kv. fst kv \<noteq> k) al"

text \<open>\<open>get_upstream_socket\<close>: the key of the entry to use, \<open>None\<close> for the null pointer.\<close>

definition get_upstream_socket ::
  "surroundings \<Rightarrow> string \<Rightarrow> gateway \<times> gateway_conn \<Rightarrow> string option \<times> gateway \<times> gateway_conn" where
  "get_upstream_socket env path gc =
     (let (g, c) = gc;
          (picked, idx) = pick_upstream (g_config g) (env_gai env) (s_index g) path;
          g = g\<lparr>s_index := idx\<rparr>
      in case picked of None \<Rightarrow> (None, g, c)
         | Some addr \<Rightarrow>
            (let key = toString addr;
                 cached = (case map_of (m_upstreams c) key of None \<Rightarrow> False | Some s \<Rightarrow> so_connected s)
             in if cached then (Some key, g, c)
                else (case env_dial env addr (m_timeout_connect (g_config g)) of
                   None \<Rightarrow> (None, g, c)
                 | Some None \<Rightarrow> (None, g, c)
                 | Some (Some s) \<Rightarrow> (Some key, g, c\<lparr>m_upstreams := update_alist key s (m_upstreams c)\<rparr>))))"

text \<open>
  The relay of the upstream's answer: \<open>False\<close> when the client stopped taking it. It ends because the stream of the
  upstream does; the code has no bound of its own.
\<close>

function relay_loop :: "sock \<Rightarrow> sock \<Rightarrow> bool \<times> sock \<times> sock" where
  "relay_loop up client =
     (case sock_recv 4096 up of
        (None, up') \<Rightarrow> (True, up', client)
      | (Some bytes, up') \<Rightarrow>
          (case send_loop bytes client of
             (ok, client') \<Rightarrow> if ok then relay_loop up' client' else (False, up', client')))"
  by pat_completeness auto
termination
  by (relation "measure (\<lambda>(up, client). sum_list (map (\<lambda>seg. Suc (length seg)) (so_in up)))")
     (auto simp: sock_recv_def split: if_splits list.splits)

declare relay_loop.simps [simp del]

section \<open>Processing a request\<close>

definition reply :: "int \<Rightarrow> string \<Rightarrow> gateway_conn \<Rightarrow> gateway_conn" where
  "reply status body c =
     c\<lparr>m_client := map_option (send_simple_response status (status_text status) body) (m_client c)\<rparr>"

text \<open>The request's way from the filters on: the upstream, forwarding, the answer.\<close>

definition forward_request ::
  "surroundings \<Rightarrow> string \<Rightarrow> string \<Rightarrow> gateway \<times> gateway_conn \<Rightarrow> bool \<times> gateway \<times> gateway_conn" where
  "forward_request env request path gc =
     (case get_upstream_socket env path gc of
        (None, g, c) \<Rightarrow>
          (False, g, reply HTTP_BAD_GATEWAY (''no upstream available'' @ [chr_lf]) c)
      | (Some key, g, c) \<Rightarrow>
          (case send_loop request (the (map_of (m_upstreams c) key)) of
             (False, up) \<Rightarrow>
               (False, g\<lparr>g_metrics := on_upstream_error (g_metrics g)\<rparr>,
                reply HTTP_BAD_GATEWAY (''send to upstream failed'' @ [chr_lf])
                  (c\<lparr>m_upstreams := update_alist key up (m_upstreams c)\<rparr>))
           | (True, up) \<Rightarrow>
               (case relay_loop up (the (m_client c)) of
                  (_, up', client') \<Rightarrow>
                    (False, g, c\<lparr>m_upstreams := update_alist key up' (m_upstreams c), m_client := Some client'\<rparr>))))"

definition make_context :: "string \<Rightarrow> string \<times> string \<times> string \<Rightarrow> sock \<Rightarrow> request_context" where
  "make_context request mpv client =
     \<lparr>ctx_method = fst mpv, ctx_path = fst (snd mpv), ctx_version = snd (snd mpv),
      client_address = (case so_remote client of None \<Rightarrow> [] | Some a \<Rightarrow> toString a),
      raw_request = request\<rparr>"

text \<open>The filters, the answer to a rejected request, and the way on of the others.\<close>

definition filter_request ::
  "surroundings \<Rightarrow> string \<Rightarrow> string \<times> string \<times> string \<Rightarrow> sock \<Rightarrow> gateway \<times> gateway_conn \<Rightarrow>
     ub + bool \<times> gateway \<times> gateway_conn" where
  "filter_request env request mpv client gc =
     (let (g, c) = gc
      in case chain_apply (env_crypto env) (g_config g) (env_clock env) (make_context request mpv client) (g_filters g) of
           Inl e \<Rightarrow> Inl e
         | Inr (Inl (filter_status, filter_body), s) \<Rightarrow>
             Inr (False, g\<lparr>g_filters := s, g_metrics := on_filter_reject (g_metrics g)\<rparr>,
               reply (if filter_status = 0 then HTTP_FORBIDDEN else filter_status)
                     (if filter_body = [] then ''forbidden'' @ [chr_lf] else filter_body) c)
         | Inr (Inr _, s) \<Rightarrow> Inr (forward_request env request (fst (snd mpv)) (g\<lparr>g_filters := s\<rparr>, c)))"

definition admin_reload :: "surroundings \<Rightarrow> gateway \<times> gateway_conn \<Rightarrow> bool \<times> gateway \<times> gateway_conn" where
  "admin_reload env gc =
     (let (g, c) = gc
      in case reload (env_files env) (env_gai env) (g_config g, fs_cache (g_filters g)) of
           (ok, cfg, cache) \<Rightarrow>
             (False, g\<lparr>g_config := cfg, g_filters := (g_filters g)\<lparr>fs_cache := cache\<rparr>\<rparr>,
              if ok then reply HTTP_OK (''reload ok'' @ [chr_lf]) c
              else reply HTTP_INTERNAL_ERROR (''reload failed'' @ [chr_lf]) c))"

definition serve_request ::
  "surroundings \<Rightarrow> string \<Rightarrow> sock \<Rightarrow> gateway \<times> gateway_conn \<Rightarrow> ub + bool \<times> gateway \<times> gateway_conn" where
  "serve_request env request client gc =
     (case parse_request_line request of
        None \<Rightarrow> Inr (False, fst gc, reply HTTP_BAD_REQUEST (''invalid request line'' @ [chr_lf]) (snd gc))
      | Some mpv \<Rightarrow>
         if prefix ADMIN_METRICS_PATH (fst (snd mpv)) then
           Inr (False, fst gc, reply HTTP_OK (render_plain (g_metrics (fst gc))) (snd gc))
         else if prefix ADMIN_RELOAD_PATH (fst (snd mpv)) then Inr (admin_reload env gc)
         else if m_oversize (snd gc) then
           Inr (False, fst gc, reply HTTP_PAYLOAD_TOO_LARGE (''body too large'' @ [chr_lf]) (snd gc))
         else filter_request env request mpv client gc)"

text \<open>\<open>process\<close>. A null \<open>m_client\<close> is dereferenced on every path.\<close>

definition process_request ::
  "surroundings \<Rightarrow> gateway \<times> gateway_conn \<Rightarrow> ub + bool \<times> gateway \<times> gateway_conn" where
  "process_request env gc =
     (case m_client (snd gc) of None \<Rightarrow> Inl Undefined_behaviour
      | Some client \<Rightarrow>
          serve_request env (m_request (snd gc)) client
            ((fst gc)\<lparr>g_metrics := on_request (g_metrics (fst gc))\<rparr>,
             (snd gc)\<lparr>m_request := [], m_read_idx := 0\<rparr>))"

section \<open>The loops over sockets\<close>

lemma sock_recv_Some:
  assumes "sock_recv n s = (Some bytes, s')"
  shows "concat (so_in s) = bytes @ concat (so_in s')" "bytes \<noteq> []" "length bytes \<le> n"
    "so_out s' = so_out s" "so_accept s' = so_accept s" "so_connected s' = so_connected s"
    "so_remote s' = so_remote s" "so_valid s' = so_valid s"
  using assms by (auto simp: sock_recv_def split: if_splits list.splits)

lemma sock_recv_None: "sock_recv n s = (None, s') \<Longrightarrow> s' = s"
  by (auto simp: sock_recv_def split: if_splits list.splits)

lemma sock_send_Some:
  assumes "sock_send buf s = (Some n, s')" and "buf \<noteq> []"
  shows "so_out s' = so_out s @ take n buf" "so_in s' = so_in s" "0 < n" "n \<le> length buf"
    "so_connected s' = so_connected s" "so_remote s' = so_remote s" "so_valid s' = so_valid s"
  using assms by (auto simp: sock_send_def Let_def split: if_splits list.splits)

lemma sock_send_None:
  "sock_send buf s = (None, s') \<Longrightarrow> so_out s' = so_out s \<and> so_in s' = so_in s \<and>
     so_connected s' = so_connected s \<and> so_remote s' = so_remote s \<and> so_valid s' = so_valid s"
  by (auto simp: sock_send_def Let_def split: if_splits list.splits)

text \<open>\<open>send_loop\<close> sends a prefix of the buffer, all of it when it says so, and reads nothing.\<close>

lemma send_loop_prefix:
  assumes "send_loop buf s = (ok, s')"
  shows "\<exists>k. so_out s' = so_out s @ take k buf \<and> (ok \<longrightarrow> take k buf = buf) \<and>
    so_in s' = so_in s \<and> so_connected s' = so_connected s \<and> so_remote s' = so_remote s \<and>
    so_valid s' = so_valid s"
  using assms
proof (induction buf s rule: send_loop.induct)
  case (1 buf s)
  show ?case
  proof (cases "buf = []")
    case True
    then show ?thesis using 1(2) by (simp add: send_loop.simps)
  next
    case False
    obtain r s1 where r: "sock_send buf s = (r, s1)" by fastforce
    show ?thesis
    proof (cases r)
      case None
      with 1(2) False r show ?thesis
        using sock_send_None [of buf s s1] by (auto simp: send_loop.simps [of buf s] intro: exI [of _ 0])
    next
      case (Some n)
      have rest: "send_loop (drop n buf) s1 = (ok, s')"
        using 1(2) False r Some by (simp add: send_loop.simps [of buf s])
      from r Some have sent: "sock_send buf s = (Some n, s1)" by simp
      from "1.IH" [OF False sent [symmetric] refl rest] obtain k
        where k: "so_out s' = so_out s1 @ take k (drop n buf)" "ok \<longrightarrow> take k (drop n buf) = drop n buf"
          "so_in s' = so_in s1" "so_connected s' = so_connected s1" "so_remote s' = so_remote s1"
          "so_valid s' = so_valid s1" by blast
      have "take n buf @ take k (drop n buf) = take (n + k) buf" by (simp add: take_add)
      with k sock_send_Some [OF sent False] show ?thesis
        by (intro exI [of _ "n + k"]) (auto simp: append_take_drop_id)
    qed
  qed
qed

lemma find0_append: "find0 p a = Some i \<Longrightarrow> p \<noteq> [] \<Longrightarrow> find0 p (a @ b) = Some i"
proof (induction a arbitrary: i)
  case Nil
  then show ?case by simp
next
  case (Cons c a)
  show ?case
  proof (cases "prefix p (c # a)")
    case True
    then have "prefix p (c # a @ b)" using prefix_prefix [of p "c # a" b] by simp
    with True Cons.prems show ?thesis by simp
  next
    case False
    with Cons.prems obtain j where j: "find0 p a = Some j" "i = Suc j" by auto
    then have "length p \<le> length a" using find0_Some [of p a j] by simp
    then have "\<not> prefix p ((c # a) @ b)"
      using False by (metis le_SucI length_Cons prefix_def prefix_length_prefix)
    with j Cons.IH [OF j(1) Cons.prems(2)] show ?thesis by simp
  qed
qed

lemma blank_line_append: "str_find a blank_line 0 = Some i \<Longrightarrow> str_find (a @ b) blank_line 0 = Some i"
  using find0_append [of blank_line a] by (auto simp: str_find_def blank_line_def)

lemma content_length_append:
  assumes "str_find a blank_line 0 = Some i"
  shows "content_length (a @ b) = content_length a"
proof -
  have "i \<le> length a" using str_find_Some [OF assms] by simp
  then have "request_headers (a @ b) = request_headers a"
    using assms blank_line_append [OF assms, of b] by (simp add: request_headers_def substr_def)
  then show ?thesis by (simp add: content_length_def header_value_def)
qed

text \<open>The header loop: it stays in the buffer and appends what it takes from the stream.\<close>

lemma header_loop_spec:
  assumes "header_loop idx req s = (ok, idx', req', s')" and "idx = length req" and "idx \<le> READ_BUFFER_SIZE"
  shows "idx' = length req' \<and> idx' \<le> READ_BUFFER_SIZE \<and>
    req @ concat (so_in s) = req' @ concat (so_in s') \<and> so_out s' = so_out s \<and>
    so_connected s' = so_connected s \<and> so_remote s' = so_remote s \<and> so_valid s' = so_valid s \<and>
    (ok \<longrightarrow> str_find req' blank_line 0 \<noteq> None)"
  using assms
proof (induction idx req s rule: header_loop.induct)
  case (1 idx req s)
  consider "str_find req blank_line 0 \<noteq> None \<or> READ_BUFFER_SIZE \<le> idx"
    | s1 where "str_find req blank_line 0 = None" "\<not> READ_BUFFER_SIZE \<le> idx"
        "sock_recv (READ_BUFFER_SIZE - idx) s = (None, s1)"
    | bytes s1 where "str_find req blank_line 0 = None" "\<not> READ_BUFFER_SIZE \<le> idx"
        "sock_recv (READ_BUFFER_SIZE - idx) s = (Some bytes, s1)"
    by (metis option.exhaust surj_pair)
  then show ?case
  proof cases
    case 1
    with "1.prems"(2,3) show ?thesis
      using "1.prems"(1) [unfolded header_loop.simps [of idx req s]] by (auto split: if_splits)
  next
    case 2
    with "1.prems"(2,3) sock_recv_None [OF 2(3)] show ?thesis
      using "1.prems"(1) [unfolded header_loop.simps [of idx req s]] by auto
  next
    case 3
    note r = sock_recv_Some [OF 3(3)]
    have small: "length (req @ bytes) \<le> READ_BUFFER_SIZE" "idx + length bytes = length (req @ bytes)"
      using r(3) "1.prems"(2) 3(2) by simp_all
    then have n64: "\<not> 64 * 1024 < length (req @ bytes)" by (simp add: READ_BUFFER_SIZE_def)
    have rest: "header_loop (idx + length bytes) (req @ bytes) s1 = (ok, idx', req', s')"
      using "1.prems"(1) 3 n64 by (simp add: header_loop.simps [of idx req s] Let_def)
    have nb: "\<not> str_find req blank_line 0 \<noteq> None" using 3(1) by simp
    from "1.IH" [OF nb 3(2) 3(3) [symmetric] refl refl refl n64 rest small(2)] small r
    show ?thesis by (simp del: append_assoc add: append_assoc [symmetric])
  qed
qed

lemma body_loop_spec:
  assumes "body_loop len got idx req s = (ok, idx', req', s')"
  shows "req @ concat (so_in s) = req' @ concat (so_in s') \<and> so_out s' = so_out s \<and>
    so_connected s' = so_connected s \<and> so_remote s' = so_remote s \<and> so_valid s' = so_valid s \<and>
    (\<exists>x. req' = req @ x \<and> (ok \<longrightarrow> len \<le> int (got + length x)))"
  using assms
proof (induction len got idx req s rule: body_loop.induct)
  case (1 len got idx req s)
  show ?case
  proof (cases "int got < len")
    case False
    with "1.prems" show ?thesis by (auto simp: body_loop.simps [of len got idx req s])
  next
    case True
    obtain r s1 where r: "sock_recv READ_BUFFER_SIZE s = (r, s1)" by fastforce
    show ?thesis
    proof (cases r)
      case None
      with "1.prems" True r sock_recv_None [of READ_BUFFER_SIZE s s1] show ?thesis
        by (auto simp: body_loop.simps [of len got idx req s] Let_def)
    next
      case (Some bytes)
      let ?idx = "if READ_BUFFER_SIZE \<le> idx then 0 else idx"
      have rest: "body_loop len (got + length bytes) ?idx (req @ bytes) s1 = (ok, idx', req', s')"
        using "1.prems" True r Some by (simp add: body_loop.simps [of len got idx req s] Let_def)
      have sm: "sock_recv READ_BUFFER_SIZE s = (Some bytes, s1)" using r Some by simp
      from "1.IH" [OF True refl sm [symmetric] refl rest] sock_recv_Some [OF sm]
      show ?thesis by (auto simp: add.assoc)
    qed
  qed
qed

section \<open>What is read\<close>

lemma read_once_fields:
  assumes "read_once mb c = (ok, c')"
  shows "m_upstreams c' = m_upstreams c \<and> (m_client c \<noteq> None \<longrightarrow> m_client c' \<noteq> None) \<and>
    (ok \<longrightarrow> m_client c \<noteq> None)"
  using assms by (auto simp: read_once_def Let_def split: option.splits prod.splits if_splits)

text \<open>
  C8: Reading a request from a fresh connection takes bytes off the client's stream in order and
  keeps them all, and sends nothing. When it succeeds, the request holds a blank line that ends
  within the 16384 bytes of the buffer, the oversize mark says whether the declared length exceeds
  the limit, and unless it does the whole declared body is there. The declared length that is used
  is the one of the finished request.
\<close>

theorem read_once_frames_request:
  assumes "m_client c = Some client" and "m_request c = []" and "m_read_idx c = 0" and "\<not> m_oversize c"
    and "read_once max_body c = (ok, c')"
  shows "\<exists>client'. m_client c' = Some client' \<and>
    concat (so_in client) = m_request c' @ concat (so_in client') \<and> so_out client' = so_out client \<and>
    (ok \<longrightarrow> (\<exists>pos. str_find (m_request c') blank_line 0 = Some pos \<and> pos + 4 \<le> READ_BUFFER_SIZE \<and>
        m_content_length c' = content_length (m_request c') \<and>
        (m_oversize c' \<longleftrightarrow> 0 < m_content_length c' \<and> max_body < m_content_length c') \<and>
        (\<not> m_oversize c' \<longrightarrow> int (pos + 4) + m_content_length c' \<le> int (length (m_request c')))))"
proof (cases "so_valid client")
  case False
  with assms show ?thesis by (auto simp: read_once_def)
next
  case True
  obtain hok idx req cl where h: "header_loop 0 [] client = (hok, idx, req, cl)"
    by (metis surj_pair)
  have hs: "idx = length req" "idx \<le> READ_BUFFER_SIZE" "concat (so_in client) = req @ concat (so_in cl)"
      "so_out cl = so_out client" "hok \<longrightarrow> str_find req blank_line 0 \<noteq> None"
    using header_loop_spec [OF h] by simp_all
  show ?thesis
  proof (cases hok)
    case False
    with assms True h hs show ?thesis by (auto simp: read_once_def)
  next
    case hok: True
    with hs obtain pos where pos: "str_find req blank_line 0 = Some pos" by auto
    have pos4: "pos + 4 \<le> length req" using str_find_Some [OF pos] by (simp add: blank_line_def)
    let ?len = "content_length req"
    consider "0 < ?len \<and> max_body < ?len" | "0 < ?len \<and> \<not> max_body < ?len" | "\<not> 0 < ?len" by blast
    then show ?thesis
    proof cases
      case 1
      with assms True h hok hs pos pos4 show ?thesis by (auto simp: read_once_def Let_def)
    next
      case 2
      obtain bok idx' req' cl' where b: "body_loop ?len (length req - (pos + 4)) idx req cl = (bok, idx', req', cl')"
        by (metis surj_pair)
      from body_loop_spec [OF b] obtain x where bs: "req @ concat (so_in cl) = req' @ concat (so_in cl')"
          "so_out cl' = so_out cl" "req' = req @ x" "bok \<longrightarrow> ?len \<le> int (length req - (pos + 4) + length x)"
        by blast
      have c': "ok = bok" "m_client c' = Some cl'" "m_request c' = req'" "m_content_length c' = ?len" "\<not> m_oversize c'"
        using assms True h hok 2 pos b by (auto simp: read_once_def Let_def)
      have "str_find req' blank_line 0 = Some pos" "content_length req' = ?len"
        using bs(3) blank_line_append [OF pos] content_length_append [OF pos] by simp_all
      then show ?thesis using c' bs hs 2 pos4 by auto
    next
      case 3
      with assms True h hok hs pos pos4 show ?thesis by (auto simp: read_once_def Let_def)
    qed
  qed
qed

definition sample_client :: sock where
  "sample_client = \<lparr>so_valid = True, so_connected = True,
     so_in = [''GET / HTTP/1.1'' @ crlf, ''Content-Length: 2'' @ blank_line @ ''h'', ''i''],
     so_accept = [3, 500], so_out = [], so_remote = Some (IPv4Address (IPv4_new 1 9))\<rparr>"

lemmas run_simps = header_loop.simps body_loop.simps READ_BUFFER_SIZE_def sock_recv_def str_find_def
  blank_line_def crlf_def substr_def Let_def

definition sample_request :: string where
  "sample_request = ''GET / HTTP/1.1'' @ crlf @ ''Content-Length: 2'' @ blank_line @ ''h''"

lemma sample_header_loop:
  "header_loop 0 [] sample_client = (True, 38, sample_request, sample_client\<lparr>so_in := [''i'']\<rparr>)"
  by (simp add: run_simps sample_client_def sample_request_def)

lemma sample_request_facts:
  "content_length sample_request = 2" "str_find sample_request blank_line 0 = Some 33"
  "length sample_request = 38"
  by code_simp+

lemma sample_read:
  obtains c' where "read_once 100 (conn_init sample_client conn_default) = (True, c')" "\<not> m_oversize c'"
proof -
  have "\<exists>c'. read_once 100 (conn_init sample_client conn_default) = (True, c') \<and> \<not> m_oversize c'"
    unfolding read_once_def conn_init_def
    by (simp add: sample_header_loop sample_request_facts Let_def)
      (simp add: body_loop.simps READ_BUFFER_SIZE_def sock_recv_def sample_client_def conn_default_def)
  then show thesis using that by blast
qed

theorem read_once_frames_request_witness:
  "\<exists>c'. read_once 100 (conn_init sample_client conn_default) = (True, c') \<and>
     concat (so_in sample_client) = m_request c' @ concat (so_in (the (m_client c'))) \<and>
     int (length (m_request c')) \<ge> 4 + m_content_length c'"
proof -
  obtain c' where r: "read_once 100 (conn_init sample_client conn_default) = (True, c')" "\<not> m_oversize c'"
    by (rule sample_read)
  have "m_client (conn_init sample_client conn_default) = Some sample_client"
    "m_request (conn_init sample_client conn_default) = []" "m_read_idx (conn_init sample_client conn_default) = 0"
    "\<not> m_oversize (conn_init sample_client conn_default)" by (simp_all add: conn_init_def)
  from read_once_frames_request [OF this r(1)] r show ?thesis by auto
qed

text \<open>
  A request line is accepted exactly when the text up to the first line end has two spaces;
  the method is what precedes the first, the path what lies between the first and the second, and
  the version all the rest of the line.
\<close>

theorem parse_request_line_iff:
  "parse_request_line request = Some (mthd, path, version) \<longleftrightarrow>
     (\<exists>pos. str_find request crlf 0 = Some pos \<and> take pos request = mthd @ '' '' @ path @ '' '' @ version \<and>
        CHR '' '' \<notin> set mthd \<and> CHR '' '' \<notin> set path)" (is "?l \<longleftrightarrow> ?r")
proof
  assume ?l
  then obtain pos p1 p2 where f: "str_find request crlf 0 = Some pos"
      "str_find (take pos request) '' '' 0 = Some p1" "str_find (take pos request) '' '' (p1 + 1) = Some p2"
      and eq: "mthd = take p1 (take pos request)" "path = take (p2 - p1 - 1) (drop (p1 + 1) (take pos request))"
        "version = drop (p2 + 1) (take pos request)"
    by (auto simp: parse_request_line_def substr_def Let_def split: option.splits)
  define line where "line = take pos request"
  from f(2) obtain a b where a: "line = a @ CHR '' '' # b" "CHR '' '' \<notin> set a" "p1 = length a"
    unfolding line_def by (rule str_find_char_decomp) simp
  from f(3) obtain a' b' where a': "line = take (p1 + 1) line @ a' @ CHR '' '' # b'" "CHR '' '' \<notin> set a'"
      "p2 = p1 + 1 + length a'"
    unfolding line_def [symmetric] by (rule str_find_char_decomp) simp
  from a have t: "take (p1 + 1) line = a @ '' ''" by simp
  with a' a have l: "line = a @ CHR '' '' # a' @ CHR '' '' # b'" by simp
  have "mthd = a" "path = a'" "version = b'"
    using eq a(3) a'(3) by (simp_all add: line_def [symmetric] l)
  with l f(1) a(2) a'(2) show ?r by (auto simp: line_def)
next
  assume ?r
  then obtain pos where f: "str_find request crlf 0 = Some pos"
      "take pos request = mthd @ '' '' @ path @ '' '' @ version" "CHR '' '' \<notin> set mthd" "CHR '' '' \<notin> set path"
    by blast
  have "str_find (take pos request) '' '' 0 = Some (length mthd)"
    using str_find_char_append [of "CHR '' ''" mthd 0 "[]"] f by simp
  moreover have "str_find (take pos request) '' '' (length mthd + 1) = Some (length mthd + 1 + length path)"
    using str_find_char_append [of "CHR '' ''" path "length mthd + 1" "mthd @ '' ''" version] f by simp
  ultimately show ?l using f by (simp add: parse_request_line_def substr_def Let_def)
qed

section \<open>What is forwarded\<close>

text \<open>A socket that was offered more than it took: it is not connected, its list of answers ran out, or the
  last of them is a failure.\<close>

definition refused :: "sock \<Rightarrow> sock \<Rightarrow> bool" where
  "refused s s' \<longleftrightarrow> \<not> so_connected s \<or> so_accept s' = [] \<or> (\<exists>a \<le> 0. suffix (a # so_accept s') (so_accept s))"

lemma send_loop_accept: "send_loop buf s = (ok, s') \<Longrightarrow> suffix (so_accept s') (so_accept s)"
proof (induction buf s rule: send_loop.induct)
  case (1 buf s)
  obtain r s1 where r: "sock_send buf s = (r, s1)" by fastforce
  then have s1: "suffix (so_accept s1) (so_accept s)"
    by (auto simp: sock_send_def Let_def suffix_ConsI split: if_splits list.splits)
  show ?case
  proof (cases "buf = [] \<or> r = None")
    case True
    with r s1 "1.prems" show ?thesis by (auto simp: send_loop.simps [of buf s] split: if_splits)
  next
    case False
    then obtain n where n: "buf \<noteq> []" "r = Some n" by blast
    with "1.prems" r have "send_loop (drop n buf) s1 = (ok, s')" by (simp add: send_loop.simps [of buf s])
    with "1.IH" [OF n(1) r [symmetric] n(2)] s1 suffix_order.order_trans show ?thesis by blast
  qed
qed

lemma send_loop_refused:
  "send_loop buf s = (False, s') \<Longrightarrow> refused s s' \<and> length (so_out s') < length (so_out s) + length buf"
proof (induction buf s rule: send_loop.induct)
  case (1 buf s)
  obtain r s1 where r: "sock_send buf s = (r, s1)" by fastforce
  have b: "buf \<noteq> []" using "1.prems" by (auto simp: send_loop.simps [of buf s])
  show ?case
  proof (cases r)
    case None
    with r b "1.prems" show ?thesis
      by (auto simp: send_loop.simps [of buf s] sock_send_def refused_def Let_def split: if_splits list.splits)
  next
    case (Some n)
    with "1.prems" r b have rest: "send_loop (drop n buf) s1 = (False, s')" by (simp add: send_loop.simps [of buf s])
    from "1.IH" [OF b r [symmetric] Some rest] have ih: "refused s1 s'"
        "length (so_out s') < length (so_out s1) + length (drop n buf)" by simp_all
    moreover have "so_connected s1 = so_connected s" "suffix (so_accept s1) (so_accept s)"
        "length (so_out s1) + length (drop n buf) = length (so_out s) + length buf"
      using r Some by (auto simp: sock_send_def Let_def suffix_ConsI split: if_splits list.splits)
    ultimately show ?thesis unfolding refused_def using suffix_order.order_trans by metis
  qed
qed

lemma send_loop_outcome:
  assumes "send_loop buf s = (ok, s')"
  obtains k where "so_out s' = so_out s @ take k buf" and "take k buf = buf \<or> refused s s'"
proof -
  from send_loop_prefix [OF assms] obtain k where k: "so_out s' = so_out s @ take k buf" "ok \<longrightarrow> take k buf = buf" by blast
  have "refused s s'" if "\<not> ok" using send_loop_refused [of buf s s'] assms that by simp
  with k that [OF k(1)] show thesis by blast
qed

lemma relay_loop_spec:
  assumes "relay_loop up client = (ok, up', client')"
  shows "\<exists>got x. concat (so_in up) = got @ concat (so_in up') \<and> prefix x got \<and>
    so_out client' = so_out client @ x \<and> so_out up' = so_out up \<and> so_in client' = so_in client \<and>
    (ok \<longrightarrow> x = got \<and> fst (sock_recv 4096 up') = None) \<and> (\<not> ok \<longrightarrow> x \<noteq> got \<and> refused client client')"
  using assms
proof (induction up client rule: relay_loop.induct)
  case (1 up client)
  obtain r up1 where r: "sock_recv 4096 up = (r, up1)" by fastforce
  show ?case
  proof (cases r)
    case None
    with "1.prems" r sock_recv_None [of 4096 up up1] show ?thesis
      by (auto simp: relay_loop.simps [of up client])
  next
    case (Some bytes)
    have rs: "sock_recv 4096 up = (Some bytes, up1)" using r Some by simp
    note rr = sock_recv_Some [OF rs]
    obtain sok cl1 where s: "send_loop bytes client = (sok, cl1)" by fastforce
    from send_loop_prefix [OF s] obtain k where k: "so_out cl1 = so_out client @ take k bytes"
        "sok \<longrightarrow> take k bytes = bytes" "so_in cl1 = so_in client" "so_connected cl1 = so_connected client" by blast
    show ?thesis
    proof (cases sok)
      case False
      with "1.prems" rs s have res: "ok = False" "up' = up1" "client' = cl1"
        by (simp_all add: relay_loop.simps [of up client])
      have "refused client cl1" "length (so_out cl1) < length (so_out client) + length bytes"
        using send_loop_refused [of bytes client cl1] s False by simp_all
      with rr k res show ?thesis
        by (intro exI [of _ bytes] exI [of _ "take k bytes"]) (auto simp: take_is_prefix)
    next
      case True
      with "1.prems" rs s have rest: "relay_loop up1 cl1 = (ok, up', client')"
        by (simp add: relay_loop.simps [of up client])
      from "1.IH" [OF rs [symmetric] refl s [symmetric] True rest] obtain got x
        where g: "concat (so_in up1) = got @ concat (so_in up')" "prefix x got" "so_out client' = so_out cl1 @ x"
          "so_out up' = so_out up1" "so_in client' = so_in cl1"
          "ok \<longrightarrow> x = got \<and> fst (sock_recv 4096 up') = None" "\<not> ok \<longrightarrow> x \<noteq> got \<and> refused cl1 client'" by blast
      have "refused cl1 client' \<Longrightarrow> refused client client'"
        unfolding refused_def using k(4) send_loop_accept [OF s] suffix_order.order_trans by metis
      with g rr k True show ?thesis
        by (intro exI [of _ "bytes @ got"] exI [of _ "bytes @ x"]) auto
    qed
  qed
qed

text \<open>
  C9: Forwarding. The upstream is sent a prefix of the request. When it takes all of it, the client
  is sent what is read of the upstream's stream, unchanged and in order, and the relay stops only
  where the upstream's stream ends or where the client refuses what it is offered; when the upstream does
  not take the request, an upstream error is counted and the client is sent a 502 answer, whole unless it refuses it. The
  connection is given up in every case.
\<close>

theorem forward_relays_stream:
  assumes "get_upstream_socket env path (g, c) = (Some key, g1, c1)"
    and "map_of (m_upstreams c1) key = Some up" and "m_client c1 = Some client"
    and "send_loop request up = (sent, up1)"
    and "forward_request env request path (g, c) = (keep, g', c')"
  shows "\<not> keep \<and> (\<exists>x. prefix x request \<and> so_out up1 = so_out up @ x \<and> (sent \<longrightarrow> x = request)) \<and>
    (sent \<longrightarrow> g' = g1 \<and> (\<exists>got x up2 client'. m_client c' = Some client' \<and>
        map_of (m_upstreams c') key = Some up2 \<and> concat (so_in up1) = got @ concat (so_in up2) \<and>
        prefix x got \<and> so_out client' = so_out client @ x \<and>
        (if x = got then fst (sock_recv 4096 up2) = None else refused client client'))) \<and>
    (\<not> sent \<longrightarrow> m_upstream_errors (g_metrics g') = m_upstream_errors (g_metrics g1) + 1 \<and>
        (\<exists>x client'. m_client c' = Some client' \<and> so_out client' = so_out client @ x \<and>
           prefix x (response_text 502 ''Bad Gateway'' (''send to upstream failed'' @ [chr_lf])) \<and>
           (x = response_text 502 ''Bad Gateway'' (''send to upstream failed'' @ [chr_lf]) \<or> refused client client')))"
proof -
  from send_loop_prefix [OF assms(4)] obtain n where n: "so_out up1 = so_out up @ take n request"
    "sent \<longrightarrow> take n request = request" by blast
  have up: "\<exists>x. prefix x request \<and> so_out up1 = so_out up @ x \<and> (sent \<longrightarrow> x = request)"
    using n take_is_prefix by blast
  show ?thesis
  proof (cases sent)
    case True
    obtain ok up2 client' where r: "relay_loop up1 client = (ok, up2, client')" by (metis surj_pair)
    from relay_loop_spec [OF r] obtain got x where k: "concat (so_in up1) = got @ concat (so_in up2)"
      "prefix x got" "so_out client' = so_out client @ x"
      "if x = got then fst (sock_recv 4096 up2) = None else refused client client'" by metis
    have res: "\<not> keep" "g' = g1"
      "c' = c1\<lparr>m_upstreams := update_alist key up2 (m_upstreams c1), m_client := Some client'\<rparr>"
      using assms True r by (simp_all add: forward_request_def)
    have "\<exists>got x up2 client'. m_client c' = Some client' \<and>
        map_of (m_upstreams c') key = Some up2 \<and> concat (so_in up1) = got @ concat (so_in up2) \<and>
        prefix x got \<and> so_out client' = so_out client @ x \<and>
        (if x = got then fst (sock_recv 4096 up2) = None else refused client client')"
      using k by (intro exI [of _ got] exI [of _ x] exI [of _ up2] exI [of _ client'])
        (simp add: res(3) update_alist_def)
    with True res up show ?thesis by simp
  next
    case False
    let ?text = "response_text HTTP_BAD_GATEWAY (status_text HTTP_BAD_GATEWAY) (''send to upstream failed'' @ [chr_lf])"
    obtain ok client' where s: "send_loop ?text client = (ok, client')" by fastforce
    obtain k where k: "so_out client' = so_out client @ take k ?text" "take k ?text = ?text \<or> refused client client'"
      by (rule send_loop_outcome [OF s])
    have tx: "?text = response_text 502 ''Bad Gateway'' (''send to upstream failed'' @ [chr_lf])"
      by (simp add: status_text_def http_codes)
    have res: "\<not> keep" "g' = g1\<lparr>g_metrics := on_upstream_error (g_metrics g1)\<rparr>" "m_client c' = Some client'"
      using assms False s by (auto simp: forward_request_def reply_def send_simple_response_def)
    have "\<exists>x client'. m_client c' = Some client' \<and> so_out client' = so_out client @ x \<and>
        prefix x (response_text 502 ''Bad Gateway'' (''send to upstream failed'' @ [chr_lf])) \<and>
        (x = response_text 502 ''Bad Gateway'' (''send to upstream failed'' @ [chr_lf]) \<or> refused client client')"
      using k res(3) take_is_prefix [of k ?text] unfolding tx by blast
    with False res up show ?thesis by (simp add: on_upstream_error_def)
  qed
qed

definition sample_upstream :: sock where
  "sample_upstream = \<lparr>so_valid = True, so_connected = True, so_in = [''he'', ''llo''], so_accept = [2, 9],
     so_out = [], so_remote = None\<rparr>"

definition relay_env :: surroundings where
  "relay_env = \<lparr>env_crypto = sample_crypto, env_files = sample_file, env_gai = no_hosts,
     env_clock = \<lparr>c_time = 5, c_now = 5, c_verify = 5\<rparr>, env_dial = \<lambda>a t. Some (Some sample_upstream)\<rparr>"

definition relay_gateway :: gateway where
  "relay_gateway = \<lparr>g_config = two_routes,
     g_filters = \<lparr>fs_rate = rate_limit_init, fs_cache = jwt_cache_init\<rparr>, g_metrics = metrics_init, s_index = 0\<rparr>"

theorem forward_relays_stream_witness:
  "\<exists>g' c' client'. forward_request relay_env ''GET'' ''/'' (relay_gateway, conn_init sample_client conn_default) = (False, g', c') \<and>
     m_client c' = Some client' \<and> prefix (so_out client') ''hello''"
proof -
  let ?c = "conn_init sample_client conn_default" and ?k = "toString (IPv4Address (IPv4_new 1 1))"
  let ?c1 = "?c\<lparr>m_upstreams := [(?k, sample_upstream)]\<rparr>" and ?g1 = "relay_gateway\<lparr>s_index := 1\<rparr>"
  have u: "get_upstream_socket relay_env ''/'' (relay_gateway, ?c) = (Some ?k, ?g1, ?c1)"
    using two_routes_targets pick_upstream_resolved [of two_routes "''/''" no_hosts 0]
    by (simp add: get_upstream_socket_def relay_env_def relay_gateway_def conn_init_def update_alist_def Let_def conn_default_def)
  have m: "map_of (m_upstreams ?c1) ?k = Some sample_upstream" "m_client ?c1 = Some sample_client"
    by (simp_all add: conn_init_def)
  have s: "send_loop ''GET'' sample_upstream = (True, sample_upstream\<lparr>so_accept := [], so_out := ''GET''\<rparr>)"
    by (simp add: send_loop.simps sock_send_def sample_upstream_def)
  obtain keep g' c' where f: "forward_request relay_env ''GET'' ''/'' (relay_gateway, ?c) = (keep, g', c')"
    by (metis surj_pair)
  note r = forward_relays_stream [OF u m s f]
  have nk: "\<not> keep" by (rule conjunct1 [OF r])
  have "\<exists>got x (up2 :: sock) client'. m_client c' = Some client' \<and>
      concat (so_in (sample_upstream\<lparr>so_accept := [], so_out := ''GET''\<rparr>)) = got @ concat (so_in up2) \<and>
      prefix x got \<and> so_out client' = so_out sample_client @ x"
    using conjunct2 [OF mp [OF conjunct1 [OF conjunct2 [OF conjunct2 [OF r]]] TrueI]] by (elim exE conjE) (intro exI conjI, assumption+)
  then obtain got x client' and up2 :: sock where r: "m_client c' = Some client'" "prefix x got"
      and got: "concat (so_in (sample_upstream\<lparr>so_accept := [], so_out := ''GET''\<rparr>)) = got @ concat (so_in up2)"
      and out: "so_out client' = so_out sample_client @ x" by blast
  from got have "''hello'' = got @ concat (so_in up2)" by (simp add: sample_upstream_def)
  moreover from out have "so_out client' = x" by (simp add: sample_client_def)
  ultimately have "prefix (so_out client') ''hello''" using r(2) by (metis prefixI prefix_order.order_trans)
  with f r nk show ?thesis by auto
qed

section \<open>The gateway's invariant\<close>

definition gateway_ok :: "crypto \<Rightarrow> gateway \<Rightarrow> bool" where
  "gateway_ok cr g \<longleftrightarrow> config_ok (g_config g, fs_cache (g_filters g)) \<and>
     cache_sound cr (g_config g) (fs_cache (g_filters g))"

lemma cache_sound_ok: "cache_sound cr cfg c \<Longrightarrow> lru_ok c"
  by (simp add: cache_sound_def)

lemma config_ok_cache: "config_ok (cfg, c) \<Longrightarrow> lru_ok c' \<Longrightarrow> config_ok (cfg, c')"
  by (simp add: config_ok_def)

lemma auth_apply_sound:
  assumes "cache_sound cr cfg c"
  obtains v c' where "auth_apply cr cfg clk ctx c = Inr (v, c')" and "cache_sound cr cfg c'"
    and "v = Inr () \<or> v = unauthorized"
proof (cases "m_jwt_enabled cfg")
  case True
  with jwt_auth_sound [OF assms, of clk ctx] that show thesis by (auto simp: auth_apply_def)
next
  case False
  have "route_auth cfg ctx = Inr () \<or> route_auth cfg ctx = unauthorized"
    by (auto simp: route_auth_def Let_def split: option.splits)
  with False that assms show thesis by (auto simp: auth_apply_def)
qed

lemma chain_apply_sound:
  assumes "cache_sound cr cfg (fs_cache s)"
  obtains v s' where "chain_apply cr cfg clk ctx s = Inr (v, s')" and "cache_sound cr cfg (fs_cache s')"
    and "\<And>status body. v = Inl (status, body) \<Longrightarrow> status \<in> {HTTP_FORBIDDEN, HTTP_TOO_MANY_REQUESTS, HTTP_UNAUTHORIZED}"
proof -
  obtain bv where b: "blacklist_apply cfg ctx = bv" "bv = Inr () \<or> (\<exists>body. bv = Inl (HTTP_FORBIDDEN, body))"
    by (auto simp: blacklist_apply_def)
  obtain rv r where r: "rate_apply cfg (c_time clk) (fs_rate s) = (rv, r)" by fastforce
  then have rv: "rv = Inr () \<or> (\<exists>body. rv = Inl (HTTP_TOO_MANY_REQUESTS, body))"
    by (auto simp: rate_apply_def Let_def split: if_splits)
  obtain av c' where a: "auth_apply cr cfg clk ctx (fs_cache s) = Inr (av, c')" "cache_sound cr cfg c'"
      "av = Inr () \<or> av = unauthorized"
    by (rule auth_apply_sound [OF assms])
  show thesis
  proof (cases "bv = Inr () \<and> rv = Inr ()")
    case True
    with b r a that [of av "s\<lparr>fs_rate := r, fs_cache := c'\<rparr>"] show thesis
      by (auto simp: chain_apply_def default_filters_def unauthorized_def)
  next
    case False
    then consider "bv \<noteq> Inr ()" | "bv = Inr ()" "rv \<noteq> Inr ()" by blast
    then show thesis
    proof cases
      case 1
      with b assms that [of bv s] show thesis by (auto simp: chain_apply_def default_filters_def)
    next
      case 2
      with b r rv assms that [of rv "s\<lparr>fs_rate := r\<rparr>"] show thesis
        by (auto simp: chain_apply_def default_filters_def)
    qed
  qed
qed

lemma reload_sound:
  assumes "config_ok (cfg, c)" and "cache_sound cr cfg c" and "reload fs gai (cfg, c) = (ok, cfg', c')"
  shows "config_ok (cfg', c') \<and> cache_sound cr cfg' c'"
proof (cases "m_config_path cfg = []")
  case True
  with assms show ?thesis by (simp add: reload_def)
next
  case False
  with assms(3) have l: "load_from_file fs gai (m_config_path cfg) (cfg, c) = (ok, cfg', c')"
    by (simp add: reload_def)
  have ok: "config_ok (cfg', c')"
    using load_from_file_ok [OF assms(1), of fs gai "m_config_path cfg"] l by simp
  then have "lru_ok c'" by (simp add: config_ok_def)
  moreover have "lru_list (lru_new 10000 :: jwt_cache) = []" by (simp add: lru_new_def)
  ultimately have "cache_sound cr cfg' c'"
    using load_from_file_outcome [OF l] assms(2) cache_sound_empty [of c' cr cfg'] by auto
  with ok show ?thesis by simp
qed

lemma get_upstream_socket_frame:
  assumes "get_upstream_socket env path (g, c) = (r, g', c')"
  shows "g_config g' = g_config g \<and> g_filters g' = g_filters g \<and> g_metrics g' = g_metrics g \<and>
    m_client c' = m_client c \<and> (\<forall>key. r = Some key \<longrightarrow> map_of (m_upstreams c') key \<noteq> None)"
  using assms
  by (auto simp: get_upstream_socket_def Let_def update_alist_def split: prod.splits option.splits if_splits)

lemma forward_request_frame:
  assumes "forward_request env request path (g, c) = (keep, g', c')" and "m_client c \<noteq> None"
  shows "\<not> keep \<and> g_config g' = g_config g \<and> g_filters g' = g_filters g \<and> m_client c' \<noteq> None \<and>
    m_total_requests (g_metrics g') = m_total_requests (g_metrics g) \<and>
    m_filter_rejects (g_metrics g') = m_filter_rejects (g_metrics g)"
proof -
  obtain r g1 c1 where u: "get_upstream_socket env path (g, c) = (r, g1, c1)" by (metis surj_pair)
  from get_upstream_socket_frame [OF u] u assms show ?thesis
    by (auto simp: forward_request_def reply_def on_upstream_error_def
        split: option.splits prod.splits bool.splits)
qed

end
