(* ===== verification/Gw_Server.thy ===== *)
theory Gw_Server
  imports Gw_Conn
begin

text \<open>
  \<open>src/server/gateway_server.cpp\<close>: start-up, the loop over a connection, and the whole server
  as a machine whose operations are connections served one after the other. Here are the
  properties of the gateway as a whole: connections do not touch each other, the cache of
  tokens never changes an answer, and the administrative paths.
\<close>

section \<open>Serving a connection\<close>

text \<open>
  \<open>handleClient\<close>'s loop. Whether it ends is part of what is proved, so it is a partial function.
  The result is the state the loop leaves; the client is closed after it.
\<close>

partial_function (option) client_loop ::
  "surroundings \<Rightarrow> gateway \<times> gateway_conn \<Rightarrow> (ub + gateway \<times> gateway_conn) option" where
  "client_loop env gc =
     (if \<not> (case m_client (snd gc) of None \<Rightarrow> False | Some s \<Rightarrow> so_connected s) then Some (Inr gc)
      else case read_once (m_max_body_size (g_config (fst gc))) (snd gc) of
        (ok, c) \<Rightarrow>
          if \<not> ok then Some (Inr (fst gc, c))
          else
            (case process_request env (fst gc, c) of
               Inl e \<Rightarrow> Some (Inl e)
             | Inr r \<Rightarrow> if fst r then client_loop env (snd r) else Some (Inr (snd r))))"

definition GW_MAX_FD :: nat where "GW_MAX_FD = 65536"

text \<open>
  \<open>handleClient\<close> for the accepted socket \<open>fd\<close>; \<open>g_conns\<close> is indexed unchecked. Its array
  is made on first use, with default members.
\<close>

definition handleClient ::
  "surroundings \<Rightarrow> nat \<Rightarrow> sock \<Rightarrow> gateway \<times> (nat \<Rightarrow> gateway_conn) \<Rightarrow>
     (ub + sock \<times> gateway \<times> (nat \<Rightarrow> gateway_conn)) option" where
  "handleClient env fd client gs =
     (let (g, conns) = gs
      in if \<not> so_valid client then Some (Inr (sock_close client, g, conns))
         else if GW_MAX_FD \<le> fd then Some (Inl Undefined_behaviour)
         else (case client_loop env (g, conn_init client (conns fd)) of
             None \<Rightarrow> None
           | Some (Inl e) \<Rightarrow> Some (Inl e)
           | Some (Inr (g', c')) \<Rightarrow>
               (let client' = sock_close (the (m_client c'))
                in Some (Inr (client', g', conns(fd := c'\<lparr>m_client := Some client'\<rparr>))))))"

text \<open>
  \<open>gateway_server\<close>'s constructor: the first of the two places where the configuration exists is
  loaded; \<open>access\<close> is whether the file system has it.
\<close>

definition conf_path_1 :: string where "conf_path_1 = ''../../conf/gateway.conf''"
definition conf_path_2 :: string where "conf_path_2 = ''../conf/gateway.conf''"

definition gateway_server_init ::
  "(string \<Rightarrow> string option) \<Rightarrow> gai \<Rightarrow> gateway_config \<times> jwt_cache \<Rightarrow> gateway_config \<times> jwt_cache" where
  "gateway_server_init fs gai s =
     (if fs conf_path_1 \<noteq> None
      then snd (load_from_file fs gai conf_path_1 (set_config_path conf_path_1 (fst s), snd s))
      else if fs conf_path_2 \<noteq> None
      then snd (load_from_file fs gai conf_path_2 (set_config_path conf_path_2 (fst s), snd s))
      else s)"

section \<open>One request\<close>

lemma reply_client: "m_client c \<noteq> None \<Longrightarrow> m_client (reply st b c) \<noteq> None"
  by (simp add: reply_def)

lemma filter_request_sound:
  assumes "gateway_ok (env_crypto env) g" and "m_client c \<noteq> None"
  obtains g' c' where "filter_request env request mpv client (g, c) = Inr (False, g', c')"
    and "gateway_ok (env_crypto env) g'" and "m_client c' \<noteq> None"
    and "m_total_requests (g_metrics g') = m_total_requests (g_metrics g)"
proof -
  let ?ctx = "make_context request mpv client"
  have sound: "cache_sound (env_crypto env) (g_config g) (fs_cache (g_filters g))"
    using assms(1) by (simp add: gateway_ok_def)
  obtain v s where ch: "chain_apply (env_crypto env) (g_config g) (env_clock env) ?ctx (g_filters g) = Inr (v, s)"
      and s: "cache_sound (env_crypto env) (g_config g) (fs_cache s)"
    by (rule chain_apply_sound [OF sound])
  have g2: "gateway_ok (env_crypto env) (g\<lparr>g_filters := s\<rparr>)"
    using assms(1) s config_ok_cache [OF _ cache_sound_ok [OF s]] by (auto simp: gateway_ok_def)
  show thesis
  proof (cases v)
    case (Inl sb)
    obtain st b where sb: "sb = (st, b)" by fastforce
    show thesis
      using that [OF _ _ reply_client [OF assms(2)]] g2 ch Inl sb
      by (simp add: filter_request_def gateway_ok_def on_filter_reject_def)
  next
    case (Inr u)
    obtain keep g' c' where f: "forward_request env request (fst (snd mpv)) (g\<lparr>g_filters := s\<rparr>, c) = (keep, g', c')"
      by (metis surj_pair)
    have fr: "\<not> keep" "g_config g' = g_config g" "g_filters g' = s" "m_client c' \<noteq> None"
        "m_total_requests (g_metrics g') = m_total_requests (g_metrics g)"
      using forward_request_frame [OF f assms(2)] by simp_all
    have "gateway_ok (env_crypto env) g'" using g2 fr by (simp add: gateway_ok_def)
    then show thesis using that [of g' c'] fr ch Inr f by (simp add: filter_request_def)
  qed
qed

lemma admin_reload_sound:
  assumes "gateway_ok cr g" and "m_client c \<noteq> None"
  obtains g' c' where "admin_reload env (g, c) = (False, g', c')"
    and "gateway_ok cr g'" and "m_client c' \<noteq> None"
    and "m_total_requests (g_metrics g') = m_total_requests (g_metrics g)"
proof -
  obtain ok cfg cache where r: "reload (env_files env) (env_gai env) (g_config g, fs_cache (g_filters g)) = (ok, cfg, cache)"
    by (metis surj_pair)
  let ?g = "g\<lparr>g_config := cfg, g_filters := (g_filters g)\<lparr>fs_cache := cache\<rparr>\<rparr>"
  have "gateway_ok cr ?g"
    using reload_sound [OF _ _ r, of cr] assms(1) by (simp add: gateway_ok_def)
  then show thesis
    using that [of ?g "if ok then reply HTTP_OK (''reload ok'' @ [chr_lf]) c
        else reply HTTP_INTERNAL_ERROR (''reload failed'' @ [chr_lf]) c"] reply_client [OF assms(2)] r
    by (simp add: admin_reload_def)
qed

lemma serve_request_sound:
  assumes "gateway_ok (env_crypto env) g" and "m_client c \<noteq> None"
  obtains g' c' where "serve_request env request client (g, c) = Inr (False, g', c')"
    and "gateway_ok (env_crypto env) g'" and "m_client c' \<noteq> None"
    and "m_total_requests (g_metrics g') = m_total_requests (g_metrics g)"
proof (cases "parse_request_line request")
  case None
  then show thesis
    using that [OF _ assms(1) reply_client [OF assms(2)] refl] by (simp add: serve_request_def)
next
  case (Some mpv)
  let ?path = "fst (snd mpv)"
  consider "prefix ADMIN_METRICS_PATH ?path"
    | "\<not> prefix ADMIN_METRICS_PATH ?path" "prefix ADMIN_RELOAD_PATH ?path"
    | "\<not> prefix ADMIN_METRICS_PATH ?path" "\<not> prefix ADMIN_RELOAD_PATH ?path" "m_oversize c"
    | "\<not> prefix ADMIN_METRICS_PATH ?path" "\<not> prefix ADMIN_RELOAD_PATH ?path" "\<not> m_oversize c" by blast
  then show thesis
  proof cases
    case 1
    then show thesis using that [OF _ assms(1) reply_client [OF assms(2)] refl] Some
      by (simp add: serve_request_def)
  next
    case 2
    from admin_reload_sound [OF assms, of env] 2 Some that show thesis
      by (auto simp: serve_request_def)
  next
    case 3
    then show thesis using that [OF _ assms(1) reply_client [OF assms(2)] refl] Some
      by (simp add: serve_request_def)
  next
    case 4
    from filter_request_sound [OF assms, of request mpv client] 4 Some that show thesis
      by (auto simp: serve_request_def)
  qed
qed

lemma process_request_sound:
  assumes "gateway_ok (env_crypto env) g" and "m_client c \<noteq> None"
  obtains g' c' where "process_request env (g, c) = Inr (False, g', c')"
    and "gateway_ok (env_crypto env) g'" and "m_client c' \<noteq> None"
    and "m_total_requests (g_metrics g') = m_total_requests (g_metrics g) + 1"
proof -
  obtain client where cl: "m_client c = Some client" using assms(2) by auto
  let ?g = "g\<lparr>g_metrics := on_request (g_metrics g)\<rparr>" and ?c = "c\<lparr>m_request := [], m_read_idx := 0\<rparr>"
  have g: "gateway_ok (env_crypto env) ?g" using assms(1) by (simp add: gateway_ok_def)
  have c: "m_client ?c \<noteq> None" using assms(2) by simp
  obtain g' c' where s: "serve_request env (m_request c) client (?g, ?c) = Inr (False, g', c')"
      "gateway_ok (env_crypto env) g'" "m_client c' \<noteq> None"
      "m_total_requests (g_metrics g') = m_total_requests (g_metrics ?g)"
    by (rule serve_request_sound [OF g c])
  show thesis
    using that [OF _ s(2,3)] s(1,4) cl by (simp add: process_request_def on_request_def)
qed

lemma client_loop_once:
  assumes "gateway_ok (env_crypto env) g" and "m_client c \<noteq> None"
  obtains g' c' where "client_loop env (g, c) = Some (Inr (g', c'))"
    and "gateway_ok (env_crypto env) g'" and "m_client c' \<noteq> None"
    and "m_total_requests (g_metrics g') = m_total_requests (g_metrics g) \<or>
         m_total_requests (g_metrics g') = m_total_requests (g_metrics g) + 1"
proof -
  obtain client where cl: "m_client c = Some client" using assms(2) by auto
  show thesis
  proof (cases "so_connected client")
    case False
    with cl assms that [of g c] show thesis by (simp add: client_loop.simps)
  next
    case True
    obtain ok c1 where r: "read_once (m_max_body_size (g_config g)) c = (ok, c1)" by fastforce
    have c1: "m_client c1 \<noteq> None" using read_once_fields [OF r] assms(2) by simp
    show thesis
    proof (cases ok)
      case False
      with cl True r c1 assms that [of g c1] show thesis by (simp add: client_loop.simps)
    next
      case ok: True
      obtain g' c' where p: "process_request env (g, c1) = Inr (False, g', c')"
          "gateway_ok (env_crypto env) g'" "m_client c' \<noteq> None"
          "m_total_requests (g_metrics g') = m_total_requests (g_metrics g) + 1"
        by (rule process_request_sound [OF assms(1) c1])
      with cl True r ok that [of g' c'] show thesis by (simp add: client_loop.simps [of env "(g, c)"])
    qed
  qed
qed

section \<open>Connections\<close>

lemma handleClient_sound:
  assumes "gateway_ok (env_crypto env) g" and "fd < GW_MAX_FD"
  obtains client' g' conns' where "handleClient env fd client (g, conns) = Some (Inr (client', g', conns'))"
    and "gateway_ok (env_crypto env) g'" and "\<not> so_connected client'"
    and "m_total_requests (g_metrics g') = m_total_requests (g_metrics g) \<or>
         m_total_requests (g_metrics g') = m_total_requests (g_metrics g) + 1"
    and "\<And>conns2. \<exists>conns2'. handleClient env fd client (g, conns2) = Some (Inr (client', g', conns2'))"
proof (cases "so_valid client")
  case False
  then show thesis using that [of "sock_close client" g conns] assms
    by (simp add: handleClient_def sock_close_def)
next
  case True
  have c: "m_client (conn_init client c0) \<noteq> None" for c0 by (simp add: conn_init_def)
  have same: "conn_init client c0 = conn_init client c1" for c0 c1 :: gateway_conn
    by (simp add: conn_init_def)
  obtain g' c' where l: "client_loop env (g, conn_init client (conns fd)) = Some (Inr (g', c'))"
      "gateway_ok (env_crypto env) g'" "m_client c' \<noteq> None"
      "m_total_requests (g_metrics g') = m_total_requests (g_metrics g) \<or>
       m_total_requests (g_metrics g') = m_total_requests (g_metrics g) + 1"
    by (rule client_loop_once [OF assms(1) c])
  have "handleClient env fd client (g, conns2) =
      Some (Inr (sock_close (the (m_client c')), g',
        conns2(fd := c'\<lparr>m_client := Some (sock_close (the (m_client c')))\<rparr>)))" for conns2
    using l(1) assms(2) True same [of "conns2 fd" "conns fd"] by (simp add: handleClient_def Let_def)
  then show thesis
    using that [of "sock_close (the (m_client c'))" g'] l(2,4) by (simp add: sock_close_def)
qed

text \<open>
  C2: However the peers behave, as long as their streams end, \<open>handleClient\<close> returns on a descriptor of the
  table without undefined behaviour, leaves no client open and the gateway well formed, and touches no other
  connection's slot; and what it does, to the client and to the gateway, does not depend on what an earlier connection
  left in the slot of its descriptor.
\<close>

theorem connection_isolated:
  assumes "gateway_ok (env_crypto env) g" and "fd < GW_MAX_FD"
  shows "\<exists>client' g' conns'. handleClient env fd client (g, conns) = Some (Inr (client', g', conns')) \<and>
    \<not> so_connected client' \<and> gateway_ok (env_crypto env) g' \<and> (\<forall>fd2. fd2 \<noteq> fd \<longrightarrow> conns' fd2 = conns fd2) \<and>
    (\<forall>conns2. \<exists>conns2'. handleClient env fd client (g, conns2) = Some (Inr (client', g', conns2')))"
proof -
  obtain client' g' conns' where h: "handleClient env fd client (g, conns) = Some (Inr (client', g', conns'))"
    and ok: "gateway_ok (env_crypto env) g'" "\<not> so_connected client'"
    and iso: "\<And>conns2. \<exists>conns2'. handleClient env fd client (g, conns2) = Some (Inr (client', g', conns2'))"
    using handleClient_sound [OF assms, of client conns] by metis
  have "\<forall>fd2. fd2 \<noteq> fd \<longrightarrow> conns' fd2 = conns fd2"
    using h by (auto simp: handleClient_def Let_def split: if_splits option.splits sum.splits)
  with h ok iso show ?thesis by blast
qed

section \<open>The server as a machine\<close>

definition gateway_start :: "(string \<Rightarrow> string option) \<Rightarrow> gai \<Rightarrow> gateway" where
  "gateway_start fs gai =
     (let (cfg, cache) = gateway_server_init fs gai (GatewayConfig_init, jwt_cache_init)
      in \<lparr>g_config = cfg, g_filters = \<lparr>fs_rate = rate_limit_init, fs_cache = cache\<rparr>,
          g_metrics = metrics_init, s_index = 0\<rparr>)"

text \<open>
  An operation is a connection with its surroundings at that time; the cryptographic library is the
  same throughout. A descriptor beyond the table has no defined effect and is skipped here.
\<close>

definition server_step ::
  "crypto \<Rightarrow> gateway \<times> (nat \<Rightarrow> gateway_conn) \<Rightarrow> surroundings \<times> nat \<times> sock \<Rightarrow>
     gateway \<times> (nat \<Rightarrow> gateway_conn)" where
  "server_step cr gs x =
     (let (env, fd, client) = x
      in case handleClient (env\<lparr>env_crypto := cr\<rparr>) fd client gs of
           Some (Inr (_, gs')) \<Rightarrow> gs'
         | _ \<Rightarrow> gs)"

interpretation server: op_machine "server_step cr" "\<lambda>gs. gateway_ok cr (fst gs)" for cr
proof unfold_locales
  fix gs :: "gateway \<times> (nat \<Rightarrow> gateway_conn)" and x :: "surroundings \<times> nat \<times> sock"
  assume ok: "gateway_ok cr (fst gs)"
  obtain env fd client where x: "x = (env, fd, client)" by (metis surj_pair)
  obtain g conns where gs: "gs = (g, conns)" by fastforce
  let ?env = "env\<lparr>env_crypto := cr\<rparr>"
  show "gateway_ok cr (fst (server_step cr gs x))"
  proof (cases "fd < GW_MAX_FD")
    case True
    have "gateway_ok (env_crypto ?env) g" using ok gs by simp
    then obtain client' g' conns' where
      h: "handleClient ?env fd client (g, conns) = Some (Inr (client', g', conns'))" "gateway_ok (env_crypto ?env) g'"
      using handleClient_sound [of ?env g fd client conns] True by metis
    then have "server_step cr gs x = (g', conns')" by (simp add: server_step_def x gs)
    with h(2) show ?thesis by simp
  next
    case False
    then have "fst (server_step cr gs x) = g"
      by (simp add: server_step_def x gs handleClient_def)
    with ok gs show ?thesis by simp
  qed
qed

lemma gateway_start_ok: "gateway_ok cr (gateway_start fs gai)"
proof -
  have empty: "lru_list jwt_cache_init = []" by (simp add: jwt_cache_init_def lru_new_def)
  have path: "config_ok (set_config_path p GatewayConfig_init, jwt_cache_init)" for p
    using config_init_ok by (rule set_config_path_ok)
  define sound where "sound s \<longleftrightarrow> config_ok s \<and> cache_sound cr (fst s) (snd s)" for s :: "gateway_config \<times> jwt_cache"
  have load: "sound (snd (load_from_file fs gai p (set_config_path p GatewayConfig_init, jwt_cache_init)))" for p
  proof -
    obtain ok cfg cache where l: "load_from_file fs gai p (set_config_path p GatewayConfig_init, jwt_cache_init) = (ok, cfg, cache)"
      by (metis surj_pair)
    have c: "config_ok (cfg, cache)" using load_from_file_ok [OF path, of fs gai p p] l by simp
    have "lru_list cache = []"
      using load_from_file_outcome [OF l] empty by (cases ok) (auto simp: lru_new_def)
    then have "cache_sound cr cfg cache" using c by (intro cache_sound_empty) (simp_all add: config_ok_def)
    with c l show ?thesis by (simp add: sound_def)
  qed
  have "cache_sound cr GatewayConfig_init jwt_cache_init"
    using empty config_init_ok by (intro cache_sound_empty) (simp_all add: config_ok_def)
  then have "sound (gateway_server_init fs gai (GatewayConfig_init, jwt_cache_init))"
    using load config_init_ok by (simp add: gateway_server_init_def sound_def)
  then show ?thesis
    by (simp add: gateway_start_def sound_def gateway_ok_def split_def Let_def)
qed

text \<open>
  C1: After any connections, with any reloads among them, the cache of verified tokens changes no
  answer: while JWT is on, a request whose clock readings agree is let through by the
  authentication filter exactly when it carries a token that the secret, issuer and audience of
  the configuration in force now accept at this time.
\<close>

theorem cached_auth_is_fresh:
  assumes "foldl (server_step cr) (gateway_start fs gai, conns0) ops = (g, conns)"
    and "m_jwt_enabled (g_config g)" and "c_now clk = c_verify clk"
  shows "\<exists>v cache'. auth_apply cr (g_config g) clk ctx (fs_cache (g_filters g)) = Inr (v, cache') \<and>
    (v = Inr () \<longleftrightarrow> (\<exists>token. bearer_token (raw_request ctx) = Some token \<and>
       verify_hs256 cr token (m_jwt_secret (g_config g)) (m_jwt_issuer (g_config g))
         (m_jwt_audience (g_config g)) (c_now clk) = Inr ()))"
proof -
  have "gateway_ok cr g"
    using server.run_inv [of cr "(gateway_start fs gai, conns0)" ops] gateway_start_ok assms(1) by simp
  then have s: "cache_sound cr (g_config g) (fs_cache (g_filters g))" by (simp add: gateway_ok_def)
  obtain v c' where "jwt_auth cr (g_config g) clk ctx (fs_cache (g_filters g)) = Inr (v, c')"
    and "cache_sound cr (g_config g) c'" and "v = Inr () \<or> v = unauthorized"
    and "v = Inr () \<Longrightarrow> auth_token_ok cr (g_config g) ctx (c_now clk) \<or> auth_token_ok cr (g_config g) ctx (c_verify clk)"
    and "auth_token_ok cr (g_config g) ctx (c_verify clk) \<Longrightarrow> v = Inr ()"
    using jwt_auth_sound [OF s, of clk ctx] by metis
  then show ?thesis using assms(2,3)
    by (auto simp: auth_apply_def auth_token_ok_def verifies_def split: option.splits)
qed

definition sample_env :: surroundings where
  "sample_env = \<lparr>env_crypto = sample_crypto, env_files = sample_file, env_gai = no_hosts,
     env_clock = \<lparr>c_time = 5, c_now = 5, c_verify = 5\<rparr>, env_dial = \<lambda>a t. None\<rparr>"

theorem connection_isolated_witness:
  "\<exists>client' g' conns'. handleClient sample_env 9 sample_client (gateway_start sample_file no_hosts, \<lambda>_. conn_default) =
     Some (Inr (client', g', conns')) \<and> \<not> so_connected client'"
proof -
  have "gateway_ok (env_crypto sample_env) (gateway_start sample_file no_hosts)" by (rule gateway_start_ok)
  moreover have "9 < GW_MAX_FD" by (simp add: GW_MAX_FD_def)
  ultimately show ?thesis
    using connection_isolated [of sample_env "gateway_start sample_file no_hosts" 9 sample_client "\<lambda>_. conn_default"]
    by blast
qed

definition jwt_file :: "string \<Rightarrow> string option" where
  "jwt_file p = (if p = conf_path_1 then Some (''jwt_enabled on'' @ [chr_lf] @ ''route / h:1'' @ [chr_lf]) else None)"

lemma jwt_file_enabled: "m_jwt_enabled (g_config (gateway_start jwt_file no_hosts))"
  by code_simp

theorem cached_auth_is_fresh_witness:
  "\<exists>v cache'. auth_apply sample_crypto (g_config (gateway_start jwt_file no_hosts)) \<lparr>c_time = 5, c_now = 5, c_verify = 5\<rparr>
     \<lparr>ctx_method = ''GET'', ctx_path = ''/'', ctx_version = [], client_address = [], raw_request = []\<rparr>
     (fs_cache (g_filters (gateway_start jwt_file no_hosts))) = Inr (v, cache') \<and> v \<noteq> Inr ()"
proof -
  have none: "bearer_token [] = None" by code_simp
  show ?thesis
    using cached_auth_is_fresh [of sample_crypto jwt_file no_hosts "\<lambda>_. conn_default" "[]"
        "gateway_start jwt_file no_hosts" "\<lambda>_. conn_default" "\<lparr>c_time = 5, c_now = 5, c_verify = 5\<rparr>"
        "\<lparr>ctx_method = ''GET'', ctx_path = ''/'', ctx_version = [], client_address = [], raw_request = []\<rparr>"]
      jwt_file_enabled none by auto
qed

section \<open>Before the filters and after them\<close>

text \<open>
  A request whose path starts with the reload path reloads the configuration before any filter
  has seen it: neither the blacklist nor the rate limit nor the authentication is asked, and
  neither their counters nor the router's index change. A client that is rejected for every other
  request can do it.
\<close>

theorem admin_reload_unfiltered:
  assumes "m_client c = Some client" and "parse_request_line (m_request c) = Some (mthd, path, version)"
    and "prefix ADMIN_RELOAD_PATH path"
  shows "\<exists>g' c'. process_request env (g, c) = Inr (False, g', c') \<and>
    (g_config g', fs_cache (g_filters g')) =
      snd (reload (env_files env) (env_gai env) (g_config g, fs_cache (g_filters g))) \<and>
    fs_rate (g_filters g') = fs_rate (g_filters g) \<and>
    m_filter_rejects (g_metrics g') = m_filter_rejects (g_metrics g) \<and> s_index g' = s_index g"
proof -
  have "\<not> prefix ADMIN_METRICS_PATH path"
  proof
    assume "prefix ADMIN_METRICS_PATH path"
    with assms(3) have "prefix ADMIN_METRICS_PATH ADMIN_RELOAD_PATH \<or> prefix ADMIN_RELOAD_PATH ADMIN_METRICS_PATH"
      by (metis prefix_same_cases)
    then show False by (simp add: ADMIN_METRICS_PATH_def ADMIN_RELOAD_PATH_def)
  qed
  then show ?thesis
    using assms by (auto simp: process_request_def serve_request_def admin_reload_def on_request_def split: prod.splits)
qed

text \<open>
  C10: A request the filters reject reaches no upstream: no socket is dialled or written, the
  router's index stays, the rejection is counted, and the client is sent the answer with the filter's status (401, 403
  or 429) and text, all of it unless the client refuses to take more.
\<close>

theorem rejected_request_not_forwarded:
  assumes "m_client c = Some client" and "parse_request_line (m_request c) = Some mpv"
    and "\<not> prefix ADMIN_METRICS_PATH (fst (snd mpv))" and "\<not> prefix ADMIN_RELOAD_PATH (fst (snd mpv))"
    and "\<not> m_oversize c"
    and "chain_apply (env_crypto env) (g_config g) (env_clock env) (make_context (m_request c) mpv client) (g_filters g)
      = Inr (Inl (status, body), s)"
  shows "\<exists>g' c' client' x. process_request env (g, c) = Inr (False, g', c') \<and>
    m_upstreams c' = m_upstreams c \<and> s_index g' = s_index g \<and> g_filters g' = s \<and>
    m_filter_rejects (g_metrics g') = m_filter_rejects (g_metrics g) + 1 \<and>
    m_client c' = Some client' \<and> so_out client' = so_out client @ x \<and>
    prefix x (response_text status (status_text status) body) \<and>
    (x = response_text status (status_text status) body \<or> refused client client') \<and> status \<in> {401, 403, 429}"
proof -
  let ?text = "response_text status (status_text status) body"
  obtain ok client' where l: "send_loop ?text client = (ok, client')" by fastforce
  obtain k where k: "so_out client' = so_out client @ take k ?text" "take k ?text = ?text \<or> refused client client'"
    by (rule send_loop_outcome [OF l])
  have st: "status \<in> {401, 403, 429}" "body \<noteq> []" using chain_rejection [OF assms(6)] by auto
  let ?g = "g\<lparr>g_metrics := on_filter_reject (on_request (g_metrics g)), g_filters := s\<rparr>"
  let ?c = "c\<lparr>m_request := [], m_read_idx := 0, m_client := Some client'\<rparr>"
  have "process_request env (g, c) = Inr (False, ?g, ?c)"
    using assms l st by (auto simp: process_request_def serve_request_def filter_request_def reply_def
        send_simple_response_def)
  then show ?thesis
    using k st(1) take_is_prefix [of k ?text]
    by (intro exI [of _ ?g] exI [of _ ?c] exI [of _ client'] exI [of _ "take k ?text"])
      (simp add: on_filter_reject_def on_request_def)
qed

definition blocking_gateway :: gateway where
  "blocking_gateway = (gateway_start (\<lambda>p. None) no_hosts)\<lparr>g_config := GatewayConfig_init\<lparr>m_blacklist := [''0.0.0.1:9'']\<rparr>\<rparr>"

definition conn_with :: "string \<Rightarrow> gateway_conn" where
  "conn_with req = (conn_init sample_client conn_default)\<lparr>m_request := req\<rparr>"

theorem admin_reload_unfiltered_witness:
  "\<exists>g' c'. process_request sample_env (blocking_gateway, conn_with (''GET /__admin/reload HTTP/1.1'' @ crlf)) = Inr (False, g', c') \<and>
     m_filter_rejects (g_metrics g') = m_filter_rejects (g_metrics blocking_gateway)"
proof -
  have p: "parse_request_line (''GET /__admin/reload HTTP/1.1'' @ crlf) = Some (''GET'', ''/__admin/reload'', ''HTTP/1.1'')"
    by code_simp
  have pre: "prefix ADMIN_RELOAD_PATH ''/__admin/reload''" by (simp add: ADMIN_RELOAD_PATH_def)
  show ?thesis
    using admin_reload_unfiltered [of "conn_with (''GET /__admin/reload HTTP/1.1'' @ crlf)" sample_client "''GET''" "''/__admin/reload''" "''HTTP/1.1''" sample_env blocking_gateway, OF _ _ pre] p
    by (auto simp: conn_with_def conn_init_def)
qed

theorem rejected_request_not_forwarded_witness:
  "\<exists>g' c'. process_request sample_env (blocking_gateway, conn_with (''GET / HTTP/1.1'' @ crlf)) = Inr (False, g', c') \<and>
     m_filter_rejects (g_metrics g') = m_filter_rejects (g_metrics blocking_gateway) + 1"
proof -
  let ?mpv = "(''GET'', ''/'', ''HTTP/1.1'')" and ?req = "''GET / HTTP/1.1'' @ crlf"
  have p: "parse_request_line ?req = Some ?mpv" by code_simp
  have t: "IPv4_insert (IPv4_new 1 9) = ''0.0.0.1:9''"
    by (simp add: IPv4_insert_def IPv4_new_def Let_def show_nat.simps digit_char_def) code_simp
  have "blacklist_apply (g_config blocking_gateway) (make_context ?req ?mpv sample_client) = Inl (HTTP_FORBIDDEN, ''blocked'' @ [chr_lf])"
    by (simp add: blacklist_apply_def blocking_gateway_def make_context_def sample_client_def t)
  then have ch: "chain_apply (env_crypto sample_env) (g_config blocking_gateway) (env_clock sample_env)
      (make_context (m_request (conn_with ?req)) ?mpv sample_client) (g_filters blocking_gateway)
      = Inr (Inl (HTTP_FORBIDDEN, ''blocked'' @ [chr_lf]), g_filters blocking_gateway)"
    by (simp add: chain_apply_def default_filters_def conn_with_def)
  show ?thesis
    using rejected_request_not_forwarded [of "conn_with ?req" sample_client ?mpv, OF _ _ _ _ _ ch] p
    by (auto simp: conn_with_def conn_init_def ADMIN_METRICS_PATH_def ADMIN_RELOAD_PATH_def http_codes)
qed

end
