(* ===== verification/Timers.thy ===== *)
theory Timers
  imports Gw_Prelude
begin

text \<open>
  \<open>src/CoroutineLibrary/timer.cpp\<close>: timers and the set that orders them. A timer is an object
  that the set and its users share, so timers live in a store and the set holds their names. The
  set's comparator looks at the deadline only: two timers with one deadline are equal to it. Times
  are nanoseconds of \<open>system_clock\<close>; every reading of the clock is an argument.
\<close>

record timer =
  tm_recurring :: bool
  tm_ms :: nat
  tm_next :: int
  tm_cb :: "nat option"

record timer_manager =
  tm_store :: "nat \<Rightarrow> timer"
  tm_fresh :: nat
  m_timers :: "nat list"
  m_tickled :: bool
  m_previouseTime :: int

text \<open>
  The count of a \<open>std::chrono\<close> duration is a signed 64-bit number. \<open>std::chrono::milliseconds(ms)\<close> narrows the
  \<open>uint64_t\<close> to one, it is scaled to nanoseconds and added to a point of time in that type; what does not fit
  wraps around. Differences of readings and deadlines fit, since a clock's readings are not negative.
\<close>

definition ms_ns :: "nat \<Rightarrow> int" where
  "ms_ns ms = i64 (i64 (int ms) * 1000000)"

definition after_ms :: "int \<Rightarrow> nat \<Rightarrow> int" where
  "after_ms start ms = i64 (start + ms_ns ms)"

definition TimerManager_init :: "int \<Rightarrow> timer_manager" where
  "TimerManager_init now =
     \<lparr>tm_store = (\<lambda>_. \<lparr>tm_recurring = False, tm_ms = 0, tm_next = 0, tm_cb = None\<rparr>), tm_fresh = 0,
      m_timers = [], m_tickled = False, m_previouseTime = now\<rparr>"

text \<open>A deadline that fits is what it should be.\<close>

lemma after_ms_in_range:
  assumes "0 \<le> now" and "now + int ms * 1000000 < 2 ^ 63"
  shows "after_ms now ms = now + int ms * 1000000"
proof -
  have "int ms < 2 ^ 63" using assms by simp
  then have "ms_ns ms = int ms * 1000000" using assms by (simp add: ms_ns_def i64_id)
  then show ?thesis using assms by (simp add: after_ms_def i64_id)
qed

lemma ms_ns_hour [simp]: "ms_ns 3600000 = 3600000000000"
  by (simp add: ms_ns_def i64_def)

section \<open>The ordered set\<close>

definition deadline :: "timer_manager \<Rightarrow> nat \<Rightarrow> int" where
  "deadline m t = tm_next (tm_store m t)"

text \<open>\<open>m_timers.find(t)\<close>: the element that is neither before nor after \<open>t\<close>.\<close>

definition set_find :: "timer_manager \<Rightarrow> nat \<Rightarrow> nat option" where
  "set_find m t = find (\<lambda>e. \<not> deadline m e < deadline m t \<and> \<not> deadline m t < deadline m e) (m_timers m)"

definition set_erase :: "nat \<Rightarrow> timer_manager \<Rightarrow> timer_manager" where
  "set_erase e m = m\<lparr>m_timers := filter (\<lambda>x. x \<noteq> e) (m_timers m)\<rparr>"

text \<open>\<open>insert\<close>: nothing is inserted when an equal element is there. The result is the position's
  element.\<close>

definition set_insert :: "nat \<Rightarrow> timer_manager \<Rightarrow> nat \<times> timer_manager" where
  "set_insert t m =
     (case set_find m t of
        Some e \<Rightarrow> (e, m)
      | None \<Rightarrow> (t, m\<lparr>m_timers := takeWhile (\<lambda>e. deadline m e < deadline m t) (m_timers m) @ t #
                                dropWhile (\<lambda>e. deadline m e < deadline m t) (m_timers m)\<rparr>))"

definition update_timer :: "nat \<Rightarrow> timer \<Rightarrow> timer_manager \<Rightarrow> timer_manager" where
  "update_timer t v m = m\<lparr>tm_store := (tm_store m)(t := v)\<rparr>"

section \<open>The operations\<close>

definition timer_cancel :: "nat \<Rightarrow> timer_manager \<Rightarrow> bool \<times> timer_manager" where
  "timer_cancel t m =
     (if tm_cb (tm_store m t) = None then (False, m)
      else
       (let m = update_timer t ((tm_store m t)\<lparr>tm_cb := None\<rparr>) m
        in case set_find m t of None \<Rightarrow> (True, m) | Some e \<Rightarrow> (True, set_erase e m)))"

definition timer_refresh :: "int \<Rightarrow> nat \<Rightarrow> timer_manager \<Rightarrow> bool \<times> timer_manager" where
  "timer_refresh now t m =
     (if tm_cb (tm_store m t) = None then (False, m)
      else case set_find m t of None \<Rightarrow> (False, m)
      | Some e \<Rightarrow>
          (let m = set_erase e m;
               m = update_timer t ((tm_store m t)\<lparr>tm_next := after_ms now (tm_ms (tm_store m t))\<rparr>) m
           in (True, snd (set_insert t m))))"

text \<open>\<open>addTimer(timer)\<close>; the result says whether \<open>onTimerInsertedAtFront\<close> is called.\<close>

definition insert_timer :: "nat \<Rightarrow> timer_manager \<Rightarrow> bool \<times> timer_manager" where
  "insert_timer t m =
     (let (e, m) = set_insert t m;
          at_front = (hd (m_timers m) = e \<and> \<not> m_tickled m)
      in (at_front, if at_front then m\<lparr>m_tickled := True\<rparr> else m))"

definition addTimer :: "int \<Rightarrow> nat \<Rightarrow> nat \<Rightarrow> bool \<Rightarrow> timer_manager \<Rightarrow> bool \<times> nat \<times> timer_manager" where
  "addTimer now ms cb recurring m =
     (let t = tm_fresh m;
          m = (update_timer t \<lparr>tm_recurring = recurring, tm_ms = ms, tm_next = after_ms now ms, tm_cb = Some cb\<rparr> m)
                \<lparr>tm_fresh := t + 1\<rparr>;
          (front, m) = insert_timer t m
      in (front, t, m))"

definition timer_reset :: "int \<Rightarrow> nat \<Rightarrow> bool \<Rightarrow> nat \<Rightarrow> timer_manager \<Rightarrow> (bool \<times> bool) \<times> timer_manager" where
  "timer_reset now ms from_now t m =
     (if ms = tm_ms (tm_store m t) \<and> \<not> from_now then ((True, False), m)
      else if tm_cb (tm_store m t) = None then ((False, False), m)
      else case set_find m t of None \<Rightarrow> ((False, False), m)
      | Some e \<Rightarrow>
          (let m = set_erase e m;
               start = (if from_now then now else i64 (tm_next (tm_store m t) - ms_ns (tm_ms (tm_store m t))));
               m = update_timer t ((tm_store m t)\<lparr>tm_ms := ms, tm_next := after_ms start ms\<rparr>) m;
               (front, m) = insert_timer t m
           in ((True, front), m)))"

definition getNextTimer :: "int \<Rightarrow> timer_manager \<Rightarrow> u64 \<times> timer_manager" where
  "getNextTimer now m =
     (let m = m\<lparr>m_tickled := False\<rparr>
      in if m_timers m = [] then (not 0, m)
         else (let time = deadline m (hd (m_timers m))
               in if time \<le> now then (0, m) else (of_int ((time - now) div 1000000), m)))"

definition hasTimer :: "timer_manager \<Rightarrow> bool" where
  "hasTimer m = (m_timers m \<noteq> [])"

definition detectClockRollover :: "int \<Rightarrow> timer_manager \<Rightarrow> bool \<times> timer_manager" where
  "detectClockRollover now m =
     (now < m_previouseTime m - ms_ns (60 * 60 * 1000), m\<lparr>m_previouseTime := now\<rparr>)"

text \<open>One turn of \<open>listExpiredCb\<close>'s loop: the callback it collects, and the manager.\<close>

definition expire_front :: "int \<Rightarrow> timer_manager \<Rightarrow> nat option \<times> timer_manager" where
  "expire_front now m =
     (let temp = hd (m_timers m);
          cb = tm_cb (tm_store m temp);
          m = m\<lparr>m_timers := tl (m_timers m)\<rparr>
      in if tm_recurring (tm_store m temp)
         then (cb, snd (set_insert temp
                (update_timer temp ((tm_store m temp)\<lparr>tm_next := after_ms now (tm_ms (tm_store m temp))\<rparr>) m)))
         else (cb, update_timer temp ((tm_store m temp)\<lparr>tm_cb := None\<rparr>) m))"

text \<open>The loop itself; it may not end, so it is a partial function.\<close>

partial_function (option) expire_loop ::
  "int \<Rightarrow> bool \<Rightarrow> timer_manager \<Rightarrow> nat option list \<Rightarrow> (nat option list \<times> timer_manager) option" where
  "expire_loop now rollover m cbs =
     (if m_timers m \<noteq> [] \<and> rollover \<or> m_timers m \<noteq> [] \<and> deadline m (hd (m_timers m)) \<le> now
      then expire_loop now rollover (snd (expire_front now m)) (cbs @ [fst (expire_front now m)])
      else Some (cbs, m))"

definition listExpiredCb :: "int \<Rightarrow> int \<Rightarrow> timer_manager \<Rightarrow> (nat option list \<times> timer_manager) option" where
  "listExpiredCb now now' m =
     (let (rollover, m) = detectClockRollover now' m in expire_loop now rollover m [])"

section \<open>The invariant\<close>

text \<open>The set's elements are in the order of their deadlines, no two of them equal, and known.\<close>

definition timers_ok :: "timer_manager \<Rightarrow> bool" where
  "timers_ok m \<longleftrightarrow> sorted_wrt (<) (map (deadline m) (m_timers m)) \<and> (\<forall>t \<in> set (m_timers m). t < tm_fresh m)"

lemma deadline_frame [simp]:
  "deadline (m\<lparr>m_timers := ts\<rparr>) = deadline m" "deadline (m\<lparr>m_tickled := b\<rparr>) = deadline m"
  "deadline (m\<lparr>tm_fresh := n\<rparr>) = deadline m" "deadline (m\<lparr>m_previouseTime := p\<rparr>) = deadline m"
  by (rule ext, simp add: deadline_def)+

lemma deadline_update:
  "deadline (update_timer t v m) = (deadline m)(t := tm_next v)"
  by (rule ext) (simp add: deadline_def update_timer_def)

lemma update_timer_frame [simp]:
  "m_timers (update_timer t v m) = m_timers m" "tm_fresh (update_timer t v m) = tm_fresh m"
  "m_tickled (update_timer t v m) = m_tickled m" "m_previouseTime (update_timer t v m) = m_previouseTime m"
  "tm_store (update_timer t v m) = (tm_store m)(t := v)"
  by (simp_all add: update_timer_def)

lemma timers_ok_distinct: "timers_ok m \<Longrightarrow> distinct (m_timers m)"
  unfolding timers_ok_def by (metis distinct_map strict_sorted_iff)

lemma set_find_Some: "set_find m t = Some e \<Longrightarrow> e \<in> set (m_timers m) \<and> deadline m e = deadline m t"
  by (auto simp: set_find_def find_Some_iff intro: order.antisym)

lemma set_find_None: "set_find m t = None \<longleftrightarrow> deadline m t \<notin> deadline m ` set (m_timers m)"
  by (auto simp: set_find_def find_None_iff)

lemma sorted_filter: "sorted_wrt (<) (map f xs) \<Longrightarrow> sorted_wrt (<) (map f (filter P xs))"
  by (induction xs) auto

lemma set_erase_ok [inv_intros]: "timers_ok m \<Longrightarrow> timers_ok (set_erase e m)"
proof -
  assume "timers_ok m"
  then show ?thesis
    unfolding timers_ok_def set_erase_def by (auto intro: sorted_filter)
qed

lemma update_other_ok: "timers_ok m \<Longrightarrow> t \<notin> set (m_timers m) \<Longrightarrow> timers_ok (update_timer t v m)"
proof -
  assume m: "timers_ok m" and t: "t \<notin> set (m_timers m)"
  have eq: "map (deadline (update_timer t v m)) (m_timers m) = map (deadline m) (m_timers m)"
    using t by (auto simp: deadline_update)
  from m show ?thesis unfolding timers_ok_def update_timer_frame eq .
qed

lemma update_same_deadline_ok:
  "timers_ok m \<Longrightarrow> tm_next v = deadline m t \<Longrightarrow> timers_ok (update_timer t v m)"
proof -
  assume m: "timers_ok m" and v: "tm_next v = deadline m t"
  have "deadline (update_timer t v m) = deadline m"
    using v by (auto simp: deadline_update)
  with m show ?thesis by (simp add: timers_ok_def)
qed

lemma dropWhile_sorted_greater:
  "sorted_wrt (<) (map f xs) \<Longrightarrow> x \<in> set (dropWhile (\<lambda>e. f e < d) xs) \<Longrightarrow> d \<le> (f x :: int)"
  by (induction xs) (auto split: if_splits)

lemma sorted_mid:
  assumes "sorted_wrt (<) (map f a)" and "sorted_wrt (<) (map f b)"
    and "\<forall>x \<in> set a. f x < (f t :: int)" and "\<forall>x \<in> set b. f t < f x"
  shows "sorted_wrt (<) (map f (a @ t # b))"
proof -
  have "f x < f y" if "x \<in> set a" "y \<in> set b" for x y
    using assms(3,4) that less_trans by blast
  with assms show ?thesis by (simp add: sorted_wrt_append)
qed

lemma sorted_insert:
  assumes "sorted_wrt (<) (map f xs)" and "f t \<notin> f ` set xs"
  shows "sorted_wrt (<) (map f (takeWhile (\<lambda>e. f e < (f t :: int)) xs @ t # dropWhile (\<lambda>e. f e < f t) xs))"
proof -
  let ?a = "takeWhile (\<lambda>e. f e < f t) xs" and ?b = "dropWhile (\<lambda>e. f e < f t) xs"
  have "sorted_wrt (<) (map f ?a @ map f ?b)"
    using assms(1) by (metis map_append takeWhile_dropWhile_id)
  then have s: "sorted_wrt (<) (map f ?a)" "sorted_wrt (<) (map f ?b)"
    by (simp_all only: sorted_wrt_append)
  have a: "\<forall>x \<in> set ?a. f x < f t" by (auto dest: set_takeWhileD)
  have b: "\<forall>x \<in> set ?b. f t < f x"
  proof
    fix x assume x: "x \<in> set ?b"
    then have "x \<in> set xs" by (rule set_dropWhileD)
    then have "f x \<noteq> f t" using assms(2) by (metis imageI)
    with dropWhile_sorted_greater [OF assms(1) x] show "f t < f x" by simp
  qed
  from sorted_mid [OF s a b] show ?thesis .
qed

lemma set_insert_ok [inv_intros]:
  assumes "timers_ok m" and "t < tm_fresh m"
  shows "timers_ok (snd (set_insert t m))"
proof (cases "set_find m t")
  case None
  then have "deadline m t \<notin> deadline m ` set (m_timers m)" by (simp add: set_find_None)
  from sorted_insert [OF _ this] assms show ?thesis
    using None by (auto simp: timers_ok_def set_insert_def dest: set_takeWhileD set_dropWhileD)
next
  case (Some e)
  then show ?thesis using assms by (simp add: set_insert_def)
qed

lemma set_insert_frame [simp]:
  "tm_fresh (snd (set_insert t m)) = tm_fresh m" "tm_store (snd (set_insert t m)) = tm_store m"
  "m_tickled (snd (set_insert t m)) = m_tickled m" "deadline (snd (set_insert t m)) = deadline m"
  by (auto simp: set_insert_def split: option.splits)

lemma set_insert_elems: "set (m_timers (snd (set_insert t m))) \<subseteq> insert t (set (m_timers m))"
  by (auto simp: set_insert_def split: option.splits dest: set_takeWhileD set_dropWhileD)

lemma set_erase_frame [simp]:
  "tm_fresh (set_erase e m) = tm_fresh m" "tm_store (set_erase e m) = tm_store m"
  "set (m_timers (set_erase e m)) = set (m_timers m) - {e}"
  by (auto simp: set_erase_def)

lemma deadline_inj:
  assumes "timers_ok m" and "a \<in> set (m_timers m)" and "b \<in> set (m_timers m)" and "deadline m a = deadline m b"
  shows "a = b"
proof -
  have "distinct (map (deadline m) (m_timers m))" using assms(1) by (metis strict_sorted_iff timers_ok_def)
  then show ?thesis using assms(2-4) by (auto simp: distinct_map inj_on_def)
qed

text \<open>After erasing what \<open>find(t)\<close> gives, \<open>t\<close> itself is not in the set.\<close>

lemma erase_found: "timers_ok m \<Longrightarrow> set_find m t = Some e \<Longrightarrow> t \<notin> set (m_timers (set_erase e m))"
  using set_find_Some [of m t e] deadline_inj [of m t e] by auto

definition timers_inv :: "timer_manager \<Rightarrow> bool" where
  "timers_inv m \<longleftrightarrow> timers_ok m \<and> (\<forall>t. tm_fresh m \<le> t \<longrightarrow> tm_cb (tm_store m t) = None) \<and>
     (\<forall>t \<in> set (m_timers m). tm_cb (tm_store m t) \<noteq> None)"

lemma known_timer: "timers_inv m \<Longrightarrow> tm_cb (tm_store m t) \<noteq> None \<Longrightarrow> t < tm_fresh m"
  unfolding timers_inv_def by (meson not_le)

lemma insert_keeps:
  assumes "timers_inv m" and "tm_cb (tm_store m t) \<noteq> None"
  shows "timers_inv (snd (set_insert t m))"
  using assms set_insert_ok [of m t] known_timer [OF assms] set_insert_elems [of t m]
  by (auto simp: timers_inv_def)

lemma insert_timer_keeps:
  assumes "timers_inv m" and "tm_cb (tm_store m t) \<noteq> None"
  shows "timers_inv (snd (insert_timer t m))"
  using insert_keeps [OF assms] by (auto simp: insert_timer_def split_def Let_def timers_inv_def timers_ok_def)

lemma update_keeps:
  assumes "timers_inv m" and "t \<notin> set (m_timers m)" and "t < tm_fresh m"
  shows "timers_inv (update_timer t v m)"
  using assms update_other_ok [of m t v] by (auto simp: timers_inv_def)

lemma erase_keeps: "timers_inv m \<Longrightarrow> timers_inv (set_erase e m)"
  using set_erase_ok [of m e] by (auto simp: timers_inv_def)

lemma cancel_keeps [inv_intros]:
  assumes "timers_inv m"
  shows "timers_inv (snd (timer_cancel t m))"
proof (cases "tm_cb (tm_store m t) = None")
  case True
  with assms show ?thesis by (simp add: timer_cancel_def)
next
  case False
  let ?m = "update_timer t ((tm_store m t)\<lparr>tm_cb := None\<rparr>) m"
  have ok: "timers_ok m" using assms by (simp add: timers_inv_def)
  have m: "timers_ok ?m" by (rule update_same_deadline_ok [OF ok]) (simp add: deadline_def)
  have dl: "deadline ?m = deadline m" by (auto simp: deadline_update deadline_def)
  have fresh: "\<forall>x. tm_fresh m \<le> x \<longrightarrow> tm_cb (tm_store ?m x) = None"
    using assms by (simp add: timers_inv_def)
  show ?thesis
  proof (cases "set_find ?m t")
    case None
    then have "t \<notin> set (m_timers m)" using set_find_None [of ?m t] by auto
    with False None m fresh assms show ?thesis
      by (auto simp: timer_cancel_def Let_def timers_inv_def)
  next
    case (Some e)
    have "t \<notin> set (m_timers (set_erase e ?m))" by (rule erase_found [OF m Some])
    with False Some set_erase_ok [OF m, of e] fresh assms show ?thesis
      by (auto simp: timer_cancel_def Let_def timers_inv_def)
  qed
qed

lemma erase_update_insert_keeps:
  assumes "timers_inv m" and "set_find m t = Some e" and "tm_cb (tm_store m t) \<noteq> None" and "tm_cb v \<noteq> None"
  shows "timers_inv (update_timer t v (set_erase e m)) \<and>
    tm_cb (tm_store (update_timer t v (set_erase e m)) t) \<noteq> None"
proof -
  have "timers_ok m" using assms(1) by (simp add: timers_inv_def)
  then have "t \<notin> set (m_timers (set_erase e m))" by (rule erase_found [OF _ assms(2)])
  then have "timers_inv (update_timer t v (set_erase e m))"
    using known_timer [OF assms(1,3)] by (intro update_keeps erase_keeps assms(1)) simp_all
  with assms(4) show ?thesis by simp
qed

lemma refresh_keeps [inv_intros]: "timers_inv m \<Longrightarrow> timers_inv (snd (timer_refresh now t m))"
  by (auto simp: timer_refresh_def Let_def split: option.splits
      intro!: insert_keeps dest: erase_update_insert_keeps [where v = "(tm_store m t)\<lparr>tm_next := after_ms now (tm_ms (tm_store m t))\<rparr>"])

lemma add_keeps [inv_intros]:
  assumes "timers_inv m"
  shows "timers_inv (snd (snd (addTimer now ms cb recurring m)))"
proof -
  let ?v = "\<lparr>tm_recurring = recurring, tm_ms = ms, tm_next = after_ms now ms, tm_cb = Some cb\<rparr>"
  let ?m = "(update_timer (tm_fresh m) ?v m)\<lparr>tm_fresh := tm_fresh m + 1\<rparr>"
  have new: "tm_fresh m \<notin> set (m_timers m)" using assms by (auto simp: timers_inv_def timers_ok_def)
  then have "timers_ok (update_timer (tm_fresh m) ?v m)"
    using assms update_other_ok by (auto simp: timers_inv_def)
  then have "timers_inv ?m" using assms new
    by (auto simp: timers_inv_def timers_ok_def less_Suc_eq)
  then have "timers_inv (snd (insert_timer (tm_fresh m) ?m))"
    by (rule insert_timer_keeps) simp
  then show ?thesis by (simp add: addTimer_def Let_def split_def)
qed

lemma reset_keeps [inv_intros]:
  assumes "timers_inv m"
  shows "timers_inv (snd (timer_reset now ms from_now t m))"
proof (cases "ms = tm_ms (tm_store m t) \<and> \<not> from_now \<or> tm_cb (tm_store m t) = None \<or> set_find m t = None")
  case True
  with assms show ?thesis by (auto simp: timer_reset_def split: option.splits)
next
  case False
  then obtain e where e: "set_find m t = Some e" "tm_cb (tm_store m t) \<noteq> None"
      "\<not> (ms = tm_ms (tm_store m t) \<and> \<not> from_now)" by auto
  let ?start = "if from_now then now else i64 (tm_next (tm_store m t) - ms_ns (tm_ms (tm_store m t)))"
  let ?v = "(tm_store m t)\<lparr>tm_ms := ms, tm_next := after_ms ?start ms\<rparr>"
  have "tm_cb ?v \<noteq> None" using e(2) by simp
  from erase_update_insert_keeps [OF assms e(1,2) this]
  have "timers_inv (snd (insert_timer t (update_timer t ?v (set_erase e m))))"
    using insert_timer_keeps by blast
  with e show ?thesis by (cases from_now) (auto simp: timer_reset_def Let_def split_def)
qed

section \<open>Expiry\<close>

text \<open>The timers that are due, in the set's order.\<close>

definition due :: "timer_manager \<Rightarrow> int \<Rightarrow> nat list" where
  "due m now = filter (\<lambda>t. deadline m t \<le> now) (m_timers m)"

definition pop_front :: "timer_manager \<Rightarrow> timer_manager" where
  "pop_front m = m\<lparr>m_timers := tl (m_timers m)\<rparr>"

lemma pop_front_simps [simp]:
  "m_timers (pop_front m) = tl (m_timers m)" "tm_store (pop_front m) = tm_store m"
  "tm_fresh (pop_front m) = tm_fresh m" "deadline (pop_front m) = deadline m"
  by (simp_all add: pop_front_def)

lemma expire_front_eq:
  assumes "m_timers m = h # ts"
  shows "expire_front now m = (tm_cb (tm_store m h),
    (if tm_recurring (tm_store m h)
     then snd (set_insert h (update_timer h ((tm_store m h)\<lparr>tm_next := after_ms now (tm_ms (tm_store m h))\<rparr>) (pop_front m)))
     else update_timer h ((tm_store m h)\<lparr>tm_cb := None\<rparr>) (pop_front m)))"
  using assms by (simp add: expire_front_def Let_def pop_front_def)

lemma pop_front_ok:
  assumes "timers_ok m" and "m_timers m = h # ts"
  shows "timers_ok (pop_front m)" "h \<notin> set ts"
  using assms timers_ok_distinct [OF assms(1)] by (auto simp: timers_ok_def)

lemma expire_front_keeps:
  assumes "timers_inv m" and "m_timers m = h # ts"
  shows "timers_inv (snd (expire_front now m)) \<and> fst (expire_front now m) \<noteq> None"
proof -
  have ok: "timers_ok m" and cb: "tm_cb (tm_store m h) \<noteq> None" and known: "h < tm_fresh m"
    using assms by (auto simp: timers_inv_def timers_ok_def)
  have pop: "timers_inv (pop_front m)"
    using assms pop_front_ok [OF ok assms(2)] by (auto simp: timers_inv_def)
  have h: "h \<notin> set (m_timers (pop_front m))" using pop_front_ok [OF ok assms(2)] assms(2) by simp
  let ?v = "(tm_store m h)\<lparr>tm_next := after_ms now (tm_ms (tm_store m h))\<rparr>"
  have "timers_inv (update_timer h v (pop_front m))" for v
    using update_keeps [OF pop h] known by simp
  moreover from this [of ?v] have "timers_inv (snd (set_insert h (update_timer h ?v (pop_front m))))"
    by (rule insert_keeps) (use cb in simp)
  ultimately show ?thesis using cb by (simp add: expire_front_eq [OF assms(2)])
qed

lemma set_insert_due: "now < deadline m t \<Longrightarrow> due (snd (set_insert t m)) now = due m now"
proof (cases "set_find m t")
  case (Some e)
  then show ?thesis by (simp add: set_insert_def)
next
  case None
  assume t: "now < deadline m t"
  let ?P = "\<lambda>e. deadline m e < deadline m t"
  have "filter (\<lambda>x. deadline m x \<le> now) (m_timers m) =
      filter (\<lambda>x. deadline m x \<le> now) (takeWhile ?P (m_timers m)) @
      filter (\<lambda>x. deadline m x \<le> now) (dropWhile ?P (m_timers m))"
    by (metis filter_append takeWhile_dropWhile_id)
  with None t show ?thesis by (simp add: set_insert_def due_def)
qed

text \<open>When a due timer is taken and none repeats at once, the others stay due, and nothing is lost but
  a repeating timer whose new deadline another one has already.\<close>

lemma expire_front_due:
  assumes "timers_ok m" and "m_timers m = h # ts" and "deadline m h \<le> now"
    and "tm_recurring (tm_store m h) \<longrightarrow> now < after_ms now (tm_ms (tm_store m h))"
  shows "due m now = h # due (snd (expire_front now m)) now \<and>
    (\<forall>x. x \<noteq> h \<longrightarrow> tm_store (snd (expire_front now m)) x = tm_store m x) \<and>
    tm_recurring (tm_store (snd (expire_front now m)) h) = tm_recurring (tm_store m h) \<and>
    tm_ms (tm_store (snd (expire_front now m)) h) = tm_ms (tm_store m h) \<and>
    set ts \<subseteq> set (m_timers (snd (expire_front now m)))"
proof -
  have h: "h \<notin> set ts" by (rule pop_front_ok [OF assms(1,2)])
  have upd: "due (update_timer h v (pop_front m)) now = filter (\<lambda>t. deadline m t \<le> now) ts" for v
    unfolding due_def using assms(2) h by (auto simp: deadline_update intro!: filter_cong)
  have d: "due m now = h # filter (\<lambda>t. deadline m t \<le> now) ts"
    using assms(2,3) by (simp add: due_def)
  show ?thesis
  proof (cases "tm_recurring (tm_store m h)")
    case False
    then show ?thesis using d upd assms(2) by (simp add: expire_front_eq [OF assms(2)])
  next
    case True
    let ?m = "update_timer h ((tm_store m h)\<lparr>tm_next := after_ms now (tm_ms (tm_store m h))\<rparr>) (pop_front m)"
    have "now < deadline ?m h" using assms(4) True by (simp add: deadline_update)
    then have "due (snd (set_insert h ?m)) now = due ?m now" by (rule set_insert_due)
    moreover have "set (m_timers ?m) \<subseteq> set (m_timers (snd (set_insert h ?m)))"
      by (auto simp: set_insert_def split: option.splits)
        (metis Un_iff set_append takeWhile_dropWhile_id)
    ultimately show ?thesis using d upd assms(2) True by (simp add: expire_front_eq [OF assms(2)])
  qed
qed

text \<open>
  No repeating timer that is collected now is due again at once, as one with the period 0 is, or one with so long
  a period that its next deadline wraps around into the past.
\<close>

definition no_instant_repeat :: "int \<Rightarrow> timer_manager \<Rightarrow> bool" where
  "no_instant_repeat now m \<longleftrightarrow> (\<forall>t. tm_recurring (tm_store m t) \<longrightarrow> now < after_ms now (tm_ms (tm_store m t)))"

lemma no_instant_repeatI:
  assumes "\<And>t. tm_recurring (tm_store m t) \<Longrightarrow> 0 < tm_ms (tm_store m t) \<and> now + int (tm_ms (tm_store m t)) * 1000000 < 2 ^ 63"
    and "0 \<le> now"
  shows "no_instant_repeat now m"
  using assms by (auto simp: no_instant_repeat_def after_ms_in_range)

lemma front_due:
  assumes "timers_ok m" and "due m now \<noteq> []"
  obtains h ts where "m_timers m = h # ts" and "deadline m h \<le> now"
proof -
  obtain h ts where m: "m_timers m = h # ts" using assms(2) by (cases "m_timers m") (auto simp: due_def)
  have "deadline m h \<le> now"
  proof (rule ccontr)
    assume "\<not> deadline m h \<le> now"
    have later: "deadline m h < deadline m t" if "t \<in> set ts" for t
      using assms(1) m that by (simp add: timers_ok_def)
    have "\<not> deadline m t \<le> now" if "t \<in> set ts" for t
      using later [OF that] \<open>\<not> deadline m h \<le> now\<close> by linarith
    with \<open>\<not> deadline m h \<le> now\<close> have "due m now = []" using m by (simp add: due_def)
    with assms(2) show False by simp
  qed
  with m that show thesis by blast
qed

lemma expire_loop_due:
  assumes "timers_inv m" and "no_instant_repeat now m"
  shows "\<exists>m'. expire_loop now False m cbs = Some (cbs @ map (\<lambda>t. tm_cb (tm_store m t)) (due m now), m') \<and>
    timers_inv m' \<and> (\<forall>t \<in> set (m_timers m'). now < deadline m' t) \<and>
    set (m_timers m) - set (due m now) \<subseteq> set (m_timers m')"
  using assms
proof (induction "due m now" arbitrary: m cbs)
  case Nil
  then have "\<forall>t \<in> set (m_timers m). now < deadline m t"
    by (metis due_def filter_empty_conv not_le)
  then have "\<not> (m_timers m \<noteq> [] \<and> deadline m (hd (m_timers m)) \<le> now)" by (cases "m_timers m") auto
  then have "expire_loop now False m cbs = Some (cbs, m)" by (subst expire_loop.simps) auto
  with Nil \<open>\<forall>t \<in> set (m_timers m). now < deadline m t\<close> show ?case by auto
next
  case (Cons h' ds)
  have ok: "timers_ok m" using Cons.prems by (simp add: timers_inv_def)
  have "due m now \<noteq> []" using Cons.hyps(2) by auto
  then obtain h ts where m: "m_timers m = h # ts" and h: "deadline m h \<le> now"
    by (rule front_due [OF ok])
  let ?m = "snd (expire_front now m)"
  from expire_front_due [OF ok m h] Cons.prems(2)
  have d: "due m now = h # due ?m now" and st: "\<forall>x. x \<noteq> h \<longrightarrow> tm_store ?m x = tm_store m x"
    and same: "tm_recurring (tm_store ?m h) = tm_recurring (tm_store m h)" "tm_ms (tm_store ?m h) = tm_ms (tm_store m h)"
    and keep: "set ts \<subseteq> set (m_timers ?m)"
    by (auto simp: no_instant_repeat_def)
  have inv: "timers_inv ?m" using expire_front_keeps [OF Cons.prems(1) m] by blast
  have nir: "no_instant_repeat now ?m" unfolding no_instant_repeat_def
  proof (intro allI impI)
    fix t assume "tm_recurring (tm_store ?m t)"
    then show "now < after_ms now (tm_ms (tm_store ?m t))"
      using Cons.prems(2) st same by (cases "t = h") (auto simp: no_instant_repeat_def)
  qed
  have ds: "ds = due ?m now" using d Cons.hyps(2) by simp
  from Cons.hyps(1) [OF ds inv nir, of "cbs @ [fst (expire_front now m)]"] obtain m' where
    m': "expire_loop now False ?m (cbs @ [fst (expire_front now m)]) =
        Some ((cbs @ [fst (expire_front now m)]) @ map (\<lambda>t. tm_cb (tm_store ?m t)) (due ?m now), m')"
      "timers_inv m'" "\<forall>t \<in> set (m_timers m'). now < deadline m' t"
      "set (m_timers ?m) - set (due ?m now) \<subseteq> set (m_timers m')" by blast
  have step: "expire_loop now False m cbs = expire_loop now False ?m (cbs @ [fst (expire_front now m)])"
    using m h by (subst expire_loop.simps) simp
  have "h \<notin> set (due ?m now)"
  proof -
    have "distinct (due m now)" using timers_ok_distinct [OF ok] by (simp add: due_def)
    then show ?thesis by (simp add: d)
  qed
  then have cb: "map (\<lambda>t. tm_cb (tm_store ?m t)) (due ?m now) = map (\<lambda>t. tm_cb (tm_store m t)) (due ?m now)"
    using st by (auto intro!: map_cong)
  have first: "fst (expire_front now m) = tm_cb (tm_store m h)" by (simp add: expire_front_eq [OF m])
  have sub: "set (m_timers m) - set (due m now) \<subseteq> set (m_timers m')"
    using m'(4) keep m d by auto
  show ?case
    using step m' cb first d sub by auto
qed

lemma listExpiredCb_due:
  assumes "timers_inv m" and "no_instant_repeat now m"
    and "m_previouseTime m - ms_ns (60 * 60 * 1000) \<le> now'"
  shows "\<exists>m'. listExpiredCb now now' m = Some (map (\<lambda>t. tm_cb (tm_store m t)) (due m now), m') \<and>
    (\<forall>t \<in> set (m_timers m'). now < deadline m' t) \<and> set (m_timers m) - set (due m now) \<subseteq> set (m_timers m')"
proof -
  let ?m = "m\<lparr>m_previouseTime := now'\<rparr>"
  have roll: "detectClockRollover now' m = (False, ?m)" using assms(3) by (simp add: detectClockRollover_def)
  have inv: "timers_inv ?m" and nir: "no_instant_repeat now ?m" and due: "due ?m now = due m now"
    using assms(1,2) by (simp_all add: timers_inv_def timers_ok_def no_instant_repeat_def due_def)
  show ?thesis using expire_loop_due [OF inv nir, of "[]"] by (auto simp: listExpiredCb_def roll due)
qed

text \<open>
  C12: Without a clock that went back, and when no repeating timer is due again at once (its period is 0, or
  so long that the new deadline wraps around in 64 bits), collecting the expired callbacks ends; it collects exactly the callbacks of the timers that are due, in the
  order of their deadlines, all of them callable; afterwards nothing in the set is due, and the
  timers that were not due are still there.
\<close>

theorem expired_timers_collected:
  assumes "timers_inv m" and "no_instant_repeat now m"
    and "m_previouseTime m - ms_ns (60 * 60 * 1000) \<le> now'"
  shows "\<exists>m'. listExpiredCb now now' m = Some (map (\<lambda>t. tm_cb (tm_store m t)) (due m now), m') \<and>
    sorted_wrt (<) (map (deadline m) (due m now)) \<and>
    (\<forall>t \<in> set (due m now). tm_cb (tm_store m t) \<noteq> None) \<and>
    (\<forall>t \<in> set (m_timers m'). now < deadline m' t) \<and>
    set (m_timers m) - set (due m now) \<subseteq> set (m_timers m')"
proof -
  have "sorted_wrt (<) (map (deadline m) (due m now))"
    using assms(1) sorted_filter by (auto simp: timers_inv_def timers_ok_def due_def)
  moreover have "\<forall>t \<in> set (due m now). tm_cb (tm_store m t) \<noteq> None"
    using assms(1) by (auto simp: timers_inv_def due_def)
  ultimately show ?thesis using listExpiredCb_due [OF assms] by blast
qed

definition all_repeat :: "timer_manager \<Rightarrow> bool" where
  "all_repeat m \<longleftrightarrow> m_timers m \<noteq> [] \<and> (\<forall>t \<in> set (m_timers m). tm_recurring (tm_store m t))"

lemma expire_front_all_repeat:
  assumes "all_repeat m"
  shows "all_repeat (snd (expire_front now m))"
proof -
  obtain h ts where m: "m_timers m = h # ts" using assms by (cases "m_timers m") (auto simp: all_repeat_def)
  have h: "tm_recurring (tm_store m h)" using assms m by (simp add: all_repeat_def)
  let ?u = "update_timer h ((tm_store m h)\<lparr>tm_next := after_ms now (tm_ms (tm_store m h))\<rparr>) (pop_front m)"
  have f: "snd (expire_front now m) = snd (set_insert h ?u)" using h by (simp add: expire_front_eq [OF m])
  have ne: "m_timers (snd (set_insert h ?u)) \<noteq> []"
    by (cases "set_find ?u h") (auto simp: set_insert_def dest: set_find_Some)
  have "set (m_timers (snd (set_insert h ?u))) \<subseteq> insert h (set ts)"
    using set_insert_elems [of h ?u] m by simp
  then have "\<forall>t \<in> set (m_timers (snd (set_insert h ?u))). t = h \<or> tm_recurring (tm_store m t)"
    using assms m by (auto simp: all_repeat_def)
  with ne h show ?thesis unfolding f all_repeat_def by auto
qed

lemma expire_loop_never:
  assumes "expire_loop now rollover m cbs = Some r"
  shows "rollover \<and> all_repeat m \<longrightarrow> False"
  using assms
proof (rule expire_loop.raw_induct [where P = "\<lambda>now rollover m cbs r. rollover \<and> all_repeat m \<longrightarrow> False", rotated])
  fix loop :: "int \<Rightarrow> bool \<Rightarrow> timer_manager \<Rightarrow> nat option list \<Rightarrow> (nat option list \<times> timer_manager) option"
  fix now rollover m cbs r
  assume IH: "\<And>now rollover m cbs r. loop now rollover m cbs = Some r \<Longrightarrow> rollover \<and> all_repeat m \<longrightarrow> False"
    and body: "(if m_timers m \<noteq> [] \<and> rollover \<or> m_timers m \<noteq> [] \<and> deadline m (hd (m_timers m)) \<le> now
      then loop now rollover (snd (expire_front now m)) (cbs @ [fst (expire_front now m)])
      else Some (cbs, m)) = Some r"
  show "rollover \<and> all_repeat m \<longrightarrow> False"
  proof
    assume a: "rollover \<and> all_repeat m"
    then have "loop now rollover (snd (expire_front now m)) (cbs @ [fst (expire_front now m)]) = Some r"
      using body by (simp add: all_repeat_def)
    from IH [OF this] a expire_front_all_repeat show False by blast
  qed
qed

text \<open>
  A clock that goes back by more than an hour while only repeating timers are set makes the
  collection run for ever, with the manager's mutex held: each timer taken is put back, and the
  loop only stops at an empty set.
\<close>

theorem rollover_with_repeating_timers_diverges:
  assumes "m_timers m \<noteq> []" and "\<forall>t \<in> set (m_timers m). tm_recurring (tm_store m t)"
    and "now' < m_previouseTime m - ms_ns (60 * 60 * 1000)"
  shows "listExpiredCb now now' m = None"
proof (cases "listExpiredCb now now' m")
  case (Some r)
  then have "expire_loop now True (m\<lparr>m_previouseTime := now'\<rparr>) [] = Some r"
    using assms(3) by (simp add: listExpiredCb_def detectClockRollover_def)
  from expire_loop_never [OF this] assms(1,2) show ?thesis by (simp add: all_repeat_def)
qed

lemma insert_timer_simps [simp]:
  "m_timers (snd (insert_timer t m)) = m_timers (snd (set_insert t m))"
  "tm_store (snd (insert_timer t m)) = tm_store m"
  by (simp_all add: insert_timer_def Let_def split_def)

lemma addTimer_eq:
  "addTimer now ms cb r m =
     (let t = tm_fresh m;
          m' = (update_timer t \<lparr>tm_recurring = r, tm_ms = ms, tm_next = after_ms now ms, tm_cb = Some cb\<rparr> m)
                \<lparr>tm_fresh := t + 1\<rparr>
      in (fst (insert_timer t m'), t, snd (insert_timer t m')))"
  by (simp add: addTimer_def Let_def split_def)

lemma addTimer_others:
  assumes "addTimer now ms cb r m = (f, t, m')"
  shows "set (m_timers m') \<subseteq> insert t (set (m_timers m)) \<and> t = tm_fresh m \<and> m_previouseTime m' = m_previouseTime m \<and>
    (\<forall>x. x \<noteq> t \<longrightarrow> tm_store m' x = tm_store m x) \<and> tm_store m' t = \<lparr>tm_recurring = r, tm_ms = ms, tm_next = after_ms now ms, tm_cb = Some cb\<rparr>"
proof -
  let ?v = "\<lparr>tm_recurring = r, tm_ms = ms, tm_next = after_ms now ms, tm_cb = Some cb\<rparr>"
  let ?m = "(update_timer (tm_fresh m) ?v m)\<lparr>tm_fresh := tm_fresh m + 1\<rparr>"
  have "t = tm_fresh m" "m' = snd (insert_timer (tm_fresh m) ?m)" using assms by (auto simp: addTimer_eq Let_def)
  moreover have "m_previouseTime (snd (insert_timer (tm_fresh m) ?m)) = m_previouseTime m"
    by (simp add: insert_timer_def set_insert_def Let_def split_def split: option.split)
  moreover have "set (m_timers (snd (set_insert (tm_fresh m) ?m))) \<subseteq> insert (tm_fresh m) (set (m_timers m))"
    using set_insert_elems [of "tm_fresh m" ?m] by simp
  ultimately show ?thesis by simp
qed

lemma addTimer_entered:
  assumes "timers_inv m" and "after_ms now ms \<notin> deadline m ` set (m_timers m)"
    and "addTimer now ms cb r m = (f, t, m')"
  shows "t \<in> set (m_timers m') \<and> deadline m' t = after_ms now ms \<and> tm_cb (tm_store m' t) = Some cb \<and> timers_inv m'"
proof -
  let ?v = "\<lparr>tm_recurring = r, tm_ms = ms, tm_next = after_ms now ms, tm_cb = Some cb\<rparr>"
  let ?m = "(update_timer (tm_fresh m) ?v m)\<lparr>tm_fresh := tm_fresh m + 1\<rparr>"
  have new: "tm_fresh m \<notin> set (m_timers m)" using assms(1) by (auto simp: timers_inv_def timers_ok_def)
  have "deadline ?m ` set (m_timers m) = deadline m ` set (m_timers m)"
    using new by (auto simp: deadline_update intro!: image_cong)
  then have "set_find ?m (tm_fresh m) = None" using assms(2) by (simp add: set_find_None deadline_update)
  then have ins: "set_insert (tm_fresh m) ?m = (tm_fresh m, snd (set_insert (tm_fresh m) ?m))"
    "tm_fresh m \<in> set (m_timers (snd (set_insert (tm_fresh m) ?m)))"
    by (simp_all add: set_insert_def)
  have res: "t = tm_fresh m" "m_timers m' = m_timers (snd (set_insert (tm_fresh m) ?m))"
    "tm_store m' = tm_store ?m"
    using assms(3) by (auto simp: addTimer_eq Let_def)
  have "timers_inv m'" using add_keeps [OF assms(1), of now ms cb r] assms(3) by simp
  with ins res show ?thesis by (simp add: deadline_def)
qed

lemma addTimer_dropped:
  assumes "timers_inv m" and "e \<in> set (m_timers m)" and "deadline m e = after_ms now ms"
    and "addTimer now ms cb r m = (f, t, m')"
  shows "m_timers m' = m_timers m \<and> t \<notin> set (m_timers m') \<and> e \<noteq> t \<and> deadline m' e = after_ms now ms \<and>
    deadline m' t = after_ms now ms \<and> tm_cb (tm_store m' t) = Some cb \<and> tm_store m' e = tm_store m e \<and> timers_inv m'"
proof -
  let ?v = "\<lparr>tm_recurring = r, tm_ms = ms, tm_next = after_ms now ms, tm_cb = Some cb\<rparr>"
  let ?m = "(update_timer (tm_fresh m) ?v m)\<lparr>tm_fresh := tm_fresh m + 1\<rparr>"
  have new: "tm_fresh m \<notin> set (m_timers m)" using assms(1) by (auto simp: timers_inv_def timers_ok_def)
  have "deadline ?m e = after_ms now ms" using assms(2,3) new by (auto simp: deadline_update)
  then have "deadline ?m (tm_fresh m) \<in> deadline ?m ` set (m_timers ?m)"
    using assms(2) by (intro image_eqI [of _ _ e]) (simp_all add: deadline_update)
  then have "set_find ?m (tm_fresh m) \<noteq> None" unfolding set_find_None by simp
  then have "snd (set_insert (tm_fresh m) ?m) = ?m" by (auto simp: set_insert_def)
  then have res: "t = tm_fresh m" "m_timers m' = m_timers m" "tm_store m' = tm_store ?m"
    using assms(4) by (auto simp: addTimer_eq Let_def)
  have "timers_inv m'" using add_keeps [OF assms(1), of now ms cb r] assms(4) by simp
  with res new assms(2,3) show ?thesis by (auto simp: deadline_def)
qed

text \<open>
  What becomes of a new timer with a callback of its own: a look at the timers collects it exactly when its deadline has
  come, but never when another timer had that deadline.
\<close>

lemma timer_collected:
  assumes "timers_inv m" and "no_instant_repeat now' m" and "\<forall>t \<in> set (m_timers m). tm_cb (tm_store m t) \<noteq> Some cb"
    and "addTimer now ms cb r m = (f, t, m1)" and "r \<longrightarrow> now' < after_ms now' ms" and "m_previouseTime m - ms_ns (60 * 60 * 1000) \<le> now''"
  shows "\<exists>cbs m2. listExpiredCb now' now'' m1 = Some (cbs, m2) \<and>
    (Some cb \<in> set cbs \<longleftrightarrow> after_ms now ms \<le> now' \<and> after_ms now ms \<notin> deadline m ` set (m_timers m)) \<and>
    set cbs \<subseteq> insert (Some cb) ((\<lambda>t. tm_cb (tm_store m t)) ` set (m_timers m))"
proof -
  let ?d = "after_ms now ms"
  note o = addTimer_others [OF assms(4)]
  have new: "t \<notin> set (m_timers m)" using o assms(1) by (auto simp: timers_inv_def timers_ok_def)
  have inv: "timers_inv m1" using add_keeps [OF assms(1), of now ms cb r] assms(4) by simp
  have nir: "no_instant_repeat now' m1"
    unfolding no_instant_repeat_def
  proof (intro allI impI)
    fix x assume "tm_recurring (tm_store m1 x)"
    then show "now' < after_ms now' (tm_ms (tm_store m1 x))" using o assms(2,5) by (cases "x = t") (auto simp: no_instant_repeat_def)
  qed
  let ?cbs = "map (\<lambda>t. tm_cb (tm_store m1 t)) (due m1 now')"
  obtain m2 where l: "listExpiredCb now' now'' m1 = Some (?cbs, m2)"
    using listExpiredCb_due [OF inv nir, of now''] o assms(6) by auto
  have old: "tm_cb (tm_store m1 x) \<in> (\<lambda>t. tm_cb (tm_store m t)) ` set (m_timers m)" if "x \<in> set (m_timers m1)" "x \<noteq> t" for x
  proof -
    have "x \<in> set (m_timers m)" "tm_store m1 x = tm_store m x" using that o by auto
    then show ?thesis by simp
  qed
  have "Some cb \<in> set ?cbs \<longleftrightarrow> t \<in> set (due m1 now')"
  proof
    assume "Some cb \<in> set ?cbs"
    then obtain x where x: "x \<in> set (m_timers m1)" "tm_cb (tm_store m1 x) = Some cb" "x \<in> set (due m1 now')" by (auto simp: due_def)
    have "Some cb \<notin> (\<lambda>t. tm_cb (tm_store m t)) ` set (m_timers m)" using assms(3) by force
    then have "x = t" using old [OF x(1)] x(2) by metis
    with x(3) show "t \<in> set (due m1 now')" by simp
  qed (use o in \<open>auto intro!: image_eqI [of _ _ t]\<close>)
  also have "\<dots> \<longleftrightarrow> t \<in> set (m_timers m1) \<and> ?d \<le> now'" using o by (auto simp: due_def deadline_def)
  also have "t \<in> set (m_timers m1) \<longleftrightarrow> ?d \<notin> deadline m ` set (m_timers m)"
    using addTimer_entered [OF assms(1) _ assms(4)] addTimer_dropped [OF assms(1) _ _ assms(4)] by fastforce
  finally have "Some cb \<in> set ?cbs \<longleftrightarrow> ?d \<le> now' \<and> ?d \<notin> deadline m ` set (m_timers m)" by blast
  moreover have "set ?cbs \<subseteq> insert (Some cb) ((\<lambda>t. tm_cb (tm_store m t)) ` set (m_timers m))"
  proof
    fix y assume "y \<in> set ?cbs"
    then obtain x where "x \<in> set (m_timers m1)" "y = tm_cb (tm_store m1 x)" by (auto simp: due_def)
    then show "y \<in> insert (Some cb) ((\<lambda>t. tm_cb (tm_store m t)) ` set (m_timers m))" using old [of x] o by (cases "x = t") auto
  qed
  ultimately show ?thesis using l by blast
qed

text \<open>
  Two timers set at the same time for the same delay: the second is not entered, though it
  can be cancelled, and cancelling it removes the first, whose callback then never runs.
\<close>

lemma equal_deadline_cancel:
  assumes "timers_inv m" and "after_ms now ms \<notin> deadline m ` set (m_timers m)"
    and "addTimer now ms cb1 r1 m = (f1, t1, m1)" and "addTimer now ms cb2 r2 m1 = (f2, t2, m2)"
    and "timer_cancel t2 m2 = (ok, m3)"
  shows "t1 \<in> set (m_timers m1) \<and> t2 \<notin> set (m_timers m2) \<and> t1 \<in> set (m_timers m2) \<and>
    ok \<and> t1 \<notin> set (m_timers m3) \<and> tm_cb (tm_store m3 t1) = Some cb1"
proof -
  from addTimer_entered [OF assms(1,2,3)]
  have t1: "t1 \<in> set (m_timers m1)" "deadline m1 t1 = after_ms now ms" "tm_cb (tm_store m1 t1) = Some cb1"
    "timers_inv m1" by blast+
  from addTimer_dropped [OF t1(4,1,2) assms(4)]
  have t2: "m_timers m2 = m_timers m1" "t2 \<notin> set (m_timers m2)" "t1 \<noteq> t2" "deadline m2 t1 = after_ms now ms"
    "deadline m2 t2 = after_ms now ms" "tm_cb (tm_store m2 t2) = Some cb2" "tm_store m2 t1 = tm_store m1 t1"
    "timers_inv m2" by blast+
  let ?m = "update_timer t2 ((tm_store m2 t2)\<lparr>tm_cb := None\<rparr>) m2"
  have dl: "deadline ?m = deadline m2" by (auto simp: deadline_update deadline_def)
  have find: "set_find ?m t2 = Some t1"
  proof -
    have "deadline ?m t2 \<in> deadline ?m ` set (m_timers ?m)"
      using t1(1) t2(1,4,5) by (intro image_eqI [of _ _ t1]) (simp_all add: dl)
    then have "set_find ?m t2 \<noteq> None" unfolding set_find_None by simp
    then obtain e where e: "set_find ?m t2 = Some e" by blast
    then have "e \<in> set (m_timers m2)" "deadline m2 e = deadline m2 t1"
      using set_find_Some [OF e] t2(4,5) by (simp_all add: dl)
    then have "e = t1" using deadline_inj [of m2 e t1] t1(1) t2(1,8) by (simp add: timers_inv_def)
    with e show ?thesis by simp
  qed
  have "timer_cancel t2 m2 = (True, set_erase t1 ?m)"
    using find t2(6) by (simp add: timer_cancel_def Let_def)
  with assms(5) t1 t2 show ?thesis by auto
qed

section \<open>Runs\<close>

datatype timer_op =
    Add int nat nat bool
  | Cancel nat
  | Refresh int nat
  | Reset int nat bool nat
  | Next int
  | Expire int int

fun timer_step :: "timer_manager \<Rightarrow> timer_op \<Rightarrow> timer_manager" where
  "timer_step m (Add now ms cb r) = snd (snd (addTimer now ms cb r m))"
| "timer_step m (Cancel t) = snd (timer_cancel t m)"
| "timer_step m (Refresh now t) = snd (timer_refresh now t m)"
| "timer_step m (Reset now ms from_now t) = snd (timer_reset now ms from_now t m)"
| "timer_step m (Next now) = snd (getNextTimer now m)"
| "timer_step m (Expire now now') = (case listExpiredCb now now' m of None \<Rightarrow> m | Some r \<Rightarrow> snd r)"

lemma expire_loop_keeps:
  assumes "expire_loop now rollover m cbs = Some r"
  shows "timers_inv m \<and> None \<notin> set cbs \<longrightarrow> timers_inv (snd r) \<and> None \<notin> set (fst r)"
  using assms
proof (rule expire_loop.raw_induct [where
      P = "\<lambda>now rollover m cbs r. timers_inv m \<and> None \<notin> set cbs \<longrightarrow> timers_inv (snd r) \<and> None \<notin> set (fst r)", rotated])
  fix loop :: "int \<Rightarrow> bool \<Rightarrow> timer_manager \<Rightarrow> nat option list \<Rightarrow> (nat option list \<times> timer_manager) option"
  fix now rollover m cbs r
  assume IH: "\<And>now rollover m cbs r. loop now rollover m cbs = Some r \<Longrightarrow>
      timers_inv m \<and> None \<notin> set cbs \<longrightarrow> timers_inv (snd r) \<and> None \<notin> set (fst r)"
    and body: "(if m_timers m \<noteq> [] \<and> rollover \<or> m_timers m \<noteq> [] \<and> deadline m (hd (m_timers m)) \<le> now
      then loop now rollover (snd (expire_front now m)) (cbs @ [fst (expire_front now m)])
      else Some (cbs, m)) = Some r"
  show "timers_inv m \<and> None \<notin> set cbs \<longrightarrow> timers_inv (snd r) \<and> None \<notin> set (fst r)"
  proof (cases "m_timers m \<noteq> [] \<and> rollover \<or> m_timers m \<noteq> [] \<and> deadline m (hd (m_timers m)) \<le> now")
    case True
    then obtain h ts where m: "m_timers m = h # ts" by (cases "m_timers m") auto
    show ?thesis
    proof
      assume a: "timers_inv m \<and> None \<notin> set cbs"
      from expire_front_keeps [OF conjunct1 [OF a] m, of now] have
        "timers_inv (snd (expire_front now m)) \<and> None \<notin> set (cbs @ [fst (expire_front now m)])"
        using a by auto
      moreover have "loop now rollover (snd (expire_front now m)) (cbs @ [fst (expire_front now m)]) = Some r"
        using body True by simp
      ultimately show "timers_inv (snd r) \<and> None \<notin> set (fst r)" using IH by blast
    qed
  next
    case False
    with body show ?thesis by auto
  qed
qed

lemma listExpiredCb_keeps:
  assumes "timers_inv m" and "listExpiredCb now now' m = Some (cbs, m')"
  shows "timers_inv m' \<and> None \<notin> set cbs"
proof -
  let ?m = "m\<lparr>m_previouseTime := now'\<rparr>"
  have "timers_inv ?m" using assms(1) by (simp add: timers_inv_def timers_ok_def)
  moreover obtain b where "expire_loop now b ?m [] = Some (cbs, m')"
    using assms(2) by (auto simp: listExpiredCb_def detectClockRollover_def)
  ultimately show ?thesis using expire_loop_keeps by fastforce
qed

interpretation timers: op_machine timer_step timers_inv
proof unfold_locales
  fix m x assume m: "timers_inv m"
  show "timers_inv (timer_step m x)"
  proof (cases x)
    case (Expire now now')
    with m listExpiredCb_keeps show ?thesis by (auto split: option.splits)
  next
    case (Next now)
    with m show ?thesis by (auto simp: getNextTimer_def Let_def timers_inv_def timers_ok_def)
  qed (use m in \<open>simp_all add: add_keeps cancel_keeps refresh_keeps reset_keeps\<close>)
qed

lemma TimerManager_init_inv: "timers_inv (TimerManager_init now)"
  by (simp add: TimerManager_init_def timers_inv_def timers_ok_def)

text \<open>
  C13: After any sequence of operations, at whatever times, also when the clock goes back, the set
  is in strict order of deadlines, and a collection that ends collects only callbacks that can be
  called, never the empty one of a timer that was cancelled or has run.
\<close>

theorem timers_run_sound:
  assumes "foldl timer_step (TimerManager_init start) ops = m"
  shows "sorted_wrt (<) (map (deadline m) (m_timers m)) \<and>
    (\<forall>t \<in> set (m_timers m). tm_cb (tm_store m t) \<noteq> None) \<and>
    (\<forall>now now' cbs m'. listExpiredCb now now' m = Some (cbs, m') \<longrightarrow> None \<notin> set cbs)"
proof -
  have m: "timers_inv m" using timers.run_inv [OF TimerManager_init_inv, of start ops] assms by simp
  then show ?thesis using listExpiredCb_keeps [OF m] by (auto simp: timers_inv_def timers_ok_def)
qed

lemma div_mult_le_int: "(a :: int) div 1000000 * 1000000 \<le> a"
  using div_mult_mod_eq [of a 1000000] pos_mod_sign [of 1000000 a] by linarith

lemma getNextTimer_value:
  assumes "m_timers m = h # ts" and "deadline m h - now < 1000000 * (2 ^ 64 - 1)"
  shows "int (unat (fst (getNextTimer now m))) = (if deadline m h \<le> now then 0 else (deadline m h - now) div 1000000) \<and>
    fst (getNextTimer now m) \<noteq> not 0"
proof -
  let ?d = "(deadline m h - now) div 1000000"
  have small: "?d < 2 ^ 64 - 1" using assms(2) by (simp add: div_less_iff_less_mult)
  have val: "int (unat (fst (getNextTimer now m))) = (if deadline m h \<le> now then 0 else ?d)"
  proof (cases "deadline m h \<le> now")
    case True
    then show ?thesis by (simp add: getNextTimer_def assms(1) Let_def)
  next
    case False
    then have "0 \<le> ?d" by (simp add: pos_imp_zdiv_nonneg_iff)
    moreover have "fst (getNextTimer now m) = of_int ?d" using False by (simp add: getNextTimer_def assms(1) Let_def)
    moreover have "int (unat (of_int ?d :: u64)) = ?d mod 2 ^ 64" by (simp add: unsigned_of_int take_bit_eq_mod)
    ultimately show ?thesis using False small by simp
  qed
  have "fst (getNextTimer now m) \<noteq> not 0"
  proof
    assume "fst (getNextTimer now m) = not 0"
    then have "int (unat (fst (getNextTimer now m))) = 2 ^ 64 - 1"
      by (simp add: unsigned_minus_1_eq_mask mask_eq_exp_minus_1)
    with val small show False by (simp split: if_splits)
  qed
  with val show ?thesis by simp
qed

lemma getNextTimer_in_time:
  assumes "timers_ok m" and "m_timers m = h # ts" and "deadline m h - now < 1000000 * (2 ^ 64 - 1)"
    and "t \<in> set (m_timers m)" and "now < deadline m t"
  shows "now + int (unat (fst (getNextTimer now m))) * 1000000 \<le> deadline m t"
proof (cases "deadline m h \<le> now")
  case True
  with getNextTimer_value [OF assms(2,3)] assms(5) show ?thesis by (simp add: ms_ns_def)
next
  case False
  have "deadline m h \<le> deadline m t" using assms(1,2,4) by (auto simp: timers_ok_def)
  moreover have "(deadline m h - now) div 1000000 * 1000000 \<le> deadline m h - now" by (rule div_mult_le_int)
  ultimately show ?thesis using False getNextTimer_value [OF assms(2,3)] by (simp add: ms_ns_def)
qed

text \<open>
  Sleeping for the time \<open>getNextTimer\<close> gives does not oversleep: every deadline is at least
  that many milliseconds away, and the nearest is less than one more; an empty set gives the
  largest number, and 0 means that the nearest timer is due within the millisecond.
\<close>

theorem next_timer_not_late:
  assumes "timers_ok m" and "m_timers m \<noteq> []" and "deadline m (hd (m_timers m)) - now < 1000000 * (2 ^ 64 - 1)"
  shows "fst (getNextTimer now m) \<noteq> not 0 \<and>
    (\<forall>t \<in> set (m_timers m). now < deadline m t \<longrightarrow> now + int (unat (fst (getNextTimer now m))) * 1000000 \<le> deadline m t) \<and>
    deadline m (hd (m_timers m)) < now + int (unat (fst (getNextTimer now m)) + 1) * 1000000 \<and>
    fst (getNextTimer now (m\<lparr>m_timers := []\<rparr>)) = not 0"
proof -
  obtain h ts where m: "m_timers m = h # ts" using assms(2) by (cases "m_timers m") auto
  have far: "deadline m h - now < 1000000 * (2 ^ 64 - 1)" using assms(3) m by simp
  note val = getNextTimer_value [OF m far]
  have "deadline m h - now < ((deadline m h - now) div 1000000 + 1) * 1000000" by simp
  then have "deadline m h < now + int (unat (fst (getNextTimer now m)) + 1) * 1000000"
    using val by (cases "deadline m h \<le> now") (simp_all add: ms_ns_def distrib_right)
  moreover have "fst (getNextTimer now (m\<lparr>m_timers := []\<rparr>)) = not 0" by (simp add: getNextTimer_def)
  ultimately show ?thesis using getNextTimer_in_time [OF assms(1) m far] val m by simp
qed

section \<open>Sample runs\<close>

definition sample_timers :: timer_manager where
  "sample_timers = foldl timer_step (TimerManager_init 0) [Add 0 5 77 False, Add 0 3 78 False]"

lemma sample_timers_inv: "timers_inv sample_timers"
  unfolding sample_timers_def by (rule timers.run_inv [OF TimerManager_init_inv])

lemma sample_timers_list:
  "m_timers sample_timers = [Suc 0, 0]" "deadline sample_timers (Suc 0) = 3000000" "deadline sample_timers 0 = 5000000"
  "no_instant_repeat now sample_timers" "m_previouseTime sample_timers = 0"
  by (simp_all add: sample_timers_def TimerManager_init_def addTimer_def insert_timer_def set_insert_def
      set_find_def deadline_def update_timer_def after_ms_in_range Let_def no_instant_repeat_def)

theorem expired_timers_collected_witness:
  "\<exists>m' cbs. listExpiredCb 4000000 4000000 sample_timers = Some (cbs, m') \<and> length cbs = 1"
  using expired_timers_collected [OF sample_timers_inv sample_timers_list(4), of 4000000 4000000]
  by (auto simp: sample_timers_list due_def)

theorem timers_run_sound_witness:
  "sorted_wrt (<) (map (deadline sample_timers) (m_timers sample_timers))"
  using timers_run_sound [OF sample_timers_def [symmetric]] by blast

theorem next_timer_not_late_witness:
  "1000000 + int (unat (fst (getNextTimer 1000000 sample_timers))) * 1000000 \<le> deadline sample_timers 1"
proof -
  have ok: "timers_ok sample_timers" using sample_timers_inv by (simp add: timers_inv_def)
  show ?thesis
    using next_timer_not_late [OF ok, of 1000000] by (auto simp: sample_timers_list)
qed

theorem rollover_with_repeating_timers_diverges_witness:
  "listExpiredCb 0 (- 1) (snd (snd (addTimer 0 5 7 True (TimerManager_init (ms_ns (60 * 60 * 1000)))))) = None"
proof -
  let ?m = "snd (snd (addTimer 0 5 7 True (TimerManager_init (ms_ns (60 * 60 * 1000)))))"
  have "m_timers ?m = [0]" "tm_recurring (tm_store ?m 0)" "m_previouseTime ?m = ms_ns (60 * 60 * 1000)"
    by (simp_all add: TimerManager_init_def addTimer_def insert_timer_def set_insert_def
      set_find_def deadline_def update_timer_def Let_def)
  then show ?thesis using rollover_with_repeating_timers_diverges [of ?m "- 1" 0] by simp
qed

end
