(* ===== verification/Io_Manager.thy ===== *)
theory Io_Manager
  imports Timers "HOL-Library.Multiset"
begin

unbundle bit_operations_syntax

text \<open>
  \<open>src/CoroutineLibrary/ioscheduler.cpp\<close>: the table of descriptors with who waits for which event,
  and epoll. The result of each call of \<open>epoll_ctl\<close> is an argument (\<open>fails\<close>: not 0); the calls
  that succeeded are recorded in \<open>io_ctl\<close>. What \<open>scheduleLock\<close> hands to a scheduler is recorded in
  \<open>io_tasks\<close>. Schedulers, fibers and callbacks are numbers. A part of the code that holds the mutex
  of a descriptor is one step.
\<close>

section \<open>Descriptors\<close>

datatype task = Task_fiber nat | Task_cb nat

datatype epoll_op = EPOLL_CTL_ADD | EPOLL_CTL_MOD | EPOLL_CTL_DEL

datatype fault = Assertion_failed | Null_dereference | Out_of_bounds

record event_context =
  ec_scheduler :: "nat option"
  ec_fiber :: "nat option"
  ec_cb :: "nat option"

record fd_context =
  fc_read :: event_context
  fc_write :: event_context
  fc_fd :: nat
  fc_events :: u32

record io_manager =
  m_fdContexts :: "fd_context list"
  m_pendingEventCount :: u64
  io_ctl :: "(epoll_op \<times> nat \<times> u32) list"
  io_tasks :: "(nat \<times> task) list"

definition EV_NONE :: u32 where "EV_NONE = 0x0"
definition EV_READ :: u32 where "EV_READ = 0x1"
definition EV_WRITE :: u32 where "EV_WRITE = 0x4"

definition EPOLLIN :: u32 where "EPOLLIN = 0x1"
definition EPOLLOUT :: u32 where "EPOLLOUT = 0x4"
definition EPOLLERR :: u32 where "EPOLLERR = 0x8"
definition EPOLLHUP :: u32 where "EPOLLHUP = 0x10"
definition EPOLLET :: u32 where "EPOLLET = 0x80000000"

text \<open>\<open>resetEventContext\<close> writes this value, which is also the one of a new \<open>EventContext\<close>.\<close>

definition resetEventContext :: event_context where
  "resetEventContext = \<lparr>ec_scheduler = None, ec_fiber = None, ec_cb = None\<rparr>"

definition getEventContext :: "u32 \<Rightarrow> fd_context \<Rightarrow> fault + event_context" where
  "getEventContext event fc =
     (if event = EV_READ then Inr (fc_read fc)
      else if event = EV_WRITE then Inr (fc_write fc) else Inl Assertion_failed)"

text \<open>An assignment through the reference that \<open>getEventContext\<close> returned.\<close>

definition putEventContext :: "u32 \<Rightarrow> event_context \<Rightarrow> fd_context \<Rightarrow> fd_context" where
  "putEventContext event ctx fc =
     (if event = EV_READ then fc\<lparr>fc_read := ctx\<rparr> else fc\<lparr>fc_write := ctx\<rparr>)"

text \<open>\<open>scheduleLock\<close> enters a task only when it has a fiber or a callback.\<close>

definition scheduled :: "event_context \<Rightarrow> fault + (nat \<times> task) list" where
  "scheduled ctx =
     (case ec_scheduler ctx of
        None \<Rightarrow> Inl Null_dereference
      | Some s \<Rightarrow>
          (case ec_cb ctx of
             Some cb \<Rightarrow> Inr [(s, Task_cb cb)]
           | None \<Rightarrow> (case ec_fiber ctx of Some f \<Rightarrow> Inr [(s, Task_fiber f)] | None \<Rightarrow> Inr [])))"

definition triggerEvent :: "u32 \<Rightarrow> fd_context \<Rightarrow> fault + (nat \<times> task) list \<times> fd_context" where
  "triggerEvent event fc =
     (if fc_events fc AND event = 0 then Inl Assertion_failed
      else
       (let fc = fc\<lparr>fc_events := fc_events fc AND NOT event\<rparr>
        in case getEventContext event fc of
             Inl e \<Rightarrow> Inl e
           | Inr ctx \<Rightarrow>
               (case scheduled ctx of
                  Inl e \<Rightarrow> Inl e
                | Inr ts \<Rightarrow> Inr (ts, putEventContext event resetEventContext fc))))"

definition new_context :: "nat \<Rightarrow> fd_context" where
  "new_context i = \<lparr>fc_read = resetEventContext, fc_write = resetEventContext, fc_fd = i, fc_events = EV_NONE\<rparr>"

text \<open>\<open>resize\<close> to a smaller size drops the contexts at the end.\<close>

definition contextResize :: "nat \<Rightarrow> io_manager \<Rightarrow> io_manager" where
  "contextResize sz m =
     m\<lparr>m_fdContexts := take sz (m_fdContexts m) @ map new_context [length (m_fdContexts m)..<sz]\<rparr>"

definition IOManager_init :: io_manager where
  "IOManager_init =
     contextResize 32 \<lparr>m_fdContexts = [], m_pendingEventCount = 0, io_ctl = [], io_tasks = []\<rparr>"

section \<open>The operations\<close>

text \<open>
  The thread that calls: its scheduler, which may be null, and its running fiber. \<open>fiber_running\<close> is
  what the assertion on the fiber's state finds.
\<close>

record caller =
  this_scheduler :: "nat option"
  this_fiber :: nat
  fiber_running :: bool

definition ctl_done :: "epoll_op \<Rightarrow> nat \<Rightarrow> u32 \<Rightarrow> io_manager \<Rightarrow> io_manager" where
  "ctl_done op fd bits m = m\<lparr>io_ctl := io_ctl m @ [(op, fd, bits)]\<rparr>"

definition put_context :: "nat \<Rightarrow> fd_context \<Rightarrow> io_manager \<Rightarrow> io_manager" where
  "put_context fd fc m = m\<lparr>m_fdContexts := (m_fdContexts m)[fd := fc]\<rparr>"

text \<open>\<open>addEvent\<close> from the descriptor's mutex on.\<close>

definition arm_event ::
  "caller \<Rightarrow> bool \<Rightarrow> nat \<Rightarrow> u32 \<Rightarrow> nat option \<Rightarrow> io_manager \<Rightarrow> fault + int \<times> io_manager" where
  "arm_event me fails fd event cb m =
     (let fc = m_fdContexts m ! fd
      in if fc_events fc AND event \<noteq> 0 then Inr (-1, m)
      else
       (let op = (if fc_events fc \<noteq> 0 then EPOLL_CTL_MOD else EPOLL_CTL_ADD);
            bits = EPOLLET OR fc_events fc OR event
        in if fails then Inr (-1, m)
        else
         (let m = (ctl_done op fd bits m)\<lparr>m_pendingEventCount := m_pendingEventCount m + 1\<rparr>;
              fc = fc\<lparr>fc_events := fc_events fc OR event\<rparr>
          in case getEventContext event fc of
               Inl e \<Rightarrow> Inl e
             | Inr ctx \<Rightarrow>
                 if ctx \<noteq> resetEventContext then Inl Assertion_failed
                 else if cb = None \<and> \<not> fiber_running me then Inl Assertion_failed
                 else
                  (let ctx' = \<lparr>ec_scheduler = this_scheduler me,
                               ec_fiber = (if cb = None then Some (this_fiber me) else None), ec_cb = cb\<rparr>
                   in Inr (0, put_context fd (putEventContext event ctx' fc) m)))))"

text \<open>\<open>fd * 1.5\<close>, a double, converted to \<open>size_t\<close>.\<close>

definition grown_size :: "nat \<Rightarrow> nat" where
  "grown_size fd = fd * 3 div 2"

text \<open>What a thread does that has found the table too small, from the write lock on.\<close>

definition addEvent_grow ::
  "caller \<Rightarrow> bool \<Rightarrow> int \<Rightarrow> u32 \<Rightarrow> nat option \<Rightarrow> io_manager \<Rightarrow> fault + int \<times> io_manager" where
  "addEvent_grow me fails fd event cb m =
     (let m = contextResize (grown_size (nat fd)) m
      in if length (m_fdContexts m) \<le> nat fd then Inl Out_of_bounds
         else arm_event me fails (nat fd) event cb m)"

definition addEvent ::
  "caller \<Rightarrow> bool \<Rightarrow> int \<Rightarrow> u32 \<Rightarrow> nat option \<Rightarrow> io_manager \<Rightarrow> fault + int \<times> io_manager" where
  "addEvent me fails fd event cb m =
     (if fd < 0 then Inl Out_of_bounds
      else if int (length (m_fdContexts m)) > fd then arm_event me fails (nat fd) event cb m
      else addEvent_grow me fails fd event cb m)"

text \<open>The context of a descriptor, \<open>None\<close> for one behind the end of the table.\<close>

definition find_context :: "int \<Rightarrow> io_manager \<Rightarrow> fault + fd_context option" where
  "find_context fd m =
     (if fd < 0 then Inl Out_of_bounds
      else if int (length (m_fdContexts m)) > fd then Inr (Some (m_fdContexts m ! nat fd)) else Inr None)"

text \<open>The returned \<open>-1\<close> of a failing \<open>epoll_ctl\<close> is a \<open>bool\<close>, and so true.\<close>

definition delEvent :: "bool \<Rightarrow> int \<Rightarrow> u32 \<Rightarrow> io_manager \<Rightarrow> fault + bool \<times> io_manager" where
  "delEvent fails fd event m =
     (case find_context fd m of
        Inl e \<Rightarrow> Inl e
      | Inr None \<Rightarrow> Inr (False, m)
      | Inr (Some fc) \<Rightarrow>
          if fc_events fc AND event = 0 then Inr (False, m)
          else
           (let new_events = fc_events fc AND NOT event;
                op = (if new_events \<noteq> 0 then EPOLL_CTL_MOD else EPOLL_CTL_DEL)
            in if fails then Inr (True, m)
            else
             (let m = (ctl_done op (nat fd) (EPOLLET OR new_events) m)
                        \<lparr>m_pendingEventCount := m_pendingEventCount m - 1\<rparr>;
                  fc = fc\<lparr>fc_events := new_events\<rparr>
              in case getEventContext event fc of
                   Inl e \<Rightarrow> Inl e
                 | Inr _ \<Rightarrow> Inr (True, put_context (nat fd) (putEventContext event resetEventContext fc) m))))"

definition cancelEvent :: "bool \<Rightarrow> int \<Rightarrow> u32 \<Rightarrow> io_manager \<Rightarrow> fault + bool \<times> io_manager" where
  "cancelEvent fails fd event m =
     (case find_context fd m of
        Inl e \<Rightarrow> Inl e
      | Inr None \<Rightarrow> Inr (False, m)
      | Inr (Some fc) \<Rightarrow>
          if fc_events fc AND event = 0 then Inr (False, m)
          else
           (let new_events = fc_events fc AND NOT event;
                op = (if new_events \<noteq> 0 then EPOLL_CTL_MOD else EPOLL_CTL_DEL)
            in if fails then Inr (True, m)
            else
             (let m = (ctl_done op (nat fd) (EPOLLET OR new_events) m)
                        \<lparr>m_pendingEventCount := m_pendingEventCount m - 1\<rparr>
              in case triggerEvent event fc of
                   Inl e \<Rightarrow> Inl e
                 | Inr (ts, fc) \<Rightarrow> Inr (True, (put_context (nat fd) fc m)\<lparr>io_tasks := io_tasks m @ ts\<rparr>))))"

text \<open>
  The lines \<open>if (... & event) { triggerEvent(event); --m_pendingEventCount; }\<close> of \<open>cancelAll\<close> and
  \<open>idle\<close>, on the context and the manager.
\<close>

definition trigger_counted :: "bool \<Rightarrow> u32 \<Rightarrow> fd_context \<times> io_manager \<Rightarrow> fault + fd_context \<times> io_manager" where
  "trigger_counted wanted event fm =
     (if \<not> wanted then Inr fm
      else case triggerEvent event (fst fm) of
             Inl e \<Rightarrow> Inl e
           | Inr (ts, fc) \<Rightarrow>
               Inr (fc, (snd fm)\<lparr>io_tasks := io_tasks (snd fm) @ ts,
                                 m_pendingEventCount := m_pendingEventCount (snd fm) - 1\<rparr>))"

definition cancelAll :: "bool \<Rightarrow> int \<Rightarrow> io_manager \<Rightarrow> fault + bool \<times> io_manager" where
  "cancelAll fails fd m =
     (case find_context fd m of
        Inl e \<Rightarrow> Inl e
      | Inr None \<Rightarrow> Inr (False, m)
      | Inr (Some fc) \<Rightarrow>
          if fc_events fc = 0 then Inr (False, m)
          else if fails then Inr (True, m)
          else
           (case trigger_counted (fc_events fc AND EV_READ \<noteq> 0) EV_READ (fc, ctl_done EPOLL_CTL_DEL (nat fd) 0 m) of
              Inl e \<Rightarrow> Inl e
            | Inr (fc, m) \<Rightarrow>
                (case trigger_counted (fc_events fc AND EV_WRITE \<noteq> 0) EV_WRITE (fc, m) of
                   Inl e \<Rightarrow> Inl e
                 | Inr (fc, m) \<Rightarrow>
                     if fc_events fc \<noteq> 0 then Inl Assertion_failed
                     else Inr (True, put_context (nat fd) fc m))))"

section \<open>The idle fiber\<close>

text \<open>One ready event: the index of its context and the mask epoll reported.\<close>

definition real_events :: "u32 \<Rightarrow> u32 \<Rightarrow> u32" where
  "real_events bits armed =
     (let bits = (if bits AND (EPOLLERR OR EPOLLHUP) \<noteq> 0 then bits OR ((EPOLLIN OR EPOLLOUT) AND armed) else bits);
          real = EV_NONE;
          real = (if bits AND EPOLLIN \<noteq> 0 then real OR EV_READ else real)
      in if bits AND EPOLLOUT \<noteq> 0 then real OR EV_WRITE else real)"

definition idle_event :: "bool \<Rightarrow> nat \<Rightarrow> u32 \<Rightarrow> io_manager \<Rightarrow> fault + io_manager" where
  "idle_event fails fd bits m =
     (let fc = m_fdContexts m ! fd;
          real = real_events bits (fc_events fc)
      in if fc_events fc AND real = EV_NONE then Inr m
      else
       (let left_events = fc_events fc AND NOT real;
            op = (if left_events \<noteq> 0 then EPOLL_CTL_MOD else EPOLL_CTL_DEL)
        in if fails then Inr m
        else
         (case trigger_counted (real AND EV_READ \<noteq> 0) EV_READ (fc, ctl_done op (fc_fd fc) (EPOLLET OR left_events) m) of
            Inl e \<Rightarrow> Inl e
          | Inr fm \<Rightarrow>
              (case trigger_counted (real AND EV_WRITE \<noteq> 0) EV_WRITE fm of
                 Inl e \<Rightarrow> Inl e
               | Inr (fc, m) \<Rightarrow> Inr (put_context fd fc m)))))"

text \<open>The callbacks of the expired timers become tasks; an empty callback enters nothing.\<close>

definition schedule_expired :: "nat \<Rightarrow> nat option list \<Rightarrow> io_manager \<Rightarrow> io_manager" where
  "schedule_expired self cbs m =
     m\<lparr>io_tasks := io_tasks m @ concat (map (\<lambda>cb. case cb of Some c \<Rightarrow> [(self, Task_cb c)] | None \<Rightarrow> []) cbs)\<rparr>"

text \<open>The time to sleep in \<open>epoll_wait\<close>.\<close>

definition epoll_timeout :: "int \<Rightarrow> timer_manager \<Rightarrow> u64 \<times> timer_manager" where
  "epoll_timeout now tm = (case getNextTimer now tm of (next_timeout, tm') \<Rightarrow> (min next_timeout 5000, tm'))"

text \<open>
  \<open>stopping\<close> looks at the timers, at the counter and at the scheduler one after the other, under different locks;
  \<open>others\<close> is what other threads do between the first and the second look. The third one gives \<open>scheduler_stopping\<close>.
\<close>

definition iom_stopping ::
  "int \<Rightarrow> (io_manager \<times> timer_manager \<Rightarrow> io_manager \<times> timer_manager) \<Rightarrow> bool \<Rightarrow> io_manager \<times> timer_manager \<Rightarrow>
     bool \<times> io_manager \<times> timer_manager" where
  "iom_stopping now others scheduler_stopping s =
     (case s of (m, tm) \<Rightarrow>
        (case getNextTimer now tm of
           (timeout, tm) \<Rightarrow>
             (case others (m, tm) of
                (m, tm) \<Rightarrow> (timeout = not 0 \<and> m_pendingEventCount m = 0 \<and> scheduler_stopping, m, tm))))"

section \<open>The books\<close>

text \<open>Who waits: for an armed event, what its context hands to a scheduler.\<close>

definition tasks_of :: "event_context \<Rightarrow> (nat \<times> task) list" where
  "tasks_of ctx = (case scheduled ctx of Inl _ \<Rightarrow> [] | Inr ts \<Rightarrow> ts)"

definition armed_tasks :: "fd_context \<Rightarrow> (nat \<times> task) list" where
  "armed_tasks fc =
     (if fc_events fc AND EV_READ \<noteq> 0 then tasks_of (fc_read fc) else []) @
     (if fc_events fc AND EV_WRITE \<noteq> 0 then tasks_of (fc_write fc) else [])"

definition waiting :: "io_manager \<Rightarrow> (nat \<times> task) list" where
  "waiting m = concat (map armed_tasks (m_fdContexts m))"

definition slot_ok :: "bool \<Rightarrow> event_context \<Rightarrow> bool" where
  "slot_ok armed ctx \<longleftrightarrow> (if armed then \<exists>s t. scheduled ctx = Inr [(s, t)] else ctx = resetEventContext)"

definition context_ok :: "fd_context \<Rightarrow> bool" where
  "context_ok fc \<longleftrightarrow> fc_events fc \<in> {0, 1, 4, 5} \<and>
     slot_ok (fc_events fc AND EV_READ \<noteq> 0) (fc_read fc) \<and> slot_ok (fc_events fc AND EV_WRITE \<noteq> 0) (fc_write fc)"

text \<open>
  What epoll knows after the recorded calls. Epoll refuses to add a descriptor it has and to change
  or remove one it has not; then the replay is \<open>None\<close>.
\<close>

fun ctl_apply :: "epoll_op \<times> nat \<times> u32 \<Rightarrow> (nat \<Rightarrow> u32 option) \<Rightarrow> (nat \<Rightarrow> u32 option) option" where
  "ctl_apply (EPOLL_CTL_ADD, fd, bits) reg = (if reg fd = None then Some (reg(fd := Some bits)) else None)"
| "ctl_apply (EPOLL_CTL_MOD, fd, bits) reg = (if reg fd = None then None else Some (reg(fd := Some bits)))"
| "ctl_apply (EPOLL_CTL_DEL, fd, bits) reg = (if reg fd = None then None else Some (reg(fd := None)))"

definition replay :: "(epoll_op \<times> nat \<times> u32) list \<Rightarrow> (nat \<Rightarrow> u32 option) option" where
  "replay cs = foldl (\<lambda>r c. Option.bind r (ctl_apply c)) (Some (\<lambda>_. None)) cs"

definition registered :: "fd_context list \<Rightarrow> nat \<Rightarrow> u32 option" where
  "registered cs fd =
     (if fd < length cs \<and> fc_events (cs ! fd) \<noteq> 0 then Some (EPOLLET OR fc_events (cs ! fd)) else None)"

definition iom_inv :: "io_manager \<Rightarrow> bool" where
  "iom_inv m \<longleftrightarrow> 32 \<le> length (m_fdContexts m) \<and>
     (\<forall>i < length (m_fdContexts m). context_ok (m_fdContexts m ! i) \<and> fc_fd (m_fdContexts m ! i) = i) \<and>
     m_pendingEventCount m = of_nat (length (waiting m)) \<and>
     replay (io_ctl m) = Some (registered (m_fdContexts m))"

lemmas ev_defs = EV_NONE_def EV_READ_def EV_WRITE_def
lemmas epoll_defs = EPOLLIN_def EPOLLOUT_def EPOLLERR_def EPOLLHUP_def EPOLLET_def

lemma event_bits:
  "(0 :: u32) AND 1 = 0" "(1 :: u32) AND 1 = 1" "(4 :: u32) AND 1 = 0" "(5 :: u32) AND 1 = 1"
  "(0 :: u32) AND 4 = 0" "(1 :: u32) AND 4 = 0" "(4 :: u32) AND 4 = 4" "(5 :: u32) AND 4 = 4"
  "(0 :: u32) AND NOT 1 = 0" "(1 :: u32) AND NOT 1 = 0" "(4 :: u32) AND NOT 1 = 4" "(5 :: u32) AND NOT 1 = 4"
  "(0 :: u32) AND NOT 4 = 0" "(1 :: u32) AND NOT 4 = 1" "(4 :: u32) AND NOT 4 = 0" "(5 :: u32) AND NOT 4 = 1"
  "(0 :: u32) OR 1 = 1" "(4 :: u32) OR 1 = 5" "(0 :: u32) OR 4 = 4" "(1 :: u32) OR 4 = 5"
  by simp_all

lemma tasks_of_reset [simp]: "tasks_of resetEventContext = []"
  by (simp add: tasks_of_def scheduled_def resetEventContext_def)

lemma slot_ok_False [simp]: "slot_ok False ctx \<longleftrightarrow> ctx = resetEventContext"
  by (simp add: slot_ok_def)

lemma slot_ok_True: "scheduled ctx = Inr [(s, t)] \<Longrightarrow> slot_ok True ctx"
  by (auto simp: slot_ok_def)

lemma arm_context:
  assumes "context_ok fc" and "event \<in> {EV_READ, EV_WRITE}" and "fc_events fc AND event = 0"
    and "scheduled ctx = Inr [(s, t)]"
    and "fc' = putEventContext event ctx (fc\<lparr>fc_events := fc_events fc OR event\<rparr>)"
  shows "context_ok fc'" and "mset (armed_tasks fc') = add_mset (s, t) (mset (armed_tasks fc))"
    and "fc_events fc' \<noteq> 0" and "fc_events fc' = fc_events fc OR event" and "fc_fd fc' = fc_fd fc"
    and "getEventContext event (fc\<lparr>fc_events := fc_events fc OR event\<rparr>) = Inr resetEventContext"
  using assms slot_ok_True [OF assms(4)]
  by (auto simp: context_ok_def armed_tasks_def tasks_of_def getEventContext_def putEventContext_def ev_defs event_bits)

lemma drop_context:
  assumes "context_ok fc" and "event \<in> {EV_READ, EV_WRITE}" and "fc_events fc AND event \<noteq> 0"
    and "fc' = putEventContext event resetEventContext (fc\<lparr>fc_events := fc_events fc AND NOT event\<rparr>)"
  obtains ctx s t where "getEventContext event fc = Inr ctx" and "scheduled ctx = Inr [(s, t)]"
    and "context_ok fc'" and "mset (armed_tasks fc) = add_mset (s, t) (mset (armed_tasks fc'))"
    and "fc_fd fc' = fc_fd fc" and "fc_events fc' = fc_events fc AND NOT event"
    and "triggerEvent event fc = Inr ([(s, t)], fc')"
proof -
  obtain ctx where ctx: "getEventContext event fc = Inr ctx"
      "getEventContext event (fc\<lparr>fc_events := fc_events fc AND NOT event\<rparr>) = Inr ctx" "slot_ok True ctx"
    using assms(1-3) by (auto simp: getEventContext_def context_ok_def ev_defs event_bits)
  then obtain s t where st: "scheduled ctx = Inr [(s, t)]" by (auto simp: slot_ok_def)
  have "context_ok fc'" "mset (armed_tasks fc) = add_mset (s, t) (mset (armed_tasks fc'))"
    "fc_fd fc' = fc_fd fc" "fc_events fc' = fc_events fc AND NOT event"
    using assms ctx st
    by (auto simp: context_ok_def armed_tasks_def tasks_of_def getEventContext_def putEventContext_def ev_defs event_bits
        split: if_splits)
  moreover have "triggerEvent event fc = Inr ([(s, t)], fc')"
    using assms(3,4) ctx st by (simp add: triggerEvent_def)
  ultimately show thesis using that ctx st by blast
qed

lemma waiting_put:
  "fd < length (m_fdContexts m) \<Longrightarrow>
     mset (waiting (put_context fd fc m)) + mset (armed_tasks (m_fdContexts m ! fd)) = mset (waiting m) + mset (armed_tasks fc)"
  by (simp add: waiting_def put_context_def mset_concat_update)

lemma registered_update:
  "fd < length cs \<Longrightarrow> registered (cs[fd := fc]) =
     (registered cs)(fd := (if fc_events fc \<noteq> 0 then Some (EPOLLET OR fc_events fc) else None))"
  by (auto simp: registered_def nth_list_update)

lemma replay_snoc: "replay (cs @ [c]) = Option.bind (replay cs) (ctl_apply c)"
  by (simp add: replay_def)

section \<open>Every operation keeps the books\<close>

definition ctl_fits :: "u32 \<Rightarrow> u32 \<Rightarrow> epoll_op \<Rightarrow> u32 \<Rightarrow> bool" where
  "ctl_fits old new op bits \<longleftrightarrow> (old \<noteq> 0 \<or> new \<noteq> 0) \<and>
     (if new = 0 then op = EPOLL_CTL_DEL
      else op = (if old = 0 then EPOLL_CTL_ADD else EPOLL_CTL_MOD) \<and> bits = EPOLLET OR new)"

lemma change_context:
  assumes "iom_inv m" and "fd < length (m_fdContexts m)" and "context_ok fc'" and "fc_fd fc' = fd"
    and "ctl_fits (fc_events (m_fdContexts m ! fd)) (fc_events fc') op bits"
    and "m_fdContexts m' = (m_fdContexts m)[fd := fc']" and "io_ctl m' = io_ctl m @ [(op, fd, bits)]"
    and "m_pendingEventCount m' + of_nat (length (armed_tasks (m_fdContexts m ! fd))) =
      m_pendingEventCount m + of_nat (length (armed_tasks fc'))"
  shows "iom_inv m'" and "mset (waiting m') + mset (armed_tasks (m_fdContexts m ! fd)) = mset (waiting m) + mset (armed_tasks fc')"
proof -
  let ?old = "m_fdContexts m ! fd"
  have w: "waiting m' = waiting (put_context fd fc' m)" by (simp add: waiting_def put_context_def assms(6))
  show books: "mset (waiting m') + mset (armed_tasks ?old) = mset (waiting m) + mset (armed_tasks fc')"
    unfolding w by (rule waiting_put [OF assms(2)])
  from arg_cong [OF books, of size]
  have "of_nat (length (waiting m')) + of_nat (length (armed_tasks ?old)) =
      (of_nat (length (waiting m)) + of_nat (length (armed_tasks fc')) :: u64)"
    by (simp del: of_nat_add add: of_nat_add [symmetric])
  moreover have "m_pendingEventCount m = of_nat (length (waiting m))" using assms(1) by (simp add: iom_inv_def)
  ultimately have p: "m_pendingEventCount m' = of_nat (length (waiting m'))"
    using assms(8) by (metis add_right_cancel)
  have "replay (io_ctl m) = Some (registered (m_fdContexts m))" using assms(1) by (simp add: iom_inv_def)
  then have "replay (io_ctl m') = Some (registered (m_fdContexts m'))"
    using assms(2,5) by (cases op) (auto simp: assms(6,7) replay_snoc registered_update ctl_fits_def split: if_splits,
      auto simp: registered_def)
  with assms(1-4) p show "iom_inv m'"
    by (auto simp: iom_inv_def assms(6) nth_list_update)
qed

lemma iom_inv_context:
  "iom_inv m \<Longrightarrow> fd < length (m_fdContexts m) \<Longrightarrow> context_ok (m_fdContexts m ! fd) \<and> fc_fd (m_fdContexts m ! fd) = fd"
  by (simp add: iom_inv_def)

text \<open>The waiter a successful \<open>addEvent\<close> enters.\<close>

definition waiter :: "caller \<Rightarrow> nat \<Rightarrow> nat option \<Rightarrow> nat \<times> task" where
  "waiter me s cb = (s, case cb of Some c \<Rightarrow> Task_cb c | None \<Rightarrow> Task_fiber (this_fiber me))"

definition caller_ok :: "caller \<Rightarrow> nat \<Rightarrow> nat option \<Rightarrow> bool" where
  "caller_ok me s cb \<longleftrightarrow> this_scheduler me = Some s \<and> (cb = None \<longrightarrow> fiber_running me)"

lemma arm_event_done:
  assumes "iom_inv m" and "fd < length (m_fdContexts m)" and "event \<in> {EV_READ, EV_WRITE}" and "caller_ok me s cb"
    and "\<not> fails" and "fc_events (m_fdContexts m ! fd) AND event = 0"
  obtains m' where "arm_event me fails fd event cb m = Inr (0, m')" and "iom_inv m'"
    and "mset (waiting m') = add_mset (waiter me s cb) (mset (waiting m))" and "io_tasks m' = io_tasks m"
proof -
  let ?fc = "m_fdContexts m ! fd"
  let ?ctx = "\<lparr>ec_scheduler = this_scheduler me, ec_fiber = (if cb = None then Some (this_fiber me) else None), ec_cb = cb\<rparr>"
  let ?op = "if fc_events ?fc \<noteq> 0 then EPOLL_CTL_MOD else EPOLL_CTL_ADD"
  let ?bits = "EPOLLET OR fc_events ?fc OR event"
  obtain fc' where fc': "fc' = putEventContext event ?ctx (?fc\<lparr>fc_events := fc_events ?fc OR event\<rparr>)" by blast
  obtain t where w: "waiter me s cb = (s, t)" "scheduled ?ctx = Inr [(s, t)]"
    using assms(4) by (auto simp: waiter_def scheduled_def caller_ok_def split: option.splits)
  have ok: "context_ok ?fc" "fc_fd ?fc = fd" using iom_inv_context [OF assms(1,2)] by simp_all
  note a = arm_context [OF ok(1) assms(3,6) w(2) fc']
  let ?m = "put_context fd fc' ((ctl_done ?op fd ?bits m)\<lparr>m_pendingEventCount := m_pendingEventCount m + 1\<rparr>)"
  have run: "arm_event me fails fd event cb m = Inr (0, ?m)"
    using assms(4-6) a(6) fc' by (auto simp: arm_event_def Let_def caller_ok_def)
  have len: "length (armed_tasks fc') = Suc (length (armed_tasks ?fc))"
    using arg_cong [OF a(2), of size] by simp
  have fits: "ctl_fits (fc_events ?fc) (fc_events fc') ?op ?bits"
    using a(3,4) by (auto simp: ctl_fits_def or.assoc)
  have ch: "iom_inv ?m" "mset (waiting ?m) + mset (armed_tasks ?fc) = mset (waiting m) + mset (armed_tasks fc')"
    by (rule change_context [OF assms(1,2) a(1) trans [OF a(5) ok(2)] fits];
        simp add: put_context_def ctl_done_def len)+
  from ch(2) have "mset (waiting ?m) = add_mset (waiter me s cb) (mset (waiting m))"
    by (simp add: a(2) w(1))
  with that [OF run ch(1)] show thesis by (simp add: put_context_def ctl_done_def)
qed

lemma drop_event_done:
  assumes "iom_inv m" and "fd < length (m_fdContexts m)" and "event \<in> {EV_READ, EV_WRITE}"
    and "fc = m_fdContexts m ! fd" and "fc_events fc AND event \<noteq> 0" and "new_events = fc_events fc AND NOT event"
    and "op = (if new_events \<noteq> 0 then EPOLL_CTL_MOD else EPOLL_CTL_DEL)"
    and "fc' = putEventContext event resetEventContext (fc\<lparr>fc_events := new_events\<rparr>)"
    and "m' = put_context fd fc' ((ctl_done op fd (EPOLLET OR new_events) m)
           \<lparr>m_pendingEventCount := m_pendingEventCount m - 1, io_tasks := ts\<rparr>)"
  obtains ctx s t where "getEventContext event fc = Inr ctx" and "scheduled ctx = Inr [(s, t)]"
    and "triggerEvent event fc = Inr ([(s, t)], fc')" and "iom_inv m'"
    and "mset (waiting m) = add_mset (s, t) (mset (waiting m'))"
proof -
  have ok: "context_ok fc" "fc_fd fc = fd" using iom_inv_context [OF assms(1,2)] assms(4) by simp_all
  have fc': "fc' = putEventContext event resetEventContext (fc\<lparr>fc_events := fc_events fc AND NOT event\<rparr>)"
    using assms(6,8) by simp
  obtain ctx s t where d: "getEventContext event fc = Inr ctx" "scheduled ctx = Inr [(s, t)]"
      "context_ok fc'" "mset (armed_tasks fc) = add_mset (s, t) (mset (armed_tasks fc'))"
      "fc_fd fc' = fc_fd fc" "fc_events fc' = fc_events fc AND NOT event"
      "triggerEvent event fc = Inr ([(s, t)], fc')"
    by (rule drop_context [OF ok(1) assms(3,5) fc'])
  have len: "length (armed_tasks fc) = Suc (length (armed_tasks fc'))"
    using arg_cong [OF d(4), of size] by simp
  have ne: "fc_events fc \<noteq> 0" using assms(5) by auto
  have fits: "ctl_fits (fc_events (m_fdContexts m ! fd)) (fc_events fc') op (EPOLLET OR new_events)"
    using ne d(6) assms(4,6,7) by (auto simp: ctl_fits_def)
  have ch: "iom_inv m'" "mset (waiting m') + mset (armed_tasks fc) = mset (waiting m) + mset (armed_tasks fc')"
    unfolding assms(4)
    by (rule change_context [OF assms(1,2) d(3) trans [OF d(5) ok(2)] fits];
        simp add: assms(9) put_context_def ctl_done_def len assms(4) [symmetric])+
  from ch(2) have "mset (waiting m) = add_mset (s, t) (mset (waiting m'))" by (simp add: d(4))
  with that d ch(1) show thesis by blast
qed

lemma trigger_counted_done:
  assumes "context_ok fc" and "event \<in> {EV_READ, EV_WRITE}" and "wanted \<Longrightarrow> fc_events fc AND event \<noteq> 0"
  obtains ts fc' where "trigger_counted wanted event (fc, m) =
      Inr (fc', m\<lparr>io_tasks := io_tasks m @ ts, m_pendingEventCount := m_pendingEventCount m - of_nat (length ts)\<rparr>)"
    and "context_ok fc'" and "fc_fd fc' = fc_fd fc"
    and "fc_events fc' = (if wanted then fc_events fc AND NOT event else fc_events fc)"
    and "mset (armed_tasks fc) = mset ts + mset (armed_tasks fc')"
proof (cases wanted)
  case True
  obtain ctx s t where "context_ok (putEventContext event resetEventContext (fc\<lparr>fc_events := fc_events fc AND NOT event\<rparr>))"
      "mset (armed_tasks fc) = add_mset (s, t) (mset (armed_tasks
          (putEventContext event resetEventContext (fc\<lparr>fc_events := fc_events fc AND NOT event\<rparr>))))"
      "fc_fd (putEventContext event resetEventContext (fc\<lparr>fc_events := fc_events fc AND NOT event\<rparr>)) = fc_fd fc"
      "fc_events (putEventContext event resetEventContext (fc\<lparr>fc_events := fc_events fc AND NOT event\<rparr>)) = fc_events fc AND NOT event"
      "triggerEvent event fc = Inr ([(s, t)], putEventContext event resetEventContext (fc\<lparr>fc_events := fc_events fc AND NOT event\<rparr>))"
    by (rule drop_context [OF assms(1,2) assms(3) [OF True] refl])
  with True show thesis
    by (intro that [of _ "[(s, t)]"]) (simp_all add: trigger_counted_def)
next
  case False
  with assms(1) show thesis by (intro that [of fc "[]"]) (simp_all add: trigger_counted_def)
qed

lemma trigger_both:
  assumes "iom_inv m" and "fd < length (m_fdContexts m)" and "fc = m_fdContexts m ! fd"
    and "rd \<Longrightarrow> fc_events fc AND EV_READ \<noteq> 0" and "wr \<Longrightarrow> fc_events fc AND EV_WRITE \<noteq> 0"
    and "left = (if rd then fc_events fc AND NOT EV_READ else fc_events fc)"
    and "left' = (if wr then left AND NOT EV_WRITE else left)"
    and "ctl_fits (fc_events fc) left' op bits"
  obtains ts fc1 m1 fc2 m2 where "trigger_counted rd EV_READ (fc, ctl_done op fd bits m) = Inr (fc1, m1)"
    and "fc_events fc1 = left" and "trigger_counted wr EV_WRITE (fc1, m1) = Inr (fc2, m2)"
    and "fc_events fc2 = left'" and "iom_inv (put_context fd fc2 m2)"
    and "mset (waiting m) = mset ts + mset (waiting (put_context fd fc2 m2))"
    and "io_tasks (put_context fd fc2 m2) = io_tasks m @ ts"
proof -
  have ok: "context_ok fc" "fc_fd fc = fd" using iom_inv_context [OF assms(1,2)] assms(3) by simp_all
  let ?m = "ctl_done op fd bits m"
  obtain ts1 fc1 where t1: "trigger_counted rd EV_READ (fc, ?m) =
      Inr (fc1, ?m\<lparr>io_tasks := io_tasks ?m @ ts1, m_pendingEventCount := m_pendingEventCount ?m - of_nat (length ts1)\<rparr>)"
      "context_ok fc1" "fc_fd fc1 = fc_fd fc" "fc_events fc1 = left"
      "mset (armed_tasks fc) = mset ts1 + mset (armed_tasks fc1)"
    unfolding assms(6) by (rule trigger_counted_done [OF ok(1) insertI1 assms(4)])
  let ?m1 = "?m\<lparr>io_tasks := io_tasks ?m @ ts1, m_pendingEventCount := m_pendingEventCount ?m - of_nat (length ts1)\<rparr>"
  have wr1: "wr \<Longrightarrow> fc_events fc1 AND EV_WRITE \<noteq> 0"
    using assms(5,6) t1(4) ok(1) by (auto simp: context_ok_def ev_defs event_bits)
  obtain ts2 fc2 where t2: "trigger_counted wr EV_WRITE (fc1, ?m1) =
      Inr (fc2, ?m1\<lparr>io_tasks := io_tasks ?m1 @ ts2, m_pendingEventCount := m_pendingEventCount ?m1 - of_nat (length ts2)\<rparr>)"
      "context_ok fc2" "fc_fd fc2 = fc_fd fc1" "fc_events fc2 = left'"
      "mset (armed_tasks fc1) = mset ts2 + mset (armed_tasks fc2)"
    unfolding assms(7) t1(4) [symmetric] by (rule trigger_counted_done [OF t1(2) insertI2 [OF singletonI] wr1])
  let ?m2 = "?m1\<lparr>io_tasks := io_tasks ?m1 @ ts2, m_pendingEventCount := m_pendingEventCount ?m1 - of_nat (length ts2)\<rparr>"
  have armed: "mset (armed_tasks fc) = mset (ts1 @ ts2) + mset (armed_tasks fc2)"
    using t1(5) t2(5) by (simp add: add.assoc)
  have fits: "ctl_fits (fc_events (m_fdContexts m ! fd)) (fc_events fc2) op bits"
    using assms(3,8) t2(4) by simp
  have fd2: "fc_fd fc2 = fd" using t1(3) t2(3) ok(2) by simp
  have len: "length (armed_tasks fc) = length ts1 + length ts2 + length (armed_tasks fc2)"
    using arg_cong [OF armed, of size] by simp
  have ch: "iom_inv (put_context fd fc2 ?m2)"
      "mset (waiting (put_context fd fc2 ?m2)) + mset (armed_tasks fc) = mset (waiting m) + mset (armed_tasks fc2)"
    unfolding assms(3)
    by (rule change_context [OF assms(1,2) t2(2) fd2 fits];
        simp add: put_context_def ctl_done_def len assms(3) [symmetric])+
  have "mset (waiting m) = mset (ts1 @ ts2) + mset (waiting (put_context fd fc2 ?m2))"
    using ch(2) unfolding armed by (simp add: ac_simps)
  moreover have "io_tasks (put_context fd fc2 ?m2) = io_tasks m @ (ts1 @ ts2)"
    by (simp add: put_context_def ctl_done_def)
  ultimately show thesis using that t1(1,4) t2(1,4) ch(1) by blast
qed

lemma find_context_known:
  "0 \<le> fd \<Longrightarrow> find_context fd m =
     Inr (if nat fd < length (m_fdContexts m) then Some (m_fdContexts m ! nat fd) else None)"
  by (simp add: find_context_def nat_less_iff)

lemma cancelAll_done:
  assumes "iom_inv m" and "0 \<le> fd" and "cancelAll fails fd m = r"
  obtains ok m' ts where "r = Inr (ok, m')" and "iom_inv m'"
    and "mset (waiting m) = mset ts + mset (waiting m')" and "io_tasks m' = io_tasks m @ ts"
proof (cases "nat fd < length (m_fdContexts m) \<and> fc_events (m_fdContexts m ! nat fd) \<noteq> 0 \<and> \<not> fails")
  case True
  let ?fc = "m_fdContexts m ! nat fd"
  have cs: "context_ok ?fc" using iom_inv_context True assms(1) by blast
  have left: "(if fc_events ?fc AND EV_WRITE \<noteq> 0
      then (if fc_events ?fc AND EV_READ \<noteq> 0 then fc_events ?fc AND NOT EV_READ else fc_events ?fc) AND NOT EV_WRITE
      else (if fc_events ?fc AND EV_READ \<noteq> 0 then fc_events ?fc AND NOT EV_READ else fc_events ?fc)) = 0"
    using cs by (auto simp: context_ok_def ev_defs event_bits)
  have fits: "ctl_fits (fc_events ?fc) 0 EPOLL_CTL_DEL 0" using True by (simp add: ctl_fits_def)
  have fd: "nat fd < length (m_fdContexts m)" using True by simp
  have wr: "(fc_events ?fc AND EV_WRITE \<noteq> 0) =
      ((if fc_events ?fc AND EV_READ \<noteq> 0 then fc_events ?fc AND NOT EV_READ else fc_events ?fc) AND EV_WRITE \<noteq> 0)"
    using cs by (auto simp: context_ok_def ev_defs event_bits)
  obtain ts fc1 m1 fc2 m2 where t:
      "trigger_counted (fc_events ?fc AND EV_READ \<noteq> 0) EV_READ (?fc, ctl_done EPOLL_CTL_DEL (nat fd) 0 m) = Inr (fc1, m1)"
      "fc_events fc1 = (if fc_events ?fc AND EV_READ \<noteq> 0 then fc_events ?fc AND NOT EV_READ else fc_events ?fc)"
      "trigger_counted (fc_events ?fc AND EV_WRITE \<noteq> 0) EV_WRITE (fc1, m1) = Inr (fc2, m2)"
      "fc_events fc2 = 0" "iom_inv (put_context (nat fd) fc2 m2)"
      "mset (waiting m) = mset ts + mset (waiting (put_context (nat fd) fc2 m2))"
      "io_tasks (put_context (nat fd) fc2 m2) = io_tasks m @ ts"
    by (rule trigger_both [OF assms(1) fd refl _ _ refl left [symmetric] fits])
  have wr1: "(fc_events fc1 AND EV_WRITE \<noteq> 0) = (fc_events ?fc AND EV_WRITE \<noteq> 0)"
    unfolding t(2) by (rule wr [symmetric])
  have find: "find_context fd m = Inr (Some ?fc)" using fd find_context_known [OF assms(2)] by simp
  have "r = Inr (True, put_context (nat fd) fc2 m2)"
    unfolding assms(3) [symmetric] cancelAll_def find sum.case option.case t(1) prod.case wr1 t(3,4)
    using True by simp
  then show thesis using t(5-7) by (rule that)
next
  case False
  have "\<exists>ok. r = Inr (ok, m)"
    using False unfolding assms(3) [symmetric] cancelAll_def find_context_known [OF assms(2)] by auto
  then show thesis using assms(1) that [of _ m "[]"] by auto
qed

text \<open>A report of epoll is fresh when no event of it was disarmed since, or all of them were.\<close>

definition fresh_report :: "u32 \<Rightarrow> u32 \<Rightarrow> bool" where
  "fresh_report bits armed \<longleftrightarrow>
     real_events bits armed AND NOT armed = 0 \<or> armed AND real_events bits armed = 0"

lemma real_events_values: "real_events bits armed \<in> {0, 1, 4, 5}"
  by (simp add: real_events_def Let_def ev_defs)

lemma left_bits:
  assumes "e \<in> {0, 1, 4, 5 :: u32}" and "r \<in> {0, 1, 4, 5}" and "r AND NOT e = 0" and "e AND r \<noteq> 0"
  shows "r AND EV_READ \<noteq> 0 \<Longrightarrow> e AND EV_READ \<noteq> 0" and "r AND EV_WRITE \<noteq> 0 \<Longrightarrow> e AND EV_WRITE \<noteq> 0"
    and "e AND NOT r = (if r AND EV_WRITE \<noteq> 0
      then (if r AND EV_READ \<noteq> 0 then e AND NOT EV_READ else e) AND NOT EV_WRITE
      else (if r AND EV_READ \<noteq> 0 then e AND NOT EV_READ else e))"
  using assms by (auto simp: ev_defs event_bits)

lemma idle_event_done:
  assumes "iom_inv m" and "fd < length (m_fdContexts m)" and "fresh_report bits (fc_events (m_fdContexts m ! fd))"
  obtains m' ts where "idle_event fails fd bits m = Inr m'" and "iom_inv m'"
    and "mset (waiting m) = mset ts + mset (waiting m')" and "io_tasks m' = io_tasks m @ ts"
proof -
  let ?fc = "m_fdContexts m ! fd" and ?e = "fc_events (m_fdContexts m ! fd)"
  let ?r = "real_events bits ?e"
  have ok: "context_ok ?fc" "fc_fd ?fc = fd" using iom_inv_context [OF assms(1,2)] by simp_all
  then have e: "?e \<in> {0, 1, 4, 5}" by (simp add: context_ok_def)
  show thesis
  proof (cases "?e AND ?r = EV_NONE \<or> fails")
    case True
    then have "idle_event fails fd bits m = Inr m" by (auto simp: idle_event_def Let_def)
    then show thesis using assms(1) by (intro that [of m "[]"]) simp_all
  next
    case False
    then have r: "?r AND NOT ?e = 0" "?e AND ?r \<noteq> 0" "?e \<noteq> 0"
      using assms(3) by (auto simp: fresh_report_def EV_NONE_def)
    note b = left_bits [OF e real_events_values r(1,2)]
    let ?left = "?e AND NOT ?r"
    let ?op = "if ?left \<noteq> 0 then EPOLL_CTL_MOD else EPOLL_CTL_DEL"
    have fits: "ctl_fits ?e ?left ?op (EPOLLET OR ?left)" using r(3) by (simp add: ctl_fits_def)
    obtain ts fc1 m1 fc2 m2 where t:
        "trigger_counted (?r AND EV_READ \<noteq> 0) EV_READ (?fc, ctl_done ?op fd (EPOLLET OR ?left) m) = Inr (fc1, m1)"
        "trigger_counted (?r AND EV_WRITE \<noteq> 0) EV_WRITE (fc1, m1) = Inr (fc2, m2)"
        "iom_inv (put_context fd fc2 m2)" "mset (waiting m) = mset ts + mset (waiting (put_context fd fc2 m2))"
        "io_tasks (put_context fd fc2 m2) = io_tasks m @ ts"
      by (rule trigger_both [OF assms(1,2) refl b(1,2) refl b(3) fits])
    have "idle_event fails fd bits m = Inr (put_context fd fc2 m2)"
      using False by (simp only: idle_event_def Let_def ok(2) t(1,2) sum.case prod.case) simp
    then show thesis using t(3-5) by (rule that)
  qed
qed

lemma triggerEvent_unarmed: "fc_events fc AND event = 0 \<Longrightarrow> triggerEvent event fc = Inl Assertion_failed"
  by (simp add: triggerEvent_def)

lemma stale_bits:
  assumes "e \<in> {0, 1, 4, 5 :: u32}" and "r \<in> {0, 1, 4, 5}" and "r AND NOT e \<noteq> 0" and "e AND r \<noteq> 0"
  shows "(e = 4 \<or> e = 1) \<and> r = 5"
  using assms by (auto simp: event_bits)

lemma idle_event_stale:
  assumes "iom_inv m" and "fd < length (m_fdContexts m)" and "\<not> fresh_report bits (fc_events (m_fdContexts m ! fd))"
  shows "idle_event False fd bits m = Inl Assertion_failed"
proof -
  let ?fc = "m_fdContexts m ! fd" and ?e = "fc_events (m_fdContexts m ! fd)"
  let ?r = "real_events bits ?e"
  have ok: "context_ok ?fc" using iom_inv_context [OF assms(1,2)] by simp
  then have e: "?e \<in> {0, 1, 4, 5}" by (simp add: context_ok_def)
  have ne: "?r AND NOT ?e \<noteq> 0" "?e AND ?r \<noteq> 0" using assms(3) by (simp_all add: fresh_report_def)
  from stale_bits [OF e real_events_values ne] have r: "?r = 5" "?e = 4 \<or> ?e = 1" by simp_all
  show ?thesis
  proof (cases "?e = 4")
    case True
    then show ?thesis using r(1)
      by (simp add: idle_event_def Let_def trigger_counted_def triggerEvent_unarmed ev_defs event_bits)
  next
    case False
    with r(2) have e1: "?e = 1" by simp
    let ?m = "ctl_done EPOLL_CTL_DEL (fc_fd ?fc) (EPOLLET OR 0) m"
    have rd: "?e AND EV_READ \<noteq> 0" using e1 by (simp add: ev_defs)
    obtain ts fc1 where t: "trigger_counted True EV_READ (?fc, ?m) = Inr (fc1,
          ?m\<lparr>io_tasks := io_tasks ?m @ ts, m_pendingEventCount := m_pendingEventCount ?m - of_nat (length ts)\<rparr>)"
        "fc_events fc1 = (if True then ?e AND NOT EV_READ else ?e)"
      by (rule trigger_counted_done [OF ok insertI1 rd])
    have "triggerEvent EV_WRITE fc1 = Inl Assertion_failed"
      by (rule triggerEvent_unarmed) (simp add: t(2) e1 ev_defs)
    then have w: "trigger_counted True EV_WRITE (fc1, m') = Inl Assertion_failed" for m'
      by (simp add: trigger_counted_def)
    show ?thesis using r(1) e1 t(1) w
      by (simp add: idle_event_def Let_def ev_defs event_bits)
  qed
qed

lemma new_context_ok: "context_ok (new_context i) \<and> armed_tasks (new_context i) = [] \<and> fc_fd (new_context i) = i"
  by (simp add: new_context_def context_ok_def armed_tasks_def ev_defs)

lemma contextResize_grows:
  assumes "iom_inv m" and "length (m_fdContexts m) \<le> sz"
  shows "iom_inv (contextResize sz m)" and "waiting (contextResize sz m) = waiting m"
    and "length (m_fdContexts (contextResize sz m)) = sz" and "io_tasks (contextResize sz m) = io_tasks m"
proof -
  let ?l = "length (m_fdContexts m)"
  have cs: "m_fdContexts (contextResize sz m) = m_fdContexts m @ map new_context [?l..<sz]"
    using assms(2) by (simp add: contextResize_def)
  show w: "waiting (contextResize sz m) = waiting m" by (simp add: waiting_def cs new_context_ok)
  have "registered (m_fdContexts (contextResize sz m)) = registered (m_fdContexts m)"
    by (rule ext) (simp add: registered_def cs nth_append new_context_def EV_NONE_def)
  with assms w show "iom_inv (contextResize sz m)"
    by (auto simp: iom_inv_def cs nth_append new_context_ok) (simp_all add: contextResize_def)
  show "length (m_fdContexts (contextResize sz m)) = sz" using assms(2) by (simp add: cs)
  show "io_tasks (contextResize sz m) = io_tasks m" by (simp add: contextResize_def)
qed

lemma IOManager_init_ok: "iom_inv IOManager_init" and IOManager_init_idle: "waiting IOManager_init = []" "io_tasks IOManager_init = []"
proof -
  let ?m = "\<lparr>m_fdContexts = [], m_pendingEventCount = 0, io_ctl = [], io_tasks = []\<rparr>"
  have cs: "m_fdContexts IOManager_init = map new_context [0..<32]"
    by (simp add: IOManager_init_def contextResize_def del: upt_rec_numeral)
  have rest: "m_pendingEventCount IOManager_init = 0" "io_ctl IOManager_init = []"
    by (simp_all add: IOManager_init_def contextResize_def)
  show w: "waiting IOManager_init = []" by (simp add: waiting_def cs new_context_ok del: upt_rec_numeral)
  show "io_tasks IOManager_init = []" by (simp add: IOManager_init_def contextResize_def)
  have "registered (map new_context [0..<32]) = (\<lambda>_. None)"
    by (rule ext) (simp add: registered_def new_context_def EV_NONE_def del: upt_rec_numeral)
  with w show "iom_inv IOManager_init"
    by (simp add: iom_inv_def cs rest replay_def new_context_ok del: upt_rec_numeral)
qed

lemma arm_event_outcome:
  assumes "iom_inv m" and "fd < length (m_fdContexts m)" and "event \<in> {EV_READ, EV_WRITE}" and "caller_ok me s cb"
  shows "\<exists>r m'. arm_event me fails fd event cb m = Inr (r, m') \<and> iom_inv m' \<and> io_tasks m' = io_tasks m \<and>
    mset (waiting m') = (if r = 0 then {#waiter me s cb#} else {#}) + mset (waiting m)"
proof (cases "fails \<or> fc_events (m_fdContexts m ! fd) AND event \<noteq> 0")
  case True
  then have "arm_event me fails fd event cb m = Inr (-1, m)" by (auto simp: arm_event_def Let_def)
  with assms(1) show ?thesis by simp
next
  case False
  then have f: "\<not> fails" "fc_events (m_fdContexts m ! fd) AND event = 0" by simp_all
  obtain m' where "arm_event me fails fd event cb m = Inr (0, m')" "iom_inv m'"
      "mset (waiting m') = add_mset (waiter me s cb) (mset (waiting m))" "io_tasks m' = io_tasks m"
    by (rule arm_event_done [OF assms f])
  then show ?thesis by simp
qed

lemma grown_size_gt: "2 \<le> fd \<Longrightarrow> fd < grown_size fd"
  by (simp add: grown_size_def)

lemma addEvent_outcome:
  assumes "iom_inv m" and "0 \<le> fd" and "event \<in> {EV_READ, EV_WRITE}" and "caller_ok me s cb"
  shows "\<exists>r m'. addEvent me fails fd event cb m = Inr (r, m') \<and> iom_inv m' \<and> io_tasks m' = io_tasks m \<and>
    mset (waiting m') = (if r = 0 then {#waiter me s cb#} else {#}) + mset (waiting m)"
proof (cases "nat fd < length (m_fdContexts m)")
  case True
  then show ?thesis using arm_event_outcome [OF assms(1) True assms(3,4)] assms(2)
    by (auto simp: addEvent_def)
next
  case False
  let ?n = "grown_size (nat fd)"
  have "32 \<le> length (m_fdContexts m)" using assms(1) by (simp add: iom_inv_def)
  with False grown_size_gt [of "nat fd"] have n: "length (m_fdContexts m) \<le> ?n" "nat fd < ?n" by simp_all
  note g = contextResize_grows [OF assms(1) n(1)]
  have "\<not> length (m_fdContexts (contextResize ?n m)) \<le> nat fd" using n(2) g(3) by simp
  moreover have "\<not> fd < int (length (m_fdContexts m))" "\<not> fd < 0" using False assms(2) by simp_all
  ultimately have "addEvent me fails fd event cb m = arm_event me fails (nat fd) event cb (contextResize ?n m)"
    unfolding addEvent_def addEvent_grow_def Let_def by (simp only: if_False)
  moreover have "nat fd < length (m_fdContexts (contextResize ?n m))" using n(2) g(3) by simp
  note arm_event_outcome [OF g(1) this assms(3,4), of fails, unfolded g(2,4)]
  ultimately show ?thesis by simp
qed

lemma tasks_frame:
  "iom_inv (m\<lparr>io_tasks := ts\<rparr>) = iom_inv m" "waiting (m\<lparr>io_tasks := ts\<rparr>) = waiting m" "io_tasks (m\<lparr>io_tasks := ts\<rparr>) = ts"
  by (simp_all add: iom_inv_def waiting_def)

text \<open>Whom an operation on one event releases: the waiter of the event, unless epoll refuses.\<close>

definition awaited :: "bool \<Rightarrow> int \<Rightarrow> u32 \<Rightarrow> io_manager \<Rightarrow> (nat \<times> task) list" where
  "awaited fails fd event m =
     (if nat fd < length (m_fdContexts m) \<and> fc_events (m_fdContexts m ! nat fd) AND event \<noteq> 0 \<and> \<not> fails
      then (case getEventContext event (m_fdContexts m ! nat fd) of Inl _ \<Rightarrow> [] | Inr ctx \<Rightarrow> tasks_of ctx) else [])"

text \<open>Whom the report of a descriptor's events releases.\<close>

definition released :: "bool \<Rightarrow> nat \<Rightarrow> u32 \<Rightarrow> io_manager \<Rightarrow> (nat \<times> task) list" where
  "released fails fd bits m =
     (let real = real_events bits (fc_events (m_fdContexts m ! fd))
      in (if real AND EV_READ \<noteq> 0 then awaited fails (int fd) EV_READ m else []) @
         (if real AND EV_WRITE \<noteq> 0 then awaited fails (int fd) EV_WRITE m else []))"

lemma trigger_counted_tasks:
  assumes "trigger_counted wanted event (fc, m) = Inr (fc', m')" and "event \<in> {EV_READ, EV_WRITE}"
  shows "io_tasks m' = io_tasks m @ (if wanted then (case getEventContext event fc of Inl _ \<Rightarrow> [] | Inr ctx \<Rightarrow> tasks_of ctx) else []) \<and>
    (\<forall>other. other \<in> {EV_READ, EV_WRITE} - {event} \<longrightarrow> getEventContext other fc' = getEventContext other fc)"
  using assms
  by (auto simp: trigger_counted_def triggerEvent_def tasks_of_def getEventContext_def putEventContext_def Let_def ev_defs
      split: if_splits sum.splits)

lemma idle_event_released:
  assumes "iom_inv m" and "fd < length (m_fdContexts m)" and "fresh_report bits (fc_events (m_fdContexts m ! fd))"
  obtains m' where "idle_event fails fd bits m = Inr m'" and "iom_inv m'"
    and "mset (waiting m) = mset (released fails fd bits m) + mset (waiting m')"
    and "io_tasks m' = io_tasks m @ released fails fd bits m"
proof -
  obtain m' ts where m': "idle_event fails fd bits m = Inr m'" "iom_inv m'"
      "mset (waiting m) = mset ts + mset (waiting m')" "io_tasks m' = io_tasks m @ ts"
    by (rule idle_event_done [OF assms])
  let ?fc = "m_fdContexts m ! fd" and ?r = "real_events bits (fc_events (m_fdContexts m ! fd))"
  have e: "fc_events ?fc \<in> {0, 1, 4, 5}" using iom_inv_context [OF assms(1,2)] by (simp add: context_ok_def)
  have "io_tasks m' = io_tasks m @ released fails fd bits m"
  proof (cases "fc_events ?fc AND ?r = EV_NONE \<or> fails")
    case True
    then have "m' = m" using m'(1) by (auto simp: idle_event_def Let_def split: if_splits)
    moreover have "released fails fd bits m = []"
      using True e real_events_values [of bits "fc_events ?fc"]
      by (auto simp: released_def awaited_def Let_def ev_defs event_bits)
    ultimately show ?thesis by simp
  next
    case False
    then have r: "?r AND NOT (fc_events ?fc) = 0" "fc_events ?fc AND ?r \<noteq> 0"
      using assms(3) by (auto simp: fresh_report_def EV_NONE_def)
    note b = left_bits [OF e real_events_values r]
    obtain op left_events fc1 m1 fc2 m2 where t:
        "trigger_counted (?r AND EV_READ \<noteq> 0) EV_READ (?fc, ctl_done op (fc_fd ?fc) left_events m) = Inr (fc1, m1)"
        "trigger_counted (?r AND EV_WRITE \<noteq> 0) EV_WRITE (fc1, m1) = Inr (fc2, m2)" "m' = put_context fd fc2 m2"
      using m'(1) False by (auto simp: idle_event_def Let_def split: sum.splits prod.splits)
    have "io_tasks m' = io_tasks m @
        (if ?r AND EV_READ \<noteq> 0 then (case getEventContext EV_READ ?fc of Inl _ \<Rightarrow> [] | Inr ctx \<Rightarrow> tasks_of ctx) else []) @
        (if ?r AND EV_WRITE \<noteq> 0 then (case getEventContext EV_WRITE ?fc of Inl _ \<Rightarrow> [] | Inr ctx \<Rightarrow> tasks_of ctx) else [])"
      using trigger_counted_tasks [OF t(1)] trigger_counted_tasks [OF t(2)]
      by (simp add: t(3) put_context_def ctl_done_def ev_defs)
    then show ?thesis using b(1,2) False assms(2) by (simp add: released_def awaited_def)
  qed
  with m' show thesis by (intro that [of m']) auto
qed

text \<open>Who waits for an event of a descriptor.\<close>

definition waiting_on :: "int \<Rightarrow> io_manager \<Rightarrow> (nat \<times> task) list" where
  "waiting_on fd m = (if nat fd < length (m_fdContexts m) then armed_tasks (m_fdContexts m ! nat fd) else [])"

lemma trigger_counted_result:
  "trigger_counted wanted event (fc, m) = Inr (fc', m') \<Longrightarrow>
     fc_events fc' = (if wanted then fc_events fc AND NOT event else fc_events fc) \<and> m_fdContexts m' = m_fdContexts m"
  by (auto simp: trigger_counted_def triggerEvent_def putEventContext_def Let_def split: if_splits sum.splits)

lemma cancelAll_releases:
  assumes "iom_inv m" and "0 \<le> fd"
  obtains ok m' where "cancelAll fails fd m = Inr (ok, m')" and "iom_inv m'"
    and "io_tasks m' = io_tasks m @ (if fails then [] else waiting_on fd m)"
    and "\<forall>fd' \<ge> 0. waiting_on fd' m' = (if fd' = fd \<and> \<not> fails then [] else waiting_on fd' m)"
proof -
  obtain ok m' ts where r: "cancelAll fails fd m = Inr (ok, m')" "iom_inv m'"
    by (rule cancelAll_done [OF assms refl])
  let ?fc = "m_fdContexts m ! nat fd"
  show thesis
  proof (cases "nat fd < length (m_fdContexts m) \<and> fc_events ?fc \<noteq> 0 \<and> \<not> fails")
    case False
    then have same: "m' = m" using r(1) by (auto simp: cancelAll_def find_context_known [OF assms(2)] split: if_splits)
    have "waiting_on fd m = []" if "\<not> fails" using False that by (auto simp: waiting_on_def armed_tasks_def)
    then show thesis using r unfolding same by (intro that [of ok m]) auto
  next
    case True
    have "context_ok ?fc" using iom_inv_context True assms(1) by blast
    then have ev: "fc_events ?fc \<in> {0, 1, 4, 5}" by (simp add: context_ok_def)
    obtain fc1 m1 fc2 m2 where t:
        "trigger_counted (fc_events ?fc AND EV_READ \<noteq> 0) EV_READ (?fc, ctl_done EPOLL_CTL_DEL (nat fd) 0 m) = Inr (fc1, m1)"
        "trigger_counted (fc_events fc1 AND EV_WRITE \<noteq> 0) EV_WRITE (fc1, m1) = Inr (fc2, m2)"
        "fc_events fc2 = 0" "m' = put_context (nat fd) fc2 m2"
      using r(1) True by (auto simp: cancelAll_def find_context_known [OF assms(2)] split: sum.splits prod.splits if_splits)
    note e1 = trigger_counted_result [OF t(1)] and e2 = trigger_counted_result [OF t(2)]
    have still: "(fc_events fc1 AND EV_WRITE \<noteq> 0) = (fc_events ?fc AND EV_WRITE \<noteq> 0)"
      using ev e1 by (auto simp: ev_defs event_bits)
    have "getEventContext EV_WRITE fc1 = Inr (fc_write ?fc)" "getEventContext EV_READ ?fc = Inr (fc_read ?fc)"
      using trigger_counted_tasks [OF t(1)] by (simp_all add: getEventContext_def ev_defs)
    then have tasks: "io_tasks m' = io_tasks m @ waiting_on fd m"
      using trigger_counted_tasks [OF t(1)] trigger_counted_tasks [OF t(2)] True still
      by (simp add: t(4) put_context_def ctl_done_def waiting_on_def armed_tasks_def)
    have cs: "m_fdContexts m' = (m_fdContexts m)[nat fd := fc2]"
      using e1 e2 by (simp add: t(4) put_context_def ctl_done_def)
    have "waiting_on fd' m' = (if fd' = fd \<and> \<not> fails then [] else waiting_on fd' m)" if "0 \<le> fd'" for fd'
      using True assms(2) that t(3) by (auto simp: waiting_on_def cs armed_tasks_def nth_list_update eq_nat_nat_iff)
    then show thesis using r tasks True by (intro that [of ok m']) auto
  qed
qed

lemma release_outcome:
  assumes "iom_inv m" and "0 \<le> fd" and "event \<in> {EV_READ, EV_WRITE}"
  obtains r1 m1 r2 m2 where "delEvent fails fd event m = Inr (r1, m1)" and "iom_inv m1"
    and "io_tasks m1 = io_tasks m" and "mset (waiting m) = mset (awaited fails fd event m) + mset (waiting m1)"
    and "cancelEvent fails fd event m = Inr (r2, m2)" and "iom_inv m2"
    and "io_tasks m2 = io_tasks m @ awaited fails fd event m"
    and "mset (waiting m) = mset (awaited fails fd event m) + mset (waiting m2)"
proof -
  let ?fc = "m_fdContexts m ! nat fd"
  show thesis
  proof (cases "nat fd < length (m_fdContexts m) \<and> fc_events ?fc AND event \<noteq> 0 \<and> \<not> fails")
    case False
    then have "\<exists>r. delEvent fails fd event m = Inr (r, m)" "\<exists>r. cancelEvent fails fd event m = Inr (r, m)"
      unfolding delEvent_def cancelEvent_def find_context_known [OF assms(2)] Let_def by auto
    then obtain r1 r2 where r: "delEvent fails fd event m = Inr (r1, m)" "cancelEvent fails fd event m = Inr (r2, m)"
      by blast
    have w: "awaited fails fd event m = []" unfolding awaited_def by (simp only: False if_False)
    show thesis using assms(1) r by (intro that [of r1 m r2 m]) (simp_all add: w)
  next
    case True
    then have fd: "nat fd < length (m_fdContexts m)" and armed: "fc_events ?fc AND event \<noteq> 0" and ok: "\<not> fails" by simp_all
    obtain new op fc' where n: "new = fc_events ?fc AND NOT event"
        "op = (if new \<noteq> 0 then EPOLL_CTL_MOD else EPOLL_CTL_DEL)"
        "fc' = putEventContext event resetEventContext (?fc\<lparr>fc_events := new\<rparr>)" by blast
    let ?m = "\<lambda>ts. put_context (nat fd) fc' ((ctl_done op (nat fd) (EPOLLET OR new) m)
           \<lparr>m_pendingEventCount := m_pendingEventCount m - 1, io_tasks := ts\<rparr>)"
    obtain ctx s t where d: "getEventContext event ?fc = Inr ctx" "scheduled ctx = Inr [(s, t)]"
        "triggerEvent event ?fc = Inr ([(s, t)], fc')" "iom_inv (?m (io_tasks m))"
        "mset (waiting m) = add_mset (s, t) (mset (waiting (?m (io_tasks m))))"
      by (rule drop_event_done [OF assms(1) fd assms(3) refl armed n refl])
    have w: "awaited fails fd event m = [(s, t)]"
      using fd armed ok d(1,2) by (simp add: awaited_def tasks_of_def)
    have get: "getEventContext event (?fc\<lparr>fc_events := new\<rparr>) = Inr ctx"
      using d(1) by (auto simp: getEventContext_def split: if_splits)
    have del: "delEvent fails fd event m = Inr (True, ?m (io_tasks m))"
      using fd armed ok get n
      by (simp add: delEvent_def find_context_known [OF assms(2)] Let_def put_context_def ctl_done_def)
    have can: "cancelEvent fails fd event m = Inr (True, ?m (io_tasks m @ [(s, t)]))"
      using fd armed ok d(3) n
      by (simp add: cancelEvent_def find_context_known [OF assms(2)] Let_def put_context_def ctl_done_def)
    have same: "iom_inv (?m ts) = iom_inv (?m (io_tasks m))" "waiting (?m ts) = waiting (?m (io_tasks m))" "io_tasks (?m ts) = ts" for ts
    proof -
      have m: "?m ts = (?m (io_tasks m))\<lparr>io_tasks := ts\<rparr>" by (simp add: put_context_def ctl_done_def)
      show "iom_inv (?m ts) = iom_inv (?m (io_tasks m))" "waiting (?m ts) = waiting (?m (io_tasks m))" "io_tasks (?m ts) = ts"
        by (simp_all only: m tasks_frame)
    qed
    have books: "mset (waiting m) = mset [(s, t)] + mset (waiting (?m ts))" for ts
      using d(5) unfolding same(2) [of ts] by simp
    have inv: "iom_inv (?m ts)" for ts using d(4) unfolding same(1) [of ts] .
    show thesis by (rule that; (unfold w)?; (rule del can inv books same(3))?)
  qed
qed

section \<open>Runs\<close>

text \<open>
  The states a program reaches, with everything that was entered (waiters and callbacks of expired
  timers) and everything that was dropped by \<open>delEvent\<close>. Descriptors are not negative, events are
  \<open>READ\<close> or \<open>WRITE\<close>, and the reports of epoll are fresh.
\<close>

definition expired_tasks :: "nat \<Rightarrow> nat option list \<Rightarrow> (nat \<times> task) list" where
  "expired_tasks self cbs = concat (map (\<lambda>cb. case cb of Some c \<Rightarrow> [(self, Task_cb c)] | None \<Rightarrow> []) cbs)"

inductive iom_reach :: "io_manager \<Rightarrow> (nat \<times> task) multiset \<Rightarrow> (nat \<times> task) multiset \<Rightarrow> bool" where
  start: "iom_reach IOManager_init {#} {#}"
| add: "iom_reach m A D \<Longrightarrow> 0 \<le> fd \<Longrightarrow> event \<in> {EV_READ, EV_WRITE} \<Longrightarrow> caller_ok me s cb \<Longrightarrow>
    addEvent me fails fd event cb m = Inr (r, m') \<Longrightarrow>
    iom_reach m' ((if r = 0 then {#waiter me s cb#} else {#}) + A) D"
| del: "iom_reach m A D \<Longrightarrow> 0 \<le> fd \<Longrightarrow> event \<in> {EV_READ, EV_WRITE} \<Longrightarrow>
    delEvent fails fd event m = Inr (ok, m') \<Longrightarrow> iom_reach m' A (mset (awaited fails fd event m) + D)"
| cancel: "iom_reach m A D \<Longrightarrow> 0 \<le> fd \<Longrightarrow> event \<in> {EV_READ, EV_WRITE} \<Longrightarrow>
    cancelEvent fails fd event m = Inr (ok, m') \<Longrightarrow> iom_reach m' A D"
| cancel_all: "iom_reach m A D \<Longrightarrow> 0 \<le> fd \<Longrightarrow> cancelAll fails fd m = Inr (ok, m') \<Longrightarrow> iom_reach m' A D"
| ready: "iom_reach m A D \<Longrightarrow> fd < length (m_fdContexts m) \<Longrightarrow>
    fresh_report bits (fc_events (m_fdContexts m ! fd)) \<Longrightarrow> idle_event fails fd bits m = Inr m' \<Longrightarrow> iom_reach m' A D"
| expire: "iom_reach m A D \<Longrightarrow> iom_reach (schedule_expired self cbs m) (mset (expired_tasks self cbs) + A) D"

lemma iom_reach_books:
  "iom_reach m A D \<Longrightarrow> iom_inv m \<and> A = mset (waiting m) + D + mset (io_tasks m)"
proof (induction rule: iom_reach.induct)
  case start
  then show ?case by (simp add: IOManager_init_ok IOManager_init_idle)
next
  case (add m A D fd event me s cb fails r m')
  then have inv: "iom_inv m" by simp
  from addEvent_outcome [OF this add.hyps(2-4), of fails] add.hyps(5)
  have "iom_inv m'" "io_tasks m' = io_tasks m" "mset (waiting m') = (if r = 0 then {#waiter me s cb#} else {#}) + mset (waiting m)"
    by auto
  with add.IH show ?case by (simp add: add.assoc)
next
  case (del m A D fd event fails ok m')
  then have inv: "iom_inv m" by simp
  obtain m1 r where "delEvent fails fd event m = Inr (r, m1)" "iom_inv m1"
      "io_tasks m1 = io_tasks m" "mset (waiting m) = mset (awaited fails fd event m) + mset (waiting m1)"
    by (rule release_outcome [OF inv del.hyps(2,3), where fails = fails])
  with del.hyps(4) del.IH show ?case by (simp add: ac_simps)
next
  case (cancel m A D fd event fails ok m')
  then have inv: "iom_inv m" by simp
  obtain m1 r where "cancelEvent fails fd event m = Inr (r, m1)" "iom_inv m1"
      "io_tasks m1 = io_tasks m @ awaited fails fd event m" "mset (waiting m) = mset (awaited fails fd event m) + mset (waiting m1)"
    by (rule release_outcome [OF inv cancel.hyps(2,3), where fails = fails])
  with cancel.hyps(4) cancel.IH show ?case by (simp add: ac_simps)
next
  case (cancel_all m A D fd fails ok m')
  then have inv: "iom_inv m" by simp
  obtain r m1 ts where "cancelAll fails fd m = Inr (r, m1)" "iom_inv m1" "mset (waiting m) = mset ts + mset (waiting m1)"
      "io_tasks m1 = io_tasks m @ ts"
    by (rule cancelAll_done [OF inv cancel_all.hyps(2) refl])
  with cancel_all.hyps(3) cancel_all.IH show ?case by (simp add: ac_simps)
next
  case (ready m A D fd bits fails m')
  then have inv: "iom_inv m" by simp
  obtain m1 ts where "idle_event fails fd bits m = Inr m1" "iom_inv m1" "mset (waiting m) = mset ts + mset (waiting m1)"
      "io_tasks m1 = io_tasks m @ ts"
    by (rule idle_event_done [OF inv ready.hyps(2,3), where fails = fails])
  with ready.hyps(4) ready.IH show ?case by (simp add: ac_simps)
next
  case (expire m A D self cbs)
  have "schedule_expired self cbs m = m\<lparr>io_tasks := io_tasks m @ expired_tasks self cbs\<rparr>"
    by (simp add: schedule_expired_def expired_tasks_def)
  with expire.IH show ?case by (simp add: tasks_frame ac_simps)
qed

text \<open>
  C19: No wake-up is lost and none comes twice. Whatever the order of adding, deleting, cancelling,
  of reported events and of failing calls of epoll, every waiter that was entered and every
  callback of an expired timer is at any time in exactly one place: still waiting, dropped by
  \<open>delEvent\<close>, or handed to its scheduler once; and the counter of pending events is the number of those
  that wait.
\<close>

theorem waiters_conserved:
  assumes "iom_reach m A D"
  shows "A = mset (waiting m) + D + mset (io_tasks m) \<and> m_pendingEventCount m = of_nat (length (waiting m))"
  using iom_reach_books [OF assms] by (simp add: iom_inv_def)

text \<open>
  C20: In every state that is reached, a descriptor's event bits say which of its two contexts are in
  use; every recorded call of \<open>epoll_ctl\<close> was one epoll accepts (nothing added twice, nothing changed
  or removed that is not there), and what epoll watches is exactly the armed events, edge triggered.
\<close>

theorem epoll_agrees:
  assumes "iom_reach m A D"
  shows "(\<forall>fd < length (m_fdContexts m). let fc = m_fdContexts m ! fd in
        fc_events fc \<in> {0, EV_READ, EV_WRITE, EV_READ OR EV_WRITE} \<and>
        (fc_events fc AND EV_READ \<noteq> 0 \<longleftrightarrow> fc_read fc \<noteq> resetEventContext) \<and>
        (fc_events fc AND EV_WRITE \<noteq> 0 \<longleftrightarrow> fc_write fc \<noteq> resetEventContext)) \<and>
    replay (io_ctl m) = Some (registered (m_fdContexts m))"
proof -
  have reset: "scheduled resetEventContext = Inl Null_dereference"
    by (simp add: scheduled_def resetEventContext_def)
  then have slot: "slot_ok armed ctx \<Longrightarrow> armed \<longleftrightarrow> ctx \<noteq> resetEventContext" for armed ctx
    by (auto simp: slot_ok_def split: if_splits)
  have inv: "iom_inv m" using iom_reach_books [OF assms] by simp
  have "let fc = m_fdContexts m ! fd in fc_events fc \<in> {0, EV_READ, EV_WRITE, EV_READ OR EV_WRITE} \<and>
        (fc_events fc AND EV_READ \<noteq> 0 \<longleftrightarrow> fc_read fc \<noteq> resetEventContext) \<and>
        (fc_events fc AND EV_WRITE \<noteq> 0 \<longleftrightarrow> fc_write fc \<noteq> resetEventContext)"
    if "fd < length (m_fdContexts m)" for fd
  proof -
    have ok: "context_ok (m_fdContexts m ! fd)" using inv that by (simp add: iom_inv_def)
    then have "slot_ok (fc_events (m_fdContexts m ! fd) AND EV_READ \<noteq> 0) (fc_read (m_fdContexts m ! fd))"
      "slot_ok (fc_events (m_fdContexts m ! fd) AND EV_WRITE \<noteq> 0) (fc_write (m_fdContexts m ! fd))"
      by (simp_all add: context_ok_def)
    note this [THEN slot]
    with ok show ?thesis unfolding context_ok_def Let_def by (simp add: ev_defs)
  qed
  with inv show ?thesis by (simp add: iom_inv_def)
qed

text \<open>
  C21: In every state that is reached, no operation on a valid descriptor and event fails an
  assertion or uses a null scheduler, except one: when \<open>idle\<close> handles a report of two events of which
  one was disarmed after epoll reported them, the assertion of \<open>triggerEvent\<close> fails and the process
  ends.
\<close>

theorem stale_report_aborts:
  assumes "iom_reach m A D" and "0 \<le> fd" and "event \<in> {EV_READ, EV_WRITE}" and "caller_ok me s cb"
  shows "(\<exists>r m'. addEvent me fails fd event cb m = Inr (r, m')) \<and> (\<exists>r m'. delEvent fails fd event m = Inr (r, m')) \<and>
    (\<exists>r m'. cancelEvent fails fd event m = Inr (r, m')) \<and> (\<exists>r m'. cancelAll fails fd m = Inr (r, m')) \<and>
    (nat fd < length (m_fdContexts m) \<longrightarrow>
      (if fresh_report bits (fc_events (m_fdContexts m ! nat fd))
       then \<exists>m'. idle_event fails (nat fd) bits m = Inr m'
       else idle_event False (nat fd) bits m = Inl Assertion_failed))"
proof -
  have inv: "iom_inv m" using iom_reach_books [OF assms(1)] by simp
  obtain r1 m1 r2 m2 where "delEvent fails fd event m = Inr (r1, m1)" "cancelEvent fails fd event m = Inr (r2, m2)"
    by (rule release_outcome [OF inv assms(2,3), where fails = fails])
  moreover obtain r m' where "cancelAll fails fd m = Inr (r, m')"
    by (rule cancelAll_done [OF inv assms(2) refl])
  moreover have "\<exists>m'. idle_event fails (nat fd) bits m = Inr m'"
    if fd: "nat fd < length (m_fdContexts m)" and f: "fresh_report bits (fc_events (m_fdContexts m ! nat fd))"
  proof -
    obtain m' where "idle_event fails (nat fd) bits m = Inr m'"
      by (rule idle_event_done [OF inv fd f, where fails = fails])
    then show ?thesis by blast
  qed
  ultimately show ?thesis
    using addEvent_outcome [OF inv assms(2-4), of fails] idle_event_stale [OF inv, of "nat fd" bits] by auto
qed

section \<open>Growing the table\<close>

lemma arm_event_frame:
  assumes "arm_event me fails fd event cb m = Inr (r, m')"
  shows "r = -1 \<and> m' = m \<or> r = 0 \<and> io_tasks m' = io_tasks m \<and> m_pendingEventCount m' = m_pendingEventCount m + 1 \<and>
    (\<exists>fc. m_fdContexts m' = (m_fdContexts m)[fd := fc])"
  using assms by (auto simp: arm_event_def Let_def put_context_def ctl_done_def split: if_splits sum.splits)

lemma arm_event_shift:
  assumes "arm_event me fails fd event cb m = Inr (r, m')"
  shows "arm_event me fails fd event cb (m\<lparr>m_pendingEventCount := m_pendingEventCount m + k, io_ctl := cs\<rparr>) =
    Inr (r, m'\<lparr>m_pendingEventCount := m_pendingEventCount m' + k, io_ctl := cs @ drop (length (io_ctl m)) (io_ctl m')\<rparr>)"
  using assms by (auto simp: ac_simps arm_event_def Let_def put_context_def ctl_done_def split: if_splits sum.splits)

text \<open>
  The table is grown without asking again, under the write lock, whether it still is too small.
  When two threads have both found it too small, for descriptors \<open>a\<close> and \<open>b\<close> with \<open>b\<close> at least 1.5
  times \<open>a\<close>, and \<open>b\<close>'s thread comes first, then \<open>a\<close>'s thread makes the table shorter again: the context of \<open>b\<close>
  is gone with its waiter, which is never woken, but stays counted, so that the manager never stops.
\<close>

theorem late_resize_loses_waiter:
  assumes "iom_reach m A D" and "int (length (m_fdContexts m)) \<le> a" and "grown_size (nat a) \<le> nat b"
    and "event_a \<in> {EV_READ, EV_WRITE}" and "event_b \<in> {EV_READ, EV_WRITE}"
    and "caller_ok me_a s_a cb_a" and "caller_ok me_b s_b cb_b"
    and "addEvent_grow me_b False b event_b cb_b m = Inr (r_b, m1)"
    and "addEvent_grow me_a fails a event_a cb_a m1 = Inr (r_a, m2)"
  shows "r_b = 0 \<and> waiter me_b s_b cb_b \<in># mset (waiting m1) \<and> find_context b m2 = Inr None \<and>
    mset (waiting m2) = (if r_a = 0 then {#waiter me_a s_a cb_a#} else {#}) + mset (waiting m) \<and>
    io_tasks m2 = io_tasks m \<and> m_pendingEventCount m2 = of_nat (length (waiting m2)) + 1 \<and>
    (length (waiting m2) < 2 ^ 64 - 1 \<longrightarrow> \<not> fst (iom_stopping now id sched_stopping (m2, tm)))"
proof -
  let ?l = "length (m_fdContexts m)" and ?ga = "grown_size (nat a)" and ?gb = "grown_size (nat b)"
  let ?mb = "contextResize ?gb m" and ?ma = "contextResize ?ga m"
  have inv: "iom_inv m" using iom_reach_books [OF assms(1)] by simp
  then have l: "32 \<le> ?l" by (simp add: iom_inv_def)
  then have sizes: "?l \<le> nat a" "nat a < ?ga" "?ga \<le> nat b" "nat b < ?gb"
    using assms(2,3) grown_size_gt [of "nat a"] grown_size_gt [of "nat b"] by linarith+
  note gb = contextResize_grows [OF inv, of ?gb] and ga = contextResize_grows [OF inv, of ?ga]
  have lb: "nat b < length (m_fdContexts ?mb)" and la: "nat a < length (m_fdContexts ?ma)"
    using gb(3) ga(3) sizes by simp_all
  have b: "arm_event me_b False (nat b) event_b cb_b ?mb = Inr (r_b, m1)"
    using assms(8) lb by (simp add: addEvent_grow_def)
  have new: "fc_events (m_fdContexts ?mb ! nat b) AND event_b = 0"
  proof -
    have "nat b - ?l < ?gb - ?l" using sizes by linarith
    then have "nat b - ?l < length [?l..<?gb]" by simp
    then show ?thesis
      using sizes by (simp add: contextResize_def nth_append new_context_def EV_NONE_def)
  qed
  obtain mb' where mb': "arm_event me_b False (nat b) event_b cb_b ?mb = Inr (0, mb')"
      "mset (waiting mb') = add_mset (waiter me_b s_b cb_b) (mset (waiting ?mb))"
    using arm_event_done [OF gb(1) lb assms(5,7) _ new] sizes by auto
  with b have rb: "r_b = 0" "waiter me_b s_b cb_b \<in># mset (waiting m1)" by auto
  obtain fc where m1: "m_fdContexts m1 = (m_fdContexts ?mb)[nat b := fc]" "io_tasks m1 = io_tasks m"
      "m_pendingEventCount m1 = m_pendingEventCount m + 1"
    using arm_event_frame [OF b] rb(1) gb(4) sizes by (auto simp: contextResize_def)
  have "contextResize ?ga m1 = ?ma\<lparr>m_pendingEventCount := m_pendingEventCount ?ma + 1, io_ctl := io_ctl m1\<rparr>"
    using sizes m1 by (simp add: contextResize_def take_map take_upt min_def)
  with assms(9) la have a: "arm_event me_a fails (nat a) event_a cb_a
      (?ma\<lparr>m_pendingEventCount := m_pendingEventCount ?ma + 1, io_ctl := io_ctl m1\<rparr>) = Inr (r_a, m2)"
    by (simp add: addEvent_grow_def)
  obtain r m3 where m3: "arm_event me_a fails (nat a) event_a cb_a ?ma = Inr (r, m3)" "iom_inv m3" "io_tasks m3 = io_tasks ?ma"
      "mset (waiting m3) = (if r = 0 then {#waiter me_a s_a cb_a#} else {#}) + mset (waiting ?ma)"
    using arm_event_outcome [OF ga(1) la assms(4,6), of fails] sizes by auto
  from arm_event_shift [OF m3(1), where k = 1 and cs = "io_ctl m1"] a obtain cs where m2: "r_a = r"
      "m2 = m3\<lparr>m_pendingEventCount := m_pendingEventCount m3 + 1, io_ctl := cs\<rparr>" by auto
  have w2: "waiting m2 = waiting m3" by (simp add: m2(2) waiting_def)
  have books: "mset (waiting m2) = (if r_a = 0 then {#waiter me_a s_a cb_a#} else {#}) + mset (waiting m)"
    using m3(4) ga(2) sizes w2 m2(1) by simp
  have tasks: "io_tasks m2 = io_tasks m" using m3(3) ga(4) sizes by (simp add: m2(2))
  have p: "m_pendingEventCount m2 = of_nat (length (waiting m2)) + 1"
    using m3(2) w2 by (simp add: m2(2) iom_inv_def)
  have "length (m_fdContexts m3) = ?ga"
    using arm_event_frame [OF m3(1)] ga(3) sizes by auto
  then have f: "find_context b m2 = Inr None"
    using sizes assms(2) by (simp add: m2(2) find_context_def)
  have "m_pendingEventCount m2 \<noteq> 0" if "length (waiting m2) < 2 ^ 64 - 1"
  proof
    assume "m_pendingEventCount m2 = 0"
    then have "(of_nat (Suc (length (waiting m2))) :: u64) = 0" unfolding p by (simp add: add.commute)
    then have "2 ^ 64 dvd Suc (length (waiting m2))" unfolding word_of_nat_eq_0_iff by simp
    with that show False by (simp add: nat_dvd_not_less)
  qed
  with rb f books tasks p show ?thesis by (auto simp: iom_stopping_def split: prod.split)
qed

lemma arm_event_awaited:
  assumes "arm_event me fails fd event cb m = Inr (0, m')" and "caller_ok me s cb" and "fd < length (m_fdContexts m)"
    and "event \<in> {EV_READ, EV_WRITE}"
  shows "awaited False (int fd) event m' = [waiter me s cb]"
proof -
  have "(x OR event) AND event \<noteq> 0" for x :: u32
    using assms(4) by (auto simp: word_ao_absorbs ev_defs)
  with assms show ?thesis
    by (auto simp: arm_event_def Let_def awaited_def put_context_def ctl_done_def putEventContext_def getEventContext_def
        tasks_of_def scheduled_def caller_ok_def waiter_def ev_defs split: if_splits sum.splits option.splits)
qed

lemma addEvent_awaited:
  assumes "addEvent me fails fd event cb m = Inr (0, m')" and "caller_ok me s cb" and "event \<in> {EV_READ, EV_WRITE}"
  shows "awaited False fd event m' = [waiter me s cb]"
proof -
  have fd: "0 \<le> fd" using assms(1) by (auto simp: addEvent_def split: if_splits)
  obtain m0 where "arm_event me fails (nat fd) event cb m0 = Inr (0, m')" "nat fd < length (m_fdContexts m0)"
    using assms(1) fd by (auto simp: addEvent_def addEvent_grow_def Let_def split: if_splits)
  with arm_event_awaited [of me fails "nat fd" event cb m0 m' s] assms(2,3) fd show ?thesis by simp
qed

section \<open>Examples\<close>

lemma arm_event_new:
  assumes "m_fdContexts m ! fd = new_context fd" and "event \<in> {EV_READ, EV_WRITE}" and "caller_ok me s cb"
  obtains fc m' where "arm_event me False fd event cb m = Inr (0, m')" and "m_fdContexts m' = (m_fdContexts m)[fd := fc]"
    and "fc_events fc = event"
  using assms by (auto simp: arm_event_def Let_def new_context_def ev_defs getEventContext_def caller_ok_def
      put_context_def ctl_done_def putEventContext_def)

definition sample_caller :: "nat \<Rightarrow> caller" where
  "sample_caller f = \<lparr>this_scheduler = Some 7, this_fiber = f, fiber_running = True\<rparr>"

lemma sample_caller_ok: "caller_ok (sample_caller f) 7 cb"
  by (simp add: caller_ok_def sample_caller_def)

lemma init_contexts: "m_fdContexts (contextResize n IOManager_init) = map new_context [0..<n]" if "32 \<le> n"
  using that upt_add_eq_append [of 0 32 "n - 32"]
  by (simp add: IOManager_init_def contextResize_def min_def flip: map_append del: upt_rec_numeral)

lemma sample_iom:
  obtains m where "addEvent (sample_caller 1) False 3 EV_READ None IOManager_init = Inr (0, m)"
    and "iom_reach m {#(7, Task_fiber 1)#} {#}" and "3 < length (m_fdContexts m)" and "fc_events (m_fdContexts m ! 3) = EV_READ"
proof -
  have cs: "m_fdContexts IOManager_init = map new_context [0..<32]"
    by (simp add: IOManager_init_def contextResize_def del: upt_rec_numeral)
  obtain fc m where m: "arm_event (sample_caller 1) False 3 EV_READ None IOManager_init = Inr (0, m)"
      "m_fdContexts m = (m_fdContexts IOManager_init)[3 := fc]" "fc_events fc = EV_READ"
    by (rule arm_event_new [of IOManager_init 3 EV_READ, OF _ _ sample_caller_ok])
      (simp_all add: cs del: upt_rec_numeral)
  have a: "addEvent (sample_caller 1) False 3 EV_READ None IOManager_init = Inr (0, m)"
    using m(1) by (simp add: addEvent_def cs del: upt_rec_numeral)
  have "iom_reach m ((if (0 :: int) = 0 then {#waiter (sample_caller 1) 7 None#} else {#}) + {#}) {#}"
    by (rule iom_reach.add [OF iom_reach.start _ _ sample_caller_ok a]) simp_all
  then have "iom_reach m {#(7, Task_fiber 1)#} {#}" by (simp add: waiter_def sample_caller_def)
  with a m(2,3) that show thesis by (simp add: cs del: upt_rec_numeral)
qed

theorem waiters_conserved_witness:
  "\<exists>m. addEvent (sample_caller 1) False 3 EV_READ None IOManager_init = Inr (0, m) \<and>
     {#(7, Task_fiber 1)#} = mset (waiting m) + {#} + mset (io_tasks m)"
proof -
  obtain m where "addEvent (sample_caller 1) False 3 EV_READ None IOManager_init = Inr (0, m)"
      "iom_reach m {#(7, Task_fiber 1)#} {#}" by (rule sample_iom)
  with waiters_conserved [of m "{#(7, Task_fiber 1)#}" "{#}"] show ?thesis by blast
qed

theorem epoll_agrees_witness:
  "\<exists>m. addEvent (sample_caller 1) False 3 EV_READ None IOManager_init = Inr (0, m) \<and>
     replay (io_ctl m) = Some (registered (m_fdContexts m))"
proof -
  obtain m where "addEvent (sample_caller 1) False 3 EV_READ None IOManager_init = Inr (0, m)"
      "iom_reach m {#(7, Task_fiber 1)#} {#}" by (rule sample_iom)
  with epoll_agrees [of m "{#(7, Task_fiber 1)#}" "{#}"] show ?thesis by blast
qed

theorem stale_report_aborts_witness:
  "\<exists>m. addEvent (sample_caller 1) False 3 EV_READ None IOManager_init = Inr (0, m) \<and>
     idle_event False 3 (EPOLLIN OR EPOLLOUT) m = Inl Assertion_failed"
proof -
  obtain m where m: "addEvent (sample_caller 1) False 3 EV_READ None IOManager_init = Inr (0, m)"
      "iom_reach m {#(7, Task_fiber 1)#} {#}" "3 < length (m_fdContexts m)" "fc_events (m_fdContexts m ! 3) = EV_READ"
    by (rule sample_iom)
  have stale: "\<not> fresh_report (EPOLLIN OR EPOLLOUT) (fc_events (m_fdContexts m ! nat 3))"
    using m(4) by (simp add: fresh_report_def real_events_def Let_def epoll_defs ev_defs)
  have "nat 3 < length (m_fdContexts m)" using m(3) by simp
  with stale_report_aborts [OF m(2), of 3 EV_READ "sample_caller 1" 7 None False "EPOLLIN OR EPOLLOUT"] stale m(1)
    sample_caller_ok show ?thesis by auto
qed

theorem late_resize_loses_waiter_witness:
  "\<exists>m1 m2 r. addEvent_grow (sample_caller 1) False 100 EV_READ None IOManager_init = Inr (0, m1) \<and>
     addEvent_grow (sample_caller 2) False 40 EV_READ None m1 = Inr (r, m2) \<and> find_context 100 m2 = Inr None \<and>
     m_pendingEventCount m2 = of_nat (length (waiting m2)) + 1"
proof -
  have cs: "m_fdContexts (contextResize 150 IOManager_init) = map new_context [0..<150]"
    by (rule init_contexts) simp
  have l: "length (m_fdContexts IOManager_init) = 32"
    by (simp add: IOManager_init_def contextResize_def del: upt_rec_numeral)
  have g: "grown_size 100 = 150" "grown_size 40 = 60" by (simp_all add: grown_size_def)
  obtain fc m1 where m1: "arm_event (sample_caller 1) False 100 EV_READ None (contextResize 150 IOManager_init) = Inr (0, m1)"
      "m_fdContexts m1 = (m_fdContexts (contextResize 150 IOManager_init))[100 := fc]"
    by (rule arm_event_new [of "contextResize 150 IOManager_init" 100 EV_READ, OF _ _ sample_caller_ok])
      (simp_all add: cs del: upt_rec_numeral)
  have a1: "addEvent_grow (sample_caller 1) False 100 EV_READ None IOManager_init = Inr (0, m1)"
    using m1(1) by (simp add: addEvent_grow_def g cs del: upt_rec_numeral)
  have cs2: "m_fdContexts (contextResize 60 m1) = map new_context [0..<60]"
    by (simp add: contextResize_def [of 60 m1] m1(2) [unfolded cs] take_map take_upt del: upt_rec_numeral)
  obtain fc2 m2 where "arm_event (sample_caller 2) False 40 EV_READ None (contextResize 60 m1) = Inr (0, m2)"
    by (rule arm_event_new [of "contextResize 60 m1" 40 EV_READ, OF _ _ sample_caller_ok])
      (simp_all add: cs2 del: upt_rec_numeral)
  then have a2: "addEvent_grow (sample_caller 2) False 40 EV_READ None m1 = Inr (0, m2)"
    by (simp add: addEvent_grow_def g cs2 del: upt_rec_numeral)
  have "find_context 100 m2 = Inr None \<and> m_pendingEventCount m2 = of_nat (length (waiting m2)) + 1"
    using late_resize_loses_waiter [OF iom_reach.start _ _ _ _ sample_caller_ok sample_caller_ok a1 a2, of 0 True "TimerManager_init 0"]
    by (simp add: l g)
  with a1 a2 show ?thesis by blast
qed

end
