(* ===== verification/Fd_Manager.thy ===== *)
theory Fd_Manager
  imports Io_Manager
begin

text \<open>
  \<open>src/CoroutineLibrary/fd_manager.cpp\<close>: what the hooks remember of a descriptor, and the table
  of it. The answers of \<open>fstat\<close> and of \<open>fcntl_f(fd, F_GETFL, 0)\<close> are arguments; the system calls that
  change something are returned as a list.
\<close>

section \<open>What is remembered of a descriptor\<close>

datatype syscall =
    Sys_setfl int u32
  | Sys_fcntl int int "int option"
  | Sys_fionbio int bool
  | Sys_setsockopt int int int
  | Sys_close int

definition O_NONBLOCK :: u32 where "O_NONBLOCK = 0x800"
definition SO_RCVTIMEO :: int where "SO_RCVTIMEO = 20"
definition SO_SNDTIMEO :: int where "SO_SNDTIMEO = 21"

record fd_ctx =
  fx_isInit :: bool
  fx_isSocket :: bool
  fx_sysNonblock :: bool
  fx_userNonblock :: bool
  fx_isClosed :: bool
  fx_fd :: int
  fx_recvTimeout :: u64
  fx_sendTimeout :: u64

text \<open>\<open>stat\<close>: \<open>None\<close> when \<open>fstat\<close> fails, else whether the descriptor is a socket.\<close>

definition FdCtx_init :: "bool option \<Rightarrow> u32 \<Rightarrow> fd_ctx \<Rightarrow> bool \<times> fd_ctx \<times> syscall list" where
  "FdCtx_init stat flags c =
     (if fx_isInit c then (True, c, [])
      else
       (let c = (case stat of
                   None \<Rightarrow> c\<lparr>fx_isInit := False, fx_isSocket := False\<rparr>
                 | Some sock \<Rightarrow> c\<lparr>fx_isInit := True, fx_isSocket := sock\<rparr>)
        in if fx_isSocket c
           then (fx_isInit c, c\<lparr>fx_sysNonblock := True\<rparr>,
                 if flags AND O_NONBLOCK = 0 then [Sys_setfl (fx_fd c) (flags OR O_NONBLOCK)] else [])
           else (fx_isInit c, c\<lparr>fx_sysNonblock := False\<rparr>, [])))"

definition FdCtx_new :: "bool option \<Rightarrow> u32 \<Rightarrow> int \<Rightarrow> fd_ctx \<times> syscall list" where
  "FdCtx_new stat flags fd =
     snd (FdCtx_init stat flags
       \<lparr>fx_isInit = False, fx_isSocket = False, fx_sysNonblock = False, fx_userNonblock = False,
        fx_isClosed = False, fx_fd = fd, fx_recvTimeout = not 0, fx_sendTimeout = not 0\<rparr>)"

definition FdCtx_setTimeout :: "int \<Rightarrow> u64 \<Rightarrow> fd_ctx \<Rightarrow> fd_ctx" where
  "FdCtx_setTimeout type v c =
     (if type = SO_RCVTIMEO then c\<lparr>fx_recvTimeout := v\<rparr> else c\<lparr>fx_sendTimeout := v\<rparr>)"

definition FdCtx_getTimeout :: "int \<Rightarrow> fd_ctx \<Rightarrow> u64" where
  "FdCtx_getTimeout type c = (if type = SO_RCVTIMEO then fx_recvTimeout c else fx_sendTimeout c)"

section \<open>The table\<close>

text \<open>\<open>fd\<close> is converted to \<open>size_t\<close> in the comparison: a negative one is behind every end.\<close>

definition behind_end :: "int \<Rightarrow> fd_ctx option list \<Rightarrow> bool" where
  "behind_end fd datas \<longleftrightarrow> fd < 0 \<or> length datas \<le> nat fd"

definition FdManager_init :: "fd_ctx option list" where
  "FdManager_init = replicate 64 None"

definition FdManager_get ::
  "bool option \<Rightarrow> u32 \<Rightarrow> int \<Rightarrow> bool \<Rightarrow> fd_ctx option list \<Rightarrow>
     fault + fd_ctx option \<times> fd_ctx option list \<times> syscall list" where
  "FdManager_get stat flags fd auto_create datas =
     (if fd = -1 then Inr (None, datas, [])
      else if behind_end fd datas \<and> \<not> auto_create then Inr (None, datas, [])
      else if \<not> behind_end fd datas \<and> (datas ! nat fd \<noteq> None \<or> \<not> auto_create)
           then Inr (datas ! nat fd, datas, [])
      else if fd < 0 then Inl Out_of_bounds
      else
       (let datas = (if behind_end fd datas
                     then datas @ replicate (grown_size (nat fd) - length datas) None else datas)
        in if length datas \<le> nat fd then Inl Out_of_bounds
           else case FdCtx_new stat flags fd of
                  (c, calls) \<Rightarrow> Inr (Some c, datas[nat fd := Some c], calls)))"

definition FdManager_del :: "int \<Rightarrow> fd_ctx option list \<Rightarrow> fd_ctx option list" where
  "FdManager_del fd datas = (if behind_end fd datas then datas else datas[nat fd := None])"

section \<open>The interface the hooks use\<close>

text \<open>
  A table of entries by descriptor: what is found after an entry was changed through the pointer
  that was found, after an entry was made, and after one was deleted. A property of all entries is
  kept when the new entry has it.
\<close>

locale descriptor_table =
  fixes lookup :: "int \<Rightarrow> 't \<Rightarrow> 'c option"
    and store :: "int \<Rightarrow> 'c \<Rightarrow> 't \<Rightarrow> 't"
    and remove :: "int \<Rightarrow> 't \<Rightarrow> 't"
  assumes lookup_store: "lookup fd t \<noteq> None \<Longrightarrow> lookup fd' (store fd c t) = (if fd' = fd then Some c else lookup fd' t)"
    and lookup_remove: "lookup fd' (remove fd t) = (if fd' = fd then None else lookup fd' t)"
begin

definition all_entries :: "(int \<Rightarrow> 'c \<Rightarrow> bool) \<Rightarrow> 't \<Rightarrow> bool" where
  "all_entries P t \<longleftrightarrow> (\<forall>fd c. lookup fd t = Some c \<longrightarrow> P fd c)"

lemma all_entriesD: "all_entries P t \<Longrightarrow> lookup fd t = Some c \<Longrightarrow> P fd c"
  by (simp add: all_entries_def)

lemma all_store: "all_entries P t \<Longrightarrow> lookup fd t \<noteq> None \<Longrightarrow> P fd c \<Longrightarrow> all_entries P (store fd c t)"
  by (simp add: all_entries_def lookup_store)

lemma all_remove:
  "(\<And>fd' c. lookup fd' t = Some c \<Longrightarrow> fd' \<noteq> fd \<Longrightarrow> P' fd' c) \<Longrightarrow> all_entries P' (remove fd t)"
  by (simp add: all_entries_def lookup_remove)

lemma store_store: "lookup fd t \<noteq> None \<Longrightarrow> lookup fd' (store fd c' (store fd c t)) = lookup fd' (store fd c' t)"
  by (simp add: lookup_store)

end

definition fd_lookup :: "int \<Rightarrow> fd_ctx option list \<Rightarrow> fd_ctx option" where
  "fd_lookup fd datas = (if behind_end fd datas then None else datas ! nat fd)"

text \<open>An assignment through the pointer that \<open>get\<close> returned.\<close>

definition fd_store :: "int \<Rightarrow> fd_ctx \<Rightarrow> fd_ctx option list \<Rightarrow> fd_ctx option list" where
  "fd_store fd c datas = datas[nat fd := Some c]"

interpretation fdt: descriptor_table fd_lookup fd_store FdManager_del
  by unfold_locales
    (auto simp: fd_lookup_def fd_store_def FdManager_del_def behind_end_def nth_list_update nat_eq_iff)

lemma FdManager_get_lookup: "FdManager_get stat flags fd False datas = Inr (fd_lookup fd datas, datas, [])"
  by (auto simp: FdManager_get_def fd_lookup_def behind_end_def)

lemma nth_pad: "i < length xs + k \<Longrightarrow> (xs @ replicate k x) ! i = (if i < length xs then xs ! i else x)"
  by (auto simp: nth_append)

lemma FdManager_get_create:
  assumes "0 \<le> fd" and "64 \<le> length datas"
  obtains c calls datas' where "FdManager_get stat flags fd True datas = Inr (Some c, datas', calls)"
    and "64 \<le> length datas'" and "\<And>fd'. fd_lookup fd' datas' = (if fd' = fd then Some c else fd_lookup fd' datas)"
    and "fd_lookup fd datas = Some c \<and> calls = [] \<or> fd_lookup fd datas = None \<and> (c, calls) = FdCtx_new stat flags fd"
proof (cases "fd_lookup fd datas")
  case (Some c)
  then have "FdManager_get stat flags fd True datas = Inr (Some c, datas, [])"
    using assms(1) by (auto simp: FdManager_get_def fd_lookup_def split: if_splits)
  with that [of c datas "[]"] Some assms(2) show thesis by auto
next
  case None
  let ?d = "if behind_end fd datas then datas @ replicate (grown_size (nat fd) - length datas) None else datas"
  obtain c calls where new: "FdCtx_new stat flags fd = (c, calls)" by fastforce
  have l: "nat fd < length ?d" "64 \<le> length ?d"
    using assms grown_size_gt [of "nat fd"] by (auto simp: behind_end_def)
  have get: "FdManager_get stat flags fd True datas = Inr (Some c, ?d[nat fd := Some c], calls)"
    using assms None l new by (auto simp: FdManager_get_def fd_lookup_def Let_def split: if_splits)
  have look: "fd_lookup fd' (?d[nat fd := Some c]) = (if fd' = fd then Some c else fd_lookup fd' datas)" for fd'
    using l assms(1) by (auto simp: fd_lookup_def behind_end_def nth_pad nth_list_update nat_eq_iff)
  show thesis by (rule that [OF get _ look]) (use l None new in auto)
qed

end
