(* ===== verification/Hooks.thy ===== *)
theory Hooks
  imports Fd_Manager "HOL-Library.Signed_Division"
begin

unbundle bit_operations_syntax

text \<open>
  \<open>src/CoroutineLibrary/hook.cpp\<close>: the system calls that are replaced. The original ones are
  arguments (their results) or entries of the returned list of system calls. \<open>enable\<close> is the
  thread's \<open>t_hook_enable\<close>.
\<close>

section \<open>Flags and options of descriptors\<close>

definition SOL_SOCKET :: int where "SOL_SOCKET = 1"
definition ETIMEDOUT :: int where "ETIMEDOUT = 110"
definition EBADF :: int where "EBADF = 9"

text \<open>The commands of \<open>fcntl\<close>, by the kind of argument the code takes for them.\<close>

datatype fcntl_cmd =
    F_SETFL u32
  | F_GETFL
  | Cmd_int int int
  | Cmd_none int
  | Cmd_other int int

text \<open>\<open>real\<close> is what \<open>fcntl_f(fd, F_GETFL)\<close> answers. The last command is one the switch does not know.\<close>

definition hook_fcntl ::
  "u32 \<Rightarrow> int \<Rightarrow> fcntl_cmd \<Rightarrow> fd_ctx option list \<Rightarrow> u32 option \<times> fd_ctx option list \<times> syscall list" where
  "hook_fcntl real fd cmd fds =
     (case cmd of
        F_SETFL arg \<Rightarrow>
          (case fd_lookup fd fds of
             None \<Rightarrow> (None, fds, [Sys_setfl fd arg])
           | Some c \<Rightarrow>
               if fx_isClosed c \<or> \<not> fx_isSocket c then (None, fds, [Sys_setfl fd arg])
               else
                 (None, fd_store fd (c\<lparr>fx_userNonblock := (arg AND O_NONBLOCK \<noteq> 0)\<rparr>) fds,
                  [Sys_setfl fd (if fx_sysNonblock c then arg OR O_NONBLOCK else arg AND NOT O_NONBLOCK)]))
      | F_GETFL \<Rightarrow>
          (case fd_lookup fd fds of
             None \<Rightarrow> (Some real, fds, [])
           | Some c \<Rightarrow>
               if fx_isClosed c \<or> \<not> fx_isSocket c then (Some real, fds, [])
               else (Some (if fx_userNonblock c then real OR O_NONBLOCK else real AND NOT O_NONBLOCK), fds, []))
      | Cmd_int n arg \<Rightarrow> (None, fds, [Sys_fcntl fd n (Some arg)])
      | Cmd_none n \<Rightarrow> (None, fds, [Sys_fcntl fd n None])
      | Cmd_other n arg \<Rightarrow> (None, fds, [Sys_fcntl fd n None]))"

text \<open>\<open>ioctl\<close> with the request \<open>FIONBIO\<close>; every other request goes to the system as it is.\<close>

definition hook_ioctl_FIONBIO :: "int \<Rightarrow> bool \<Rightarrow> fd_ctx option list \<Rightarrow> fd_ctx option list \<times> syscall list" where
  "hook_ioctl_FIONBIO fd user_nonblock fds =
     (case fd_lookup fd fds of
        None \<Rightarrow> (fds, [Sys_fionbio fd user_nonblock])
      | Some c \<Rightarrow>
          if fx_isClosed c \<or> \<not> fx_isSocket c then (fds, [Sys_fionbio fd user_nonblock])
          else (fd_store fd (c\<lparr>fx_userNonblock := user_nonblock\<rparr>) fds, [Sys_fionbio fd user_nonblock]))"

text \<open>\<open>tv\<close>: the seconds and microseconds of the \<open>timeval\<close>; C division truncates.\<close>

definition hook_setsockopt ::
  "bool \<Rightarrow> int \<Rightarrow> int \<Rightarrow> int \<Rightarrow> int \<times> int \<Rightarrow> fd_ctx option list \<Rightarrow> fd_ctx option list \<times> syscall list" where
  "hook_setsockopt enable sockfd level optname tv fds =
     (if enable \<and> level = SOL_SOCKET \<and> (optname = SO_RCVTIMEO \<or> optname = SO_SNDTIMEO)
      then (case fd_lookup sockfd fds of
              None \<Rightarrow> (fds, [Sys_setsockopt sockfd level optname])
            | Some c \<Rightarrow>
                (fd_store sockfd (FdCtx_setTimeout optname (of_int (fst tv * 1000 + snd tv sdiv 1000)) c) fds,
                 [Sys_setsockopt sockfd level optname]))
      else (fds, [Sys_setsockopt sockfd level optname]))"

text \<open>\<open>fd\<close>: the result of \<open>socket_f\<close>; with \<open>stat\<close> and \<open>flags\<close> as for \<open>FdCtx\<close>.\<close>

definition hook_socket ::
  "bool \<Rightarrow> bool option \<Rightarrow> u32 \<Rightarrow> int \<Rightarrow> fd_ctx option list \<Rightarrow> fault + fd_ctx option list \<times> syscall list" where
  "hook_socket enable stat flags fd fds =
     (if \<not> enable \<or> fd = -1 then Inr (fds, [])
      else map_sum id snd (FdManager_get stat flags fd True fds))"

text \<open>\<open>fd\<close>: the result of \<open>do_io\<close> with \<open>accept_f\<close>.\<close>

definition hook_accept ::
  "bool option \<Rightarrow> u32 \<Rightarrow> int \<Rightarrow> fd_ctx option list \<Rightarrow> fault + fd_ctx option list \<times> syscall list" where
  "hook_accept stat flags fd fds =
     (if 0 \<le> fd then map_sum id snd (FdManager_get stat flags fd True fds) else Inr (fds, []))"

definition hook_close ::
  "bool \<Rightarrow> bool \<Rightarrow> int \<Rightarrow> io_manager option \<times> fd_ctx option list \<Rightarrow>
     fault + (io_manager option \<times> fd_ctx option list) \<times> syscall list" where
  "hook_close enable fails fd mf =
     (if \<not> enable then Inr (mf, [Sys_close fd])
      else
       (case fd_lookup fd (snd mf) of
          None \<Rightarrow> Inr (mf, [Sys_close fd])
        | Some c \<Rightarrow>
            (case fst mf of
               None \<Rightarrow> Inr ((None, FdManager_del fd (snd mf)), [Sys_close fd])
             | Some m \<Rightarrow>
                 (case cancelAll fails fd m of
                    Inl e \<Rightarrow> Inl e
                  | Inr (_, m) \<Rightarrow> Inr ((Some m, FdManager_del fd (snd mf)), [Sys_close fd])))))"

section \<open>Sleeping\<close>

text \<open>The delay the timer gets, in milliseconds; each in the integer types of the code.\<close>

definition sleep_ms :: "u32 \<Rightarrow> u64" where
  "sleep_ms seconds = ucast (seconds * 1000)"

definition usleep_ms :: "u32 \<Rightarrow> u64" where
  "usleep_ms usec = ucast (usec div 1000)"

definition nanosleep_ms :: "int \<Rightarrow> int \<Rightarrow> u64" where
  "nanosleep_ms tv_sec tv_nsec = scast (of_int (tv_sec * 1000 + tv_nsec sdiv 1000 sdiv 1000) :: u32)"

section \<open>Reading and writing\<close>

text \<open>What \<open>do_io\<close> does with a descriptor before it calls the original function.\<close>

datatype io_mode = Passthrough | Bad_descriptor | Wait_ready u64

definition do_io_mode :: "bool \<Rightarrow> int \<Rightarrow> int \<Rightarrow> fd_ctx option list \<Rightarrow> io_mode" where
  "do_io_mode enable fd timeout_so fds =
     (if \<not> enable then Passthrough
      else case fd_lookup fd fds of
        None \<Rightarrow> Passthrough
      | Some c \<Rightarrow>
          if fx_isClosed c then Bad_descriptor
          else if \<not> fx_isSocket c \<or> fx_userNonblock c then Passthrough
          else Wait_ready (FdCtx_getTimeout timeout_so c))"

text \<open>
  The original function would have blocked: a timer unless the timeout is \<open>-1\<close>, whose callback has
  the number \<open>cb\<close>, then the event. The result is whether the fiber yields, and its timer; when the
  event is refused, the timer is cancelled and \<open>do_io\<close> returns -1.
\<close>

definition do_io_wait ::
  "int \<Rightarrow> caller \<Rightarrow> bool \<Rightarrow> int \<Rightarrow> u32 \<Rightarrow> nat \<Rightarrow> u64 \<Rightarrow> io_manager \<times> timer_manager \<Rightarrow>
     fault + bool \<times> nat option \<times> io_manager \<times> timer_manager" where
  "do_io_wait now me fails fd event cb timeout mt =
     (let (timer, tm) =
        (if timeout \<noteq> not 0
         then (case addTimer now (unat timeout) cb False (snd mt) of (_, t, tm) \<Rightarrow> (Some t, tm))
         else (None, snd mt))
      in case addEvent me fails fd event None (fst mt) of
           Inl e \<Rightarrow> Inl e
         | Inr (rt, m) \<Rightarrow>
             if rt \<noteq> 0
             then Inr (False, timer, m, (case timer of None \<Rightarrow> tm | Some t \<Rightarrow> snd (timer_cancel t tm)))
             else Inr (True, timer, m, tm))"

text \<open>The callback of that timer; \<open>cancelled\<close> is the field of the shared \<open>timer_info\<close>.\<close>

definition do_io_timeout :: "bool \<Rightarrow> int \<Rightarrow> u32 \<Rightarrow> int \<times> io_manager \<Rightarrow> fault + int \<times> io_manager" where
  "do_io_timeout fails fd event cm =
     (if fst cm \<noteq> 0 then Inr cm
      else case cancelEvent fails fd event (snd cm) of
             Inl e \<Rightarrow> Inl e
           | Inr (_, m) \<Rightarrow> Inr (ETIMEDOUT, m))"

text \<open>When the fiber runs again: \<open>Some e\<close> is the return of -1 with \<open>errno = e\<close>, \<open>None\<close> is \<open>goto retry\<close>.\<close>

definition do_io_resume :: "nat option \<Rightarrow> int \<Rightarrow> timer_manager \<Rightarrow> int option \<times> timer_manager" where
  "do_io_resume timer cancelled tm =
     (let tm = (case timer of None \<Rightarrow> tm | Some t \<Rightarrow> snd (timer_cancel t tm))
      in (if cancelled = ETIMEDOUT then Some ETIMEDOUT else None, tm))"

text \<open>
  One call of the original function in the loop, and what its surroundings do around it: its result
  and \<open>errno\<close>, the clock, whether \<open>epoll_ctl\<close> fails, the number of the timer's callback, and what
  happens between \<open>yield\<close> and the moment this fiber runs again: the value of \<open>cancelled\<close> and the
  states of the managers.
\<close>

record io_attempt =
  at_n :: int
  at_errno :: int
  at_now :: int
  at_fails :: bool
  at_cb :: nat
  at_resumed :: "io_manager \<times> timer_manager \<Rightarrow> int \<times> io_manager \<times> timer_manager"

definition EINTR :: int where "EINTR = 4"
definition EAGAIN :: int where "EAGAIN = 11"

text \<open>
  From the label \<open>retry\<close> on. \<open>None\<close>: still retrying when the given calls are used up. The second
  component of the result is \<open>errno\<close>, \<open>None\<close> when it is what \<open>addEvent\<close> left there.
\<close>

fun do_io_loop ::
  "caller \<Rightarrow> int \<Rightarrow> u32 \<Rightarrow> u64 \<Rightarrow> io_attempt list \<Rightarrow> io_manager \<times> timer_manager \<Rightarrow>
     (fault + (int \<times> int option) \<times> io_manager \<times> timer_manager) option" where
  "do_io_loop me fd event timeout [] mt = None"
| "do_io_loop me fd event timeout (a # as) mt =
     (if at_n a = -1 \<and> at_errno a = EINTR then do_io_loop me fd event timeout as mt
      else if at_n a = -1 \<and> at_errno a = EAGAIN
      then (case do_io_wait (at_now a) me (at_fails a) fd event (at_cb a) timeout mt of
              Inl e \<Rightarrow> Some (Inl e)
            | Inr (yields, timer, m, tm) \<Rightarrow>
                if \<not> yields then Some (Inr ((-1, None), m, tm))
                else
                  (case at_resumed a (m, tm) of (cancelled, m, tm) \<Rightarrow>
                     (case do_io_resume timer cancelled tm of
                        (Some err, tm) \<Rightarrow> Some (Inr ((-1, Some err), m, tm))
                      | (None, tm) \<Rightarrow> do_io_loop me fd event timeout as (m, tm))))
      else Some (Inr ((at_n a, Some (at_errno a)), mt)))"

text \<open>The whole of \<open>do_io\<close>; every function that reads or writes is this with its original.\<close>

definition do_io ::
  "bool \<Rightarrow> caller \<Rightarrow> int \<Rightarrow> u32 \<Rightarrow> int \<Rightarrow> fd_ctx option list \<Rightarrow> io_attempt list \<Rightarrow> io_manager \<times> timer_manager \<Rightarrow>
     (fault + (int \<times> int option) \<times> io_manager \<times> timer_manager) option" where
  "do_io enable me fd event timeout_so fds as mt =
     (case do_io_mode enable fd timeout_so fds of
        Passthrough \<Rightarrow>
          (case as of [] \<Rightarrow> None | a # _ \<Rightarrow> Some (Inr ((at_n a, Some (at_errno a)), mt)))
      | Bad_descriptor \<Rightarrow> Some (Inr ((-1, Some EBADF), mt))
      | Wait_ready timeout \<Rightarrow> do_io_loop me fd event timeout as mt)"

section \<open>Connecting\<close>

definition EINPROGRESS :: int where "EINPROGRESS = 115"

text \<open>
  \<open>connect_with_timeout\<close> up to the wait; \<open>n\<close> and \<open>err\<close> are the result of \<open>connect_f\<close> and \<open>errno\<close>. The
  wait is the one of \<open>do_io\<close> with \<open>WRITE\<close>. \<open>Connect_done\<close> has the result and a new \<open>errno\<close>.
\<close>

datatype connect_step = Connect_done int "int option" | Connect_pending

definition connect_begin :: "bool \<Rightarrow> int \<Rightarrow> int \<Rightarrow> int \<Rightarrow> fd_ctx option list \<Rightarrow> connect_step" where
  "connect_begin enable fd n err fds =
     (if \<not> enable then Connect_done n None
      else case fd_lookup fd fds of
        None \<Rightarrow> Connect_done (-1) (Some EBADF)
      | Some c \<Rightarrow>
          if fx_isClosed c then Connect_done (-1) (Some EBADF)
          else if \<not> fx_isSocket c then Connect_done n None
          else if fx_userNonblock c then Connect_done n None
          else if n = 0 then Connect_done 0 None
          else if n \<noteq> -1 \<or> err \<noteq> EINPROGRESS then Connect_done n None
          else Connect_pending)"

definition connect_wait ::
  "int \<Rightarrow> caller \<Rightarrow> bool \<Rightarrow> int \<Rightarrow> nat \<Rightarrow> u64 \<Rightarrow> io_manager \<times> timer_manager \<Rightarrow>
     fault + bool \<times> nat option \<times> io_manager \<times> timer_manager" where
  "connect_wait now me fails fd cb timeout_ms mt = do_io_wait now me fails fd EV_WRITE cb timeout_ms mt"

text \<open>
  After the wait, or at once when the event was refused (\<open>waited\<close> is false); \<open>so_error\<close> is what
  \<open>getsockopt(SO_ERROR)\<close> gives, \<open>None\<close> when that fails.
\<close>

definition connect_finish ::
  "bool \<Rightarrow> nat option \<Rightarrow> int \<Rightarrow> int option \<Rightarrow> timer_manager \<Rightarrow> (int \<times> int option) \<times> timer_manager" where
  "connect_finish waited timer cancelled so_error tm =
     (let tm = (if waited then (case timer of None \<Rightarrow> tm | Some t \<Rightarrow> snd (timer_cancel t tm)) else tm)
      in (if waited \<and> cancelled \<noteq> 0 then (-1, Some cancelled)
          else (case so_error of
                  None \<Rightarrow> (-1, None)
                | Some e \<Rightarrow> if e = 0 then (0, None) else (-1, Some e)), tm))"

section \<open>Non-blocking sockets\<close>

text \<open>
  What the system calls do to the status flags of the descriptors, as \<open>fcntl(2)\<close> says: \<open>F_SETFL\<close> changes
  \<open>O_APPEND\<close>, \<open>O_ASYNC\<close>, \<open>O_DIRECT\<close>, \<open>O_NOATIME\<close> and \<open>O_NONBLOCK\<close>, and ignores the access mode and all other bits.
\<close>

definition SETFL_MASK :: u32 where
  "SETFL_MASK = 0x400 OR 0x2000 OR 0x4000 OR 0x40000 OR O_NONBLOCK"

fun flags_after :: "syscall \<Rightarrow> (int \<Rightarrow> u32) \<Rightarrow> int \<Rightarrow> u32" where
  "flags_after (Sys_setfl fd fl) kf = kf(fd := (kf fd AND NOT SETFL_MASK) OR (fl AND SETFL_MASK))"
| "flags_after (Sys_fionbio fd nb) kf = kf(fd := (if nb then kf fd OR O_NONBLOCK else kf fd AND NOT O_NONBLOCK))"
| "flags_after _ kf = kf"

abbreviation all_flags_after :: "syscall list \<Rightarrow> (int \<Rightarrow> u32) \<Rightarrow> int \<Rightarrow> u32" where
  "all_flags_after calls kf \<equiv> fold flags_after calls kf"

text \<open>
  The tables a program reaches with the flags the system has, by all hooked calls but \<open>ioctl\<close>: the
  system gives a new descriptor that is not in the table, with flags of its choice.
\<close>

inductive hook_reach :: "fd_ctx option list \<Rightarrow> (int \<Rightarrow> u32) \<Rightarrow> bool" where
  start: "hook_reach FdManager_init (\<lambda>_. 0)"
| opened: "hook_reach fds kf \<Longrightarrow> 0 \<le> fd \<Longrightarrow> fd_lookup fd fds = None \<Longrightarrow>
    hook_accept stat flags fd fds = Inr (fds', calls) \<Longrightarrow> hook_reach fds' (all_flags_after calls (kf(fd := flags)))"
| setfl: "hook_reach fds kf \<Longrightarrow> hook_fcntl real fd (F_SETFL arg) fds = (r, fds', calls) \<Longrightarrow>
    hook_reach fds' (all_flags_after calls kf)"
| option: "hook_reach fds kf \<Longrightarrow> hook_setsockopt True fd level optname tv fds = (fds', calls) \<Longrightarrow>
    hook_reach fds' (all_flags_after calls kf)"
| closed: "hook_reach fds kf \<Longrightarrow> hook_close True fails fd (m, fds) = Inr ((m', fds'), calls) \<Longrightarrow>
    hook_reach fds' (all_flags_after calls kf)"

definition nonblock_entry :: "(int \<Rightarrow> u32) \<Rightarrow> int \<Rightarrow> fd_ctx \<Rightarrow> bool" where
  "nonblock_entry kf fd c \<longleftrightarrow> \<not> fx_isClosed c \<and> (fx_isSocket c \<longrightarrow> fx_sysNonblock c \<and> kf fd AND O_NONBLOCK \<noteq> 0)"

definition hook_inv :: "fd_ctx option list \<Rightarrow> (int \<Rightarrow> u32) \<Rightarrow> bool" where
  "hook_inv fds kf \<longleftrightarrow> 64 \<le> length fds \<and> fdt.all_entries (nonblock_entry kf) fds"

lemma or_nonblock: "(x OR O_NONBLOCK) AND O_NONBLOCK \<noteq> 0" "(x AND NOT O_NONBLOCK) AND O_NONBLOCK = 0"
  by (simp_all add: word_ao_absorbs O_NONBLOCK_def and.assoc)

lemma bit_nonblock: "bit O_NONBLOCK n \<longleftrightarrow> n = 11"
proof -
  have e: "O_NONBLOCK = 2 ^ 11" by (simp add: O_NONBLOCK_def)
  show ?thesis unfolding e bit_exp_iff by auto
qed

lemma and_nonblock_cases: "x AND O_NONBLOCK = 0 \<or> x AND O_NONBLOCK = O_NONBLOCK"
proof (cases "bit x 11")
  case True
  then have "x AND O_NONBLOCK = O_NONBLOCK" by (intro bit_word_eqI) (auto simp: bit_and_iff bit_nonblock)
  then show ?thesis ..
next
  case False
  then have "x AND O_NONBLOCK = 0" by (intro bit_word_eqI) (auto simp: bit_and_iff bit_nonblock)
  then show ?thesis ..
qed

lemma and_not_absent: "x AND y = 0 \<Longrightarrow> x AND NOT y = x" for x y :: u32
proof (rule bit_word_eqI)
  fix n assume z: "x AND y = 0" and n: "n < LENGTH(32)"
  have "\<not> bit (x AND y) n" unfolding z by simp
  then show "bit (x AND NOT y) n \<longleftrightarrow> bit x n" using n by (auto simp: bit_and_iff bit_not_iff)
qed

lemma or_present: "x AND y = y \<Longrightarrow> x OR y = x" for x y :: u32
  by (intro bit_word_eqI) (metis bit_and_iff bit_or_iff)

lemma setfl_nonblock:
  "((k AND NOT SETFL_MASK) OR ((x OR O_NONBLOCK) AND SETFL_MASK)) AND O_NONBLOCK \<noteq> 0"
  "((k AND NOT SETFL_MASK) OR ((x OR O_NONBLOCK) AND SETFL_MASK)) AND NOT O_NONBLOCK =
     ((k AND NOT SETFL_MASK) OR (x AND SETFL_MASK)) AND NOT O_NONBLOCK"
  "((k AND NOT SETFL_MASK) OR ((x OR O_NONBLOCK) AND SETFL_MASK)) OR O_NONBLOCK =
     (k AND NOT SETFL_MASK) OR ((x OR O_NONBLOCK) AND SETFL_MASK)"
  "((k AND NOT SETFL_MASK) OR (x AND SETFL_MASK)) AND O_NONBLOCK = x AND O_NONBLOCK"
proof -
  have m: "SETFL_MASK AND O_NONBLOCK = O_NONBLOCK" by (simp add: SETFL_MASK_def O_NONBLOCK_def)
  then have b: "bit O_NONBLOCK n \<Longrightarrow> bit SETFL_MASK n" for n by (metis bit_and_iff)
  show "((k AND NOT SETFL_MASK) OR ((x OR O_NONBLOCK) AND SETFL_MASK)) AND NOT O_NONBLOCK =
     ((k AND NOT SETFL_MASK) OR (x AND SETFL_MASK)) AND NOT O_NONBLOCK"
    by (intro bit_word_eqI) (auto simp: bit_simps)
  show "((k AND NOT SETFL_MASK) OR ((x OR O_NONBLOCK) AND SETFL_MASK)) OR O_NONBLOCK =
     (k AND NOT SETFL_MASK) OR ((x OR O_NONBLOCK) AND SETFL_MASK)"
    by (intro bit_word_eqI) (auto simp: bit_simps b)
  show e: "((k AND NOT SETFL_MASK) OR (x AND SETFL_MASK)) AND O_NONBLOCK = x AND O_NONBLOCK" for x
    by (intro bit_word_eqI) (auto simp: bit_simps b)
  show "((k AND NOT SETFL_MASK) OR ((x OR O_NONBLOCK) AND SETFL_MASK)) AND O_NONBLOCK \<noteq> 0"
    unfolding e by (rule or_nonblock(1))
qed

lemma fd_lookup_nonneg: "fd_lookup fd fds = Some c \<Longrightarrow> 0 \<le> fd"
  by (auto simp: fd_lookup_def behind_end_def split: if_splits)

lemma hook_inv_other:
  assumes "hook_inv fds kf" and "64 \<le> length fds'" and "\<And>fd'. fd' \<noteq> fd \<Longrightarrow> fd_lookup fd' fds' = fd_lookup fd' fds"
    and "\<And>fd'. fd' \<noteq> fd \<Longrightarrow> kf' fd' = kf fd'" and "\<And>c. fd_lookup fd fds' = Some c \<Longrightarrow> nonblock_entry kf' fd c"
  shows "hook_inv fds' kf'"
  unfolding hook_inv_def fdt.all_entries_def
proof (intro conjI allI impI)
  fix fd' c assume c: "fd_lookup fd' fds' = Some c"
  show "nonblock_entry kf' fd' c"
  proof (cases "fd' = fd")
    case False
    with assms(1,3) c have "nonblock_entry kf fd' c" by (auto simp: hook_inv_def intro: fdt.all_entriesD)
    with False assms(4) show ?thesis by (simp add: nonblock_entry_def)
  qed (use assms(5) c in simp)
qed (rule assms(2))

text \<open>Each hooked call keeps the sockets non-blocking.\<close>

lemma hook_accept_keeps:
  assumes "hook_inv fds kf" and "0 \<le> fd" and "fd_lookup fd fds = None" and "hook_accept stat flags fd fds = Inr (fds', calls)"
  shows "hook_inv fds' (all_flags_after calls (kf(fd := flags)))"
proof -
  have "64 \<le> length fds" using assms(1) by (simp add: hook_inv_def)
  from FdManager_get_create [OF assms(2) this, of stat flags] obtain c calls' datas' where
    g: "FdManager_get stat flags fd True fds = Inr (Some c, datas', calls')" "64 \<le> length datas'"
      "\<And>fd'. fd_lookup fd' datas' = (if fd' = fd then Some c else fd_lookup fd' fds)" "(c, calls') = FdCtx_new stat flags fd"
    using assms(3) by (metis option.simps(3))
  with assms(2,4) have r: "fds' = datas'" "calls = calls'" by (simp_all add: hook_accept_def)
  have new: "nonblock_entry (all_flags_after calls' (kf(fd := flags))) fd c \<and>
      (\<forall>fd'. fd' \<noteq> fd \<longrightarrow> all_flags_after calls' (kf(fd := flags)) fd' = kf fd')"
    using g(4) or_nonblock(1) [of flags] setfl_nonblock(1) [of flags flags]
    by (cases stat) (auto simp: FdCtx_new_def FdCtx_init_def Let_def nonblock_entry_def split: if_splits)
  show ?thesis unfolding r
    by (rule hook_inv_other [OF assms(1) g(2), where fd = fd]) (use g(3) new in auto)
qed

lemma hook_fcntl_keeps:
  assumes "hook_inv fds kf" and "hook_fcntl real fd (F_SETFL arg) fds = (r, fds', calls)"
  shows "hook_inv fds' (all_flags_after calls kf)"
proof -
  show ?thesis
  proof (cases "fd_lookup fd fds")
    case None
    with assms(2) have "fds' = fds" "calls = [Sys_setfl fd arg]" by (simp_all add: hook_fcntl_def)
    then show ?thesis
      using None assms(1) by (intro hook_inv_other [OF assms(1), where fd = fd]) (auto simp: hook_inv_def)
  next
    case (Some c)
    then have c: "nonblock_entry kf fd c" using assms(1) by (auto simp: hook_inv_def intro: fdt.all_entriesD)
    have l: "64 \<le> length fds" using assms(1) by (simp add: hook_inv_def)
    show ?thesis
    proof (cases "fx_isSocket c")
      case False
      with Some assms(2) have "fds' = fds" "calls = [Sys_setfl fd arg]" by (simp_all add: hook_fcntl_def)
      then show ?thesis
        using Some False c l by (intro hook_inv_other [OF assms(1), where fd = fd]) (auto simp: nonblock_entry_def)
    next
      case True
      with Some assms(2) c have "fds' = fd_store fd (c\<lparr>fx_userNonblock := (arg AND O_NONBLOCK \<noteq> 0)\<rparr>) fds"
          "calls = [Sys_setfl fd (arg OR O_NONBLOCK)]"
        by (simp_all add: hook_fcntl_def nonblock_entry_def)
      then show ?thesis
        using Some c l setfl_nonblock(1) [of "kf fd" arg] fdt.lookup_store [of fd fds]
        by (intro hook_inv_other [OF assms(1), where fd = fd]) (auto simp: nonblock_entry_def fd_store_def)
    qed
  qed
qed

lemma hook_setsockopt_keeps:
  assumes "hook_inv fds kf" and "hook_setsockopt True fd level optname tv fds = (fds', calls)"
  shows "hook_inv fds' (all_flags_after calls kf)"
proof -
  have calls: "calls = [Sys_setsockopt fd level optname]"
    using assms(2) by (auto simp: hook_setsockopt_def split: if_splits option.splits)
  have "fds' = fds \<or> (\<exists>c v. fd_lookup fd fds = Some c \<and> fds' = fd_store fd (FdCtx_setTimeout optname v c) fds)"
    using assms(2) by (auto simp: hook_setsockopt_def split: if_splits option.splits)
  then show ?thesis
  proof (elim disjE exE conjE)
    fix c v assume c: "fd_lookup fd fds = Some c" and f: "fds' = fd_store fd (FdCtx_setTimeout optname v c) fds"
    have "nonblock_entry kf fd c" using c assms(1) by (auto simp: hook_inv_def intro: fdt.all_entriesD)
    then have "nonblock_entry kf fd (FdCtx_setTimeout optname v c)" by (simp add: FdCtx_setTimeout_def nonblock_entry_def)
    then show ?thesis
      using c f calls assms(1) fdt.all_store [of "nonblock_entry kf" fds fd] by (auto simp: hook_inv_def fd_store_def)
  qed (use calls assms(1) in simp)
qed

lemma hook_close_keeps:
  assumes "hook_inv fds kf" and "hook_close True fails fd (m, fds) = Inr ((m', fds'), calls)"
  shows "hook_inv fds' (all_flags_after calls kf)"
proof -
  have calls: "calls = [Sys_close fd]"
    using assms(2) by (auto simp: hook_close_def split: option.splits sum.splits)
  have "fds' = fds \<or> fds' = FdManager_del fd fds"
    using assms(2) by (auto simp: hook_close_def split: option.splits sum.splits)
  moreover have "hook_inv (FdManager_del fd fds) kf"
  proof -
    have "64 \<le> length (FdManager_del fd fds)" using assms(1) by (simp add: hook_inv_def FdManager_del_def)
    moreover have "fdt.all_entries (nonblock_entry kf) (FdManager_del fd fds)"
      using assms(1) by (intro fdt.all_remove) (auto simp: hook_inv_def intro: fdt.all_entriesD)
    ultimately show ?thesis by (simp add: hook_inv_def)
  qed
  ultimately show ?thesis using calls assms(1) by auto
qed

lemma hook_reach_inv: "hook_reach fds kf \<Longrightarrow> hook_inv fds kf"
proof (induction rule: hook_reach.induct)
  case start
  then show ?case by (auto simp: hook_inv_def fdt.all_entries_def FdManager_init_def fd_lookup_def behind_end_def)
qed (rule hook_accept_keeps hook_fcntl_keeps hook_setsockopt_keeps hook_close_keeps, assumption+)+


text \<open>
  \<open>ioctl(FIONBIO)\<close> is not translated like \<open>fcntl\<close>: when a program asks for a blocking socket, the
  system's descriptor becomes blocking, while \<open>do_io\<close> then takes the way of waiting for the event,
  on which it expects the original function to return at once. The original call blocks the thread with all its fibers.
\<close>

theorem ioctl_makes_blocking:
  assumes "hook_reach fds kf" and "fd_lookup fd fds = Some c" and "fx_isSocket c"
    and "hook_ioctl_FIONBIO fd False fds = (fds', calls)"
  shows "kf fd AND O_NONBLOCK \<noteq> 0 \<and> all_flags_after calls kf fd AND O_NONBLOCK = 0 \<and>
    do_io_mode True fd timeout_so fds' = Wait_ready (FdCtx_getTimeout timeout_so c)"
proof -
  have c: "nonblock_entry kf fd c"
    using hook_reach_inv [OF assms(1)] assms(2) by (auto simp: hook_inv_def intro: fdt.all_entriesD)
  then have k: "\<not> fx_isClosed c" "kf fd AND O_NONBLOCK \<noteq> 0"
    using assms(3) by (simp_all add: nonblock_entry_def)
  let ?c = "c\<lparr>fx_userNonblock := False\<rparr>"
  have s: "fds' = fd_store fd ?c fds" "calls = [Sys_fionbio fd False]"
    using assms(2-4) k by (simp_all add: hook_ioctl_FIONBIO_def)
  have look: "fd_lookup fd fds' = Some ?c" using assms(2) by (simp add: s(1) fdt.lookup_store)
  show ?thesis using look k assms(3) or_nonblock(2) [of "kf fd"]
    by (simp add: do_io_mode_def s(2) FdCtx_getTimeout_def)
qed

section \<open>Waiting with a timeout\<close>

text \<open>
  The results \<open>do_io\<close> can have: one of the original function's that asks for no retry, the timeout, or a
  refused event.
\<close>

definition retried :: "io_attempt \<Rightarrow> bool" where
  "retried a \<longleftrightarrow> at_n a = -1 \<and> at_errno a \<in> {EINTR, EAGAIN}"

text \<open>The call goes on after this attempt: it was interrupted, or the fiber waited and was not resumed by the timeout.\<close>

definition io_goes_on :: "io_attempt \<Rightarrow> bool" where
  "io_goes_on a \<longleftrightarrow> retried a \<and> (at_errno a = EAGAIN \<longrightarrow> (\<exists>mt. fst (at_resumed a mt) \<noteq> ETIMEDOUT))"

text \<open>The call ends with this attempt and the result \<open>r\<close>.\<close>

definition io_answer :: "caller \<Rightarrow> int \<Rightarrow> u32 \<Rightarrow> io_attempt \<Rightarrow> int \<times> int option \<Rightarrow> bool" where
  "io_answer me fd event a r \<longleftrightarrow>
     (if \<not> retried a then r = (at_n a, Some (at_errno a))
      else at_errno a = EAGAIN \<and>
        ((\<exists>mt. fst (at_resumed a mt) = ETIMEDOUT) \<and> r = (-1, Some ETIMEDOUT) \<or>
         (\<exists>m rt m'. iom_inv m \<and> addEvent me (at_fails a) fd event None m = Inr (rt, m') \<and> rt \<noteq> 0) \<and> r = (-1, None)))"

lemma do_io_wait_outcome:
  assumes "iom_inv m" and "0 \<le> fd" and "event \<in> {EV_READ, EV_WRITE}" and "caller_ok me s None"
  obtains yields timer m' tm' rt where "do_io_wait now me fails fd event cb timeout (m, tm) = Inr (yields, timer, m', tm')"
    and "iom_inv m'" and "addEvent me fails fd event None m = Inr (rt, m')" and "yields \<longleftrightarrow> rt = 0"
proof -
  obtain r m' where a: "addEvent me fails fd event None m = Inr (r, m')" "iom_inv m'"
    using addEvent_outcome [OF assms(1-3), of me s None fails] assms(4) by auto
  obtain f t tm2 where "addTimer now (unat timeout) cb False tm = (f, t, tm2)" by (rule prod_cases3)
  with a that show thesis by (cases "timeout = not 0"; cases "r = 0") (simp_all add: do_io_wait_def Let_def)
qed

text \<open>One attempt: the call ends with it, or goes on from sound states.\<close>

lemma do_io_attempt:
  assumes "iom_inv m" and "0 \<le> fd" and "event \<in> {EV_READ, EV_WRITE}" and "caller_ok me s None"
    and "\<And>m tm. iom_inv m \<Longrightarrow> iom_inv (fst (snd (at_resumed a (m, tm))))"
  obtains (ends) r mt' where "\<And>as. do_io_loop me fd event timeout (a # as) (m, tm) = Some (Inr (r, mt'))"
      "io_answer me fd event a r"
    | (goes_on) m' tm' where "\<And>as. do_io_loop me fd event timeout (a # as) (m, tm) = do_io_loop me fd event timeout as (m', tm')"
      "io_goes_on a" "iom_inv m'"
proof -
  consider "\<not> retried a" | "retried a" "at_errno a = EINTR" | "retried a" "at_errno a = EAGAIN"
    by (auto simp: retried_def)
  then show thesis
  proof cases
    case 1
    then show thesis
      using ends [of "(at_n a, Some (at_errno a))" "(m, tm)"] by (auto simp: retried_def io_answer_def)
  next
    case 2
    then show thesis using goes_on [of m tm] assms(1) by (simp add: retried_def io_goes_on_def EINTR_def EAGAIN_def)
  next
    case 3
    then have n: "at_n a = -1" "at_errno a \<noteq> EINTR" by (simp_all add: retried_def EINTR_def EAGAIN_def)
    obtain yields timer m1 tm1 rt where w: "do_io_wait (at_now a) me (at_fails a) fd event (at_cb a) timeout (m, tm) =
        Inr (yields, timer, m1, tm1)" "iom_inv m1"
        "addEvent me (at_fails a) fd event None m = Inr (rt, m1)" "yields \<longleftrightarrow> rt = 0"
      by (rule do_io_wait_outcome [OF assms(1-4)])
    obtain c m2 tm2 where r: "at_resumed a (m1, tm1) = (c, m2, tm2)" by (rule prod_cases3)
    obtain tm3 where z: "do_io_resume timer c tm2 = (if c = ETIMEDOUT then Some ETIMEDOUT else None, tm3)"
      by (simp add: do_io_resume_def Let_def)
    consider "\<not> yields" | yields "c = ETIMEDOUT" | yields "c \<noteq> ETIMEDOUT" by blast
    then show thesis
    proof cases
      case a: 1
      have "io_answer me fd event a (-1, None)"
        unfolding io_answer_def using 3 a w(3,4) assms(1) by auto
      with a n 3 w show thesis by (intro ends [of "(-1, None)" "(m1, tm1)"]) simp_all
    next
      case a: 2
      have "io_answer me fd event a (-1, Some ETIMEDOUT)"
        unfolding io_answer_def using 3 exI [of "\<lambda>mt. fst (at_resumed a mt) = ETIMEDOUT" "(m1, tm1)"] a r
        by (simp del: split_paired_Ex)
      with a n 3 w r z show thesis by (intro ends [of "(-1, Some ETIMEDOUT)" "(m2, tm3)"]) simp_all
    next
      case a: 3
      have "io_goes_on a"
        unfolding io_goes_on_def using 3 exI [of "\<lambda>mt. fst (at_resumed a mt) \<noteq> ETIMEDOUT" "(m1, tm1)"] a r
        by (simp del: split_paired_Ex)
      with a n 3 w r z assms(5) [OF w(2), of tm1] show thesis by (intro goes_on [of m2 tm3]) simp_all
    qed
  qed
qed

lemma do_io_loop_returns:
  assumes "iom_inv m" and "0 \<le> fd" and "event \<in> {EV_READ, EV_WRITE}" and "caller_ok me s None"
    and "\<And>a m tm. a \<in> set as \<Longrightarrow> iom_inv m \<Longrightarrow> iom_inv (fst (snd (at_resumed a (m, tm))))"
    and "\<exists>a \<in> set as. \<not> retried a"
  shows "\<exists>pre a post r mt'. as = pre @ a # post \<and> (\<forall>b \<in> set pre. io_goes_on b) \<and> io_answer me fd event a r \<and>
    do_io_loop me fd event timeout as (m, tm) = Some (Inr (r, mt'))"
  using assms(1,5,6)
proof (induction as arbitrary: m tm)
  case (Cons a as)
  show ?case
  proof (rule do_io_attempt [OF Cons.prems(1) assms(2-4), of a timeout tm])
    show "iom_inv (fst (snd (at_resumed a (m, tm))))" if "iom_inv m" for m tm
      using Cons.prems(2) that by simp
  next
    fix r mt'
    assume "\<And>as. do_io_loop me fd event timeout (a # as) (m, tm) = Some (Inr (r, mt'))" "io_answer me fd event a r"
    then show ?thesis by (intro exI [of _ "[]"] exI [of _ a] exI [of _ as] exI [of _ r] exI [of _ mt']) (simp del: do_io_loop.simps)
  next
    fix m' tm'
    assume goes_on: "\<And>as. do_io_loop me fd event timeout (a # as) (m, tm) = do_io_loop me fd event timeout as (m', tm')"
      "io_goes_on a" "iom_inv m'"
    have "\<exists>a \<in> set as. \<not> retried a" using Cons.prems(3) goes_on(2) by (auto simp: io_goes_on_def)
    with Cons.IH [OF goes_on(3), of tm'] Cons.prems(2) obtain pre b post r mt' where
      "as = pre @ b # post" "\<forall>b \<in> set pre. io_goes_on b" "io_answer me fd event b r"
      "do_io_loop me fd event timeout as (m', tm') = Some (Inr (r, mt'))" by (metis list.set_intros(2))
    then show ?thesis using goes_on(1,2)
      by (intro exI [of _ "a # pre"] exI [of _ b] exI [of _ post] exI [of _ r] exI [of _ mt']) (simp del: do_io_loop.simps)
  qed
qed simp



text \<open>
  Two fibers that start to wait at the same time with the same timeout: the timer of the second
  is not entered, so its timeout never comes; and when its data arrives first, the timer it cancels is
  the first one's, whose timeout then never comes either.
\<close>

theorem shared_deadline_loses_timeout:
  assumes "timers_inv tm" and "after_ms now (unat timeout) \<notin> deadline tm ` set (m_timers tm)"
    and "do_io_wait now me1 fails1 fd1 event1 cb1 timeout (m, tm) = Inr (True, Some t1, m1, tm1)"
    and "do_io_wait now me2 fails2 fd2 event2 cb2 timeout (m1, tm1) = Inr (True, Some t2, m2, tm2)"
    and "do_io_resume (Some t2) 0 tm2 = (r, tm3)"
  shows "t1 \<in> set (m_timers tm1) \<and> t2 \<notin> set (m_timers tm2) \<and> r = None \<and> t1 \<notin> set (m_timers tm3) \<and>
    tm_cb (tm_store tm3 t1) = Some cb1"
proof -
  obtain f1 where a1: "addTimer now (unat timeout) cb1 False tm = (f1, t1, tm1)"
    using assms(3) by (auto simp: do_io_wait_def Let_def split: if_splits sum.splits prod.splits)
  obtain f2 where a2: "addTimer now (unat timeout) cb2 False tm1 = (f2, t2, tm2)"
    using assms(4) by (auto simp: do_io_wait_def Let_def split: if_splits sum.splits prod.splits)
  from assms(5) obtain ok where c: "timer_cancel t2 tm2 = (ok, tm3)" "r = None"
    by (cases "timer_cancel t2 tm2") (simp add: do_io_resume_def Let_def ETIMEDOUT_def)
  show ?thesis using equal_deadline_cancel [OF assms(1,2) a1 a2 c(1)] c(2) by simp
qed

text \<open>
  When the event of a connection in progress cannot be armed, \<open>connect\<close> does not wait and does not
  fail either: the socket has no error yet, and the program is told that it is connected. When the
  wait was possible, the result is the socket's error, or \<open>ETIMEDOUT\<close> when the timer came first.
\<close>

theorem unarmed_connect_succeeds:
  assumes "iom_reach m A D" and "0 \<le> fd" and "caller_ok me s None"
    and "connect_begin True fd (-1) EINPROGRESS fds = Connect_pending"
    and "connect_wait now me fails fd cb timeout (m, tm) = Inr (waited, timer, m', tm')"
  shows "(fails \<longrightarrow> \<not> waited \<and> waiting m' = waiting m \<and> fst (connect_finish waited timer 0 (Some 0) tm') = (0, None)) \<and>
    (waited \<longrightarrow> mset (waiting m') = add_mset (s, Task_fiber (this_fiber me)) (mset (waiting m)) \<and>
      fst (connect_finish waited timer 0 (Some e) tm') = (if e = 0 then (0, None) else (-1, Some e)) \<and>
      fst (connect_finish waited timer ETIMEDOUT so_error tm') = (-1, Some ETIMEDOUT))"
proof -
  have inv: "iom_inv m" using iom_reach_books [OF assms(1)] by simp
  obtain r where a: "addEvent me fails fd EV_WRITE None m = Inr (r, m')" "waited \<longleftrightarrow> r = 0"
    using assms(5) by (auto simp: connect_wait_def do_io_wait_def Let_def split: if_splits sum.splits prod.splits)
  have w: "waiter me s None = (s, Task_fiber (this_fiber me))" by (simp add: waiter_def)
  have "mset (waiting m') = (if r = 0 then {#waiter me s None#} else {#}) + mset (waiting m)"
    using addEvent_outcome [OF inv assms(2) _ assms(3), of EV_WRITE fails] a(1) by auto
  moreover have "r \<noteq> 0 \<and> waiting m' = waiting m" if fails
  proof -
    have arm: "arm_event me True f EV_WRITE None m0 = Inr (-1, m0)" for f m0 by (simp add: arm_event_def Let_def)
    show ?thesis
    proof (cases "fd < int (length (m_fdContexts m))")
      case True
      with a(1) assms(2) that arm show ?thesis by (auto simp: addEvent_def)
    next
      case False
      have "32 \<le> length (m_fdContexts m)" using inv by (simp add: iom_inv_def)
      then have "length (m_fdContexts m) \<le> grown_size (nat fd)"
        using False grown_size_gt [of "nat fd"] by linarith
      note contextResize_grows(2) [OF inv this]
      with False a(1) assms(2) that arm show ?thesis by (auto simp: addEvent_def addEvent_grow_def Let_def split: if_splits)
    qed
  qed
  ultimately show ?thesis using a(2) w by (auto simp: connect_finish_def Let_def ETIMEDOUT_def)
qed

lemma unat_ucast64: "unat (ucast (x :: u32) :: u64) = unat x"
proof -
  have "unat x < 2 ^ LENGTH(32)" by (rule unsigned_less)
  then show ?thesis by (simp add: unsigned_ucast_eq take_bit_nat_eq_self)
qed

lemma mod_once: "- n \<le> x \<Longrightarrow> x < 0 \<Longrightarrow> x mod n = x + n" for x n :: int
proof -
  assume "- n \<le> x" "x < 0"
  then have "(x + n) mod n = x + n" by (intro mod_pos_pos_trivial) simp_all
  then show ?thesis by simp
qed

lemma int_sign_high: "2 ^ 31 \<le> x \<Longrightarrow> x < 2 ^ 32 \<Longrightarrow> signed_take_bit 31 x = x - 2 ^ 32" for x :: int
proof -
  assume x: "2 ^ 31 \<le> x" "x < 2 ^ 32"
  have "x + 2 ^ 31 = (x - 2 ^ 31) + 2 ^ 32" by simp
  then have "(x + 2 ^ 31) mod 2 ^ 32 = (x - 2 ^ 31) mod 2 ^ 32" by (metis mod_add_self2)
  also have "\<dots> = x - 2 ^ 31" using x by (intro mod_pos_pos_trivial) simp_all
  finally have "(x + 2 ^ 31) mod 2 ^ 32 = x - 2 ^ 31" .
  then show ?thesis by (simp add: signed_take_bit_eq_take_bit_shift take_bit_eq_mod)
qed

lemma uint_of_int64: "uint (of_int x :: u64) = x mod 2 ^ 64"
  by (simp add: unsigned_of_int take_bit_eq_mod)
lemma sint_of_int32: "sint (of_int x :: u32) = signed_take_bit 31 x"
  by (simp add: signed_of_int)
lemma above_2_63: "u = x - 2 ^ 32 + 2 ^ 64 \<Longrightarrow> 2 ^ 31 \<le> x \<Longrightarrow> 2 ^ 63 < u" for u x :: int
  by simp

lemma nanosleep_int:
  assumes n: "0 \<le> tv_nsec" shows "uint (nanosleep_ms tv_sec tv_nsec) =
     signed_take_bit 31 (tv_sec * 1000 + tv_nsec div 1000000) mod 2 ^ 64"
proof -
  have e: "tv_nsec sdiv 1000 sdiv 1000 = tv_nsec div 1000000"
    using n by (simp add: signed_divide_int_def zdiv_zmult2_eq [symmetric] sgn_if)
  show ?thesis unfolding nanosleep_ms_def e scast_eq sint_of_int32 uint_of_int64 by (rule refl)
qed

text \<open>
  How long the sleeping calls sleep, in milliseconds: \<open>sleep\<close> is exact up to 4294967 seconds and
  too short from there on, since the product wraps in 32 bits; \<open>usleep\<close> rounds down, below a
  millisecond to nothing; \<open>nanosleep\<close> is exact, rounded down, below 2147483 seconds, and from 2147484
  seconds on the negative product becomes a delay of more than 2 ^ 63 milliseconds.
\<close>

theorem sleeps_last:
  assumes "0 \<le> tv_nsec" and "tv_nsec < 1000000000" and "0 \<le> tv_sec"
  shows "(unat s \<le> 4294967 \<longrightarrow> unat (sleep_ms s) = 1000 * unat s) \<and>
    (4294967 < unat s \<longrightarrow> unat (sleep_ms s) < 1000 * unat s) \<and>
    unat (usleep_ms u) = unat u div 1000 \<and>
    (tv_sec < 2147483 \<longrightarrow> unat (nanosleep_ms tv_sec tv_nsec) = nat (tv_sec * 1000 + tv_nsec div 1000000)) \<and>
    (2147484 \<le> tv_sec \<and> tv_sec < 4294967 \<longrightarrow> 2 ^ 63 < unat (nanosleep_ms tv_sec tv_nsec))"
proof (intro conjI impI)
  have s: "unat (sleep_ms s) = (unat s * 1000) mod 2 ^ 32"
    by (simp add: sleep_ms_def unat_ucast64 unat_word_ariths)
  show "unat (sleep_ms s) = 1000 * unat s" if "unat s \<le> 4294967"
    using that unfolding s by simp
  show "unat (sleep_ms s) < 1000 * unat s" if "4294967 < unat s"
  proof -
    have "(unat s * 1000) mod 2 ^ 32 < 2 ^ 32" by simp
    with that show ?thesis unfolding s by simp
  qed
  show "unat (usleep_ms u) = unat u div 1000"
    by (simp add: usleep_ms_def unat_ucast64 unat_div)
  let ?x = "tv_sec * 1000 + tv_nsec div 1000000"
  have q: "0 \<le> tv_nsec div 1000000" "tv_nsec div 1000000 < 1000" using assms(1,2) by simp_all
  show "unat (nanosleep_ms tv_sec tv_nsec) = nat ?x" if "tv_sec < 2147483"
  proof -
    have "signed_take_bit 31 ?x = ?x"
      using that assms(3) q by (intro signed_take_bit_int_eq_self) simp_all
    moreover have "?x mod 2 ^ 64 = ?x" using that assms(3) q by (intro mod_pos_pos_trivial) simp_all
    ultimately show ?thesis by (simp only: unat_eq_nat_uint nanosleep_int [OF assms(1)])
  qed
  show "2 ^ 63 < unat (nanosleep_ms tv_sec tv_nsec)" if "2147484 \<le> tv_sec \<and> tv_sec < 4294967"
  proof -
    have r: "2 ^ 31 \<le> ?x" "?x < 2 ^ 32" using that q by simp_all
    have "uint (nanosleep_ms tv_sec tv_nsec) = (?x - 2 ^ 32) + 2 ^ 64"
      unfolding nanosleep_int [OF assms(1)] int_sign_high [OF r] using r by (intro mod_once) simp_all
    from above_2_63 [OF this r(1)] have "nat (2 ^ 63) < nat (uint (nanosleep_ms tv_sec tv_nsec))" by (rule iffD2 [OF nat_less_eq_zless, rotated]) simp
    then show ?thesis unfolding unat_eq_nat_uint by (simp only: nat_power_eq zero_le_numeral nat_numeral)
  qed
qed

section \<open>Sample states\<close>

lemma sample_socket:
  obtains fds kf c where "hook_reach fds kf" and "fd_lookup 5 fds = Some c" and "fx_isSocket c" and "\<not> fx_isClosed c"
    and "\<not> fx_userNonblock c"
proof -
  have n: "fd_lookup 5 FdManager_init = None" by (simp add: fd_lookup_def FdManager_init_def behind_end_def)
  obtain c calls datas' where g: "FdManager_get (Some True) 0 5 True FdManager_init = Inr (Some c, datas', calls)"
    "\<And>fd'. fd_lookup fd' datas' = (if fd' = 5 then Some c else fd_lookup fd' FdManager_init)"
    "fd_lookup 5 FdManager_init = Some c \<and> calls = [] \<or> fd_lookup 5 FdManager_init = None \<and> (c, calls) = FdCtx_new (Some True) 0 5"
    by (rule FdManager_get_create [of 5 FdManager_init "Some True" 0]) (simp_all add: FdManager_init_def)
  have "hook_accept (Some True) 0 5 FdManager_init = Inr (datas', calls)" using g(1) by (simp add: hook_accept_def)
  from hook_reach.opened [OF hook_reach.start _ n this]
  have "hook_reach datas' (all_flags_after calls ((\<lambda>_. 0)(5 := 0)))" by simp
  moreover have "fd_lookup 5 datas' = Some c" using g(2) [of 5] by simp
  moreover have "fx_isSocket c \<and> \<not> fx_isClosed c \<and> \<not> fx_userNonblock c"
    using g(3) n by (simp add: FdCtx_new_def FdCtx_init_def)
  ultimately show thesis using that by blast
qed


theorem ioctl_makes_blocking_witness:
  "\<exists>fds kf fds' calls. hook_reach fds kf \<and> hook_ioctl_FIONBIO 5 False fds = (fds', calls) \<and>
     kf 5 AND O_NONBLOCK \<noteq> 0 \<and> all_flags_after calls kf 5 AND O_NONBLOCK = 0"
proof -
  obtain fds kf c where s: "hook_reach fds kf" "fd_lookup 5 fds = Some c" "fx_isSocket c" by (rule sample_socket)
  obtain fds' calls where f: "hook_ioctl_FIONBIO 5 False fds = (fds', calls)"
    by (cases "hook_ioctl_FIONBIO 5 False fds")
  with ioctl_makes_blocking [OF s f] s(1) show ?thesis by blast
qed


theorem sleeps_last_witness:
  "unat (sleep_ms 2) = 2000 \<and> unat (usleep_ms 999) = 0 \<and> unat (nanosleep_ms 3 5000000) = 3005"
  using sleeps_last [of 5000000 3 2 999] by simp

lemma do_io_wait_armed:
  assumes "addEvent me fails fd event None m = Inr (0, m')"
  obtains timer tm' where "do_io_wait now me fails fd event cb timeout (m, tm) = Inr (True, timer, m', tm')"
    and "timeout \<noteq> not 0 \<Longrightarrow> timer \<noteq> None"
proof (cases "addTimer now (unat timeout) cb False tm")
  case (fields f t tm2)
  with assms that show thesis
    by (cases "timeout = not 0") (simp_all add: do_io_wait_def Let_def)
qed

lemma sample_two:
  obtains m1 m2 where "addEvent (sample_caller 1) False 3 EV_READ None IOManager_init = Inr (0, m1)"
    and "addEvent (sample_caller 2) False 4 EV_READ None m1 = Inr (0, m2)"
proof -
  have cs: "m_fdContexts IOManager_init = map new_context [0..<32]"
    by (simp add: IOManager_init_def contextResize_def del: upt_rec_numeral)
  obtain fc m1 where m1: "arm_event (sample_caller 1) False 3 EV_READ None IOManager_init = Inr (0, m1)"
      "m_fdContexts m1 = (m_fdContexts IOManager_init)[3 := fc]"
    by (rule arm_event_new [of IOManager_init 3 EV_READ, OF _ _ sample_caller_ok])
      (simp_all add: cs del: upt_rec_numeral)
  obtain fc2 m2 where m2: "arm_event (sample_caller 2) False 4 EV_READ None m1 = Inr (0, m2)"
    by (rule arm_event_new [of m1 4 EV_READ, OF _ _ sample_caller_ok])
      (simp_all add: m1(2) cs del: upt_rec_numeral)
  show thesis
    by (rule that [of m1 m2]) (simp_all add: addEvent_def m1(2) cs m1(1) [unfolded One_nat_def] m2 del: upt_rec_numeral)
qed



theorem shared_deadline_loses_timeout_witness:
  "\<exists>t1 t2 m1 m2 tm1 tm2 r tm3.
     do_io_wait 0 (sample_caller 1) False 3 EV_READ 9 500 (IOManager_init, TimerManager_init 0) = Inr (True, Some t1, m1, tm1) \<and>
     do_io_wait 0 (sample_caller 2) False 4 EV_READ 10 500 (m1, tm1) = Inr (True, Some t2, m2, tm2) \<and>
     do_io_resume (Some t2) 0 tm2 = (r, tm3) \<and> t2 \<notin> set (m_timers tm2) \<and> t1 \<notin> set (m_timers tm3)"
proof -
  obtain m1 m2 where a: "addEvent (sample_caller 1) False 3 EV_READ None IOManager_init = Inr (0, m1)"
    "addEvent (sample_caller 2) False 4 EV_READ None m1 = Inr (0, m2)" by (rule sample_two)
  have n: "(500 :: u64) \<noteq> not 0" by simp
  obtain t1 tm1 where w1: "do_io_wait 0 (sample_caller 1) False 3 EV_READ 9 500 (IOManager_init, TimerManager_init 0) =
      Inr (True, Some t1, m1, tm1)"
    by (rule do_io_wait_armed [OF a(1)]) (use n in blast)
  obtain t2 tm2 where w2: "do_io_wait 0 (sample_caller 2) False 4 EV_READ 10 500 (m1, tm1) = Inr (True, Some t2, m2, tm2)"
    by (rule do_io_wait_armed [OF a(2)]) (use n in blast)
  obtain r tm3 where c: "do_io_resume (Some t2) 0 tm2 = (r, tm3)" by fastforce
  have f: "after_ms 0 (unat (500 :: u64)) \<notin> deadline (TimerManager_init 0) ` set (m_timers (TimerManager_init 0))"
    by (simp add: TimerManager_init_def)
  from shared_deadline_loses_timeout [OF TimerManager_init_inv f w1 w2 c] w1 w2 c show ?thesis by blast
qed

theorem unarmed_connect_succeeds_witness:
  "\<exists>fds waited timer m' tm'. connect_begin True 5 (-1) EINPROGRESS fds = Connect_pending \<and>
     connect_wait 0 (sample_caller 1) True 5 9 500 (IOManager_init, TimerManager_init 0) = Inr (waited, timer, m', tm') \<and>
     fst (connect_finish waited timer 0 (Some 0) tm') = (0, None)"
proof -
  obtain fds kf c where s: "fd_lookup 5 fds = Some c" "fx_isSocket c" "\<not> fx_isClosed c" "\<not> fx_userNonblock c"
    by (rule sample_socket)
  then have b: "connect_begin True 5 (-1) EINPROGRESS fds = Connect_pending" by (simp add: connect_begin_def)
  have "iom_inv IOManager_init" using iom_reach_books [OF iom_reach.start] by simp
  from addEvent_outcome [OF this, of 5 EV_WRITE "sample_caller 1" 7 None True] sample_caller_ok
  obtain r m' where a: "addEvent (sample_caller 1) True 5 EV_WRITE None IOManager_init = Inr (r, m')" by auto
  obtain f t tm2 where t: "addTimer 0 500 9 False (TimerManager_init 0) = (f, t, tm2)" by (rule prod_cases3)
  obtain waited timer m'' tm' where w: "connect_wait 0 (sample_caller 1) True 5 9 500 (IOManager_init, TimerManager_init 0) =
      Inr (waited, timer, m'', tm')"
    using a t by (cases "r = 0") (simp_all add: connect_wait_def do_io_wait_def Let_def)
  from unarmed_connect_succeeds [OF iom_reach.start _ sample_caller_ok b w] b w show ?thesis by auto
qed

end
