(* ===== verification/Sockets.thy ===== *)
theory Sockets
  imports Hooks Net_Address
begin

text \<open>
  \<open>src/util/socket.cc\<close>: the object around a descriptor. The answers of the system are arguments; what
  is opened, closed and set is recorded in a list.
\<close>

section \<open>The object\<close>

datatype sock_call = Opened int | Closed int | Option_set int int int

record socket_obj =
  sk_sock :: int
  sk_family :: u16
  sk_type :: int
  sk_protocol :: int
  sk_isConnected :: bool
  sk_localAddress :: "address option"
  sk_remoteAddress :: "address option"

definition SOCK_STREAM :: int where "SOCK_STREAM = 1"
definition SOCK_DGRAM :: int where "SOCK_DGRAM = 2"
definition SO_REUSEADDR :: int where "SO_REUSEADDR = 2"
definition IPPROTO_TCP :: int where "IPPROTO_TCP = 6"
definition TCP_NODELAY :: int where "TCP_NODELAY = 1"

definition Socket_new :: "u16 \<Rightarrow> int \<Rightarrow> int \<Rightarrow> socket_obj" where
  "Socket_new family type protocol =
     \<lparr>sk_sock = -1, sk_family = family, sk_type = type, sk_protocol = protocol, sk_isConnected = False,
      sk_localAddress = None, sk_remoteAddress = None\<rparr>"

definition isValid :: "socket_obj \<Rightarrow> bool" where
  "isValid s \<longleftrightarrow> sk_sock s \<noteq> -1"

definition initSock :: "socket_obj \<Rightarrow> sock_call list" where
  "initSock s =
     Option_set (sk_sock s) SOL_SOCKET SO_REUSEADDR #
     (if sk_type s = SOCK_STREAM then [Option_set (sk_sock s) IPPROTO_TCP TCP_NODELAY] else [])"

text \<open>\<open>fd\<close>: what \<open>socket\<close> returns.\<close>

definition newSock :: "int \<Rightarrow> socket_obj \<Rightarrow> socket_obj \<times> sock_call list" where
  "newSock fd s =
     (let s = s\<lparr>sk_sock := fd\<rparr> in (s, if sk_sock s \<noteq> -1 then Opened fd # initSock s else []))"

definition CreateTCP :: "address \<Rightarrow> socket_obj" where
  "CreateTCP addr = Socket_new (getFamily addr) SOCK_STREAM 0"

definition CreateUDP :: "int \<Rightarrow> address \<Rightarrow> socket_obj \<times> sock_call list" where
  "CreateUDP fd addr =
     (case newSock fd (Socket_new (getFamily addr) SOCK_DGRAM 0) of (s, calls) \<Rightarrow> (s\<lparr>sk_isConnected := True\<rparr>, calls))"

definition CreateTCPSocket :: socket_obj where "CreateTCPSocket = Socket_new AF_INET SOCK_STREAM 0"
definition CreateTCPSocket6 :: socket_obj where "CreateTCPSocket6 = Socket_new AF_INET6 SOCK_STREAM 0"
definition CreateUnixTCPSocket :: socket_obj where "CreateUnixTCPSocket = Socket_new AF_UNIX SOCK_STREAM 0"
definition CreateUnixUDPSocket :: socket_obj where "CreateUnixUDPSocket = Socket_new AF_UNIX SOCK_DGRAM 0"

definition CreateUDPSocket :: "int \<Rightarrow> socket_obj \<times> sock_call list" where
  "CreateUDPSocket fd =
     (case newSock fd (Socket_new AF_INET SOCK_DGRAM 0) of (s, calls) \<Rightarrow> (s\<lparr>sk_isConnected := True\<rparr>, calls))"

definition CreateUDPSocket6 :: "int \<Rightarrow> socket_obj \<times> sock_call list" where
  "CreateUDPSocket6 fd =
     (case newSock fd (Socket_new AF_INET6 SOCK_DGRAM 0) of (s, calls) \<Rightarrow> (s\<lparr>sk_isConnected := True\<rparr>, calls))"

text \<open>\<open>close\<close> returns true when there was nothing to close. The destructor calls it.\<close>

definition Socket_close :: "socket_obj \<Rightarrow> bool \<times> socket_obj \<times> sock_call list" where
  "Socket_close s =
     (if \<not> sk_isConnected s \<and> sk_sock s = -1 then (True, s, [])
      else (False, s\<lparr>sk_isConnected := False, sk_sock := -1\<rparr>, if sk_sock s \<noteq> -1 then [Closed (sk_sock s)] else []))"

section \<open>Addresses\<close>

text \<open>
  \<open>answer\<close>: the address and its length that \<open>getpeername\<close> or \<open>getsockname\<close> give, \<open>None\<close> when the call
  fails. An unknown address is returned then, and not kept.
\<close>

definition cached_address ::
  "u16 \<Rightarrow> (address \<times> u32) option \<Rightarrow> address option \<Rightarrow> address \<times> address option" where
  "cached_address family answer cache =
     (case cache of
        Some a \<Rightarrow> (a, cache)
      | None \<Rightarrow>
          (case answer of
             None \<Rightarrow> (UnknownAddress family, None)
           | Some (a, len) \<Rightarrow>
               (let a = (case a of UnixAddress u \<Rightarrow> if family = AF_UNIX then UnixAddress (setAddrLen len u) else a | _ \<Rightarrow> a)
                in (a, Some a))))"

definition getRemoteAddress :: "(address \<times> u32) option \<Rightarrow> socket_obj \<Rightarrow> address \<times> socket_obj" where
  "getRemoteAddress answer s =
     (case cached_address (sk_family s) answer (sk_remoteAddress s) of (a, c) \<Rightarrow> (a, s\<lparr>sk_remoteAddress := c\<rparr>))"

definition getLocalAddress :: "(address \<times> u32) option \<Rightarrow> socket_obj \<Rightarrow> address \<times> socket_obj" where
  "getLocalAddress answer s =
     (case cached_address (sk_family s) answer (sk_localAddress s) of (a, c) \<Rightarrow> (a, s\<lparr>sk_localAddress := c\<rparr>))"

section \<open>Connecting, binding, accepting\<close>

text \<open>What the system answers during one call.\<close>

record sock_answers =
  an_fd :: int
  an_result :: int
  an_peer :: "(address \<times> u32) option"
  an_name :: "(address \<times> u32) option"

text \<open>
  \<open>connect\<close>; \<open>an_fd\<close> is what \<open>socket\<close> returns, \<open>an_result\<close> what \<open>connect\<close> or \<open>connect_with_timeout\<close> does.
\<close>

definition Socket_connect :: "sock_answers \<Rightarrow> address \<Rightarrow> socket_obj \<Rightarrow> bool \<times> socket_obj \<times> sock_call list" where
  "Socket_connect an addr s =
     (let s = s\<lparr>sk_remoteAddress := Some addr\<rparr>;
          (s, calls) = (if \<not> isValid s then newSock (an_fd an) s else (s, []))
      in if \<not> isValid s then (False, s, calls)
         else if getFamily addr \<noteq> sk_family s then (False, s, calls)
         else if an_result an \<noteq> 0
         then (case Socket_close s of (_, s, calls') \<Rightarrow> (False, s, calls @ calls'))
         else
          (let s = s\<lparr>sk_isConnected := True\<rparr>;
               s = snd (getRemoteAddress (an_peer an) s);
               s = snd (getLocalAddress (an_name an) s)
           in (True, s, calls)))"

definition Socket_reconnect :: "sock_answers \<Rightarrow> socket_obj \<Rightarrow> bool \<times> socket_obj \<times> sock_call list" where
  "Socket_reconnect an s =
     (case sk_remoteAddress s of
        None \<Rightarrow> (False, s, [])
      | Some addr \<Rightarrow> Socket_connect an addr (s\<lparr>sk_localAddress := None\<rparr>))"

text \<open>
  \<open>bind\<close>; for a Unix address the code first tries to connect a socket of its own, which is destroyed when
  it goes out of scope: somebody listens there already when that succeeds.
\<close>

definition unix_in_use :: "sock_answers \<Rightarrow> address \<Rightarrow> bool \<times> sock_call list" where
  "unix_in_use probe addr =
     (case addr of
        UnixAddress u \<Rightarrow>
          (case Socket_connect probe addr CreateUnixTCPSocket of
             (ok, p, c1) \<Rightarrow> (case Socket_close p of (_, _, c2) \<Rightarrow> (ok, c1 @ c2)))
      | _ \<Rightarrow> (False, []))"

definition Socket_bind ::
  "sock_answers \<Rightarrow> sock_answers \<Rightarrow> address \<Rightarrow> socket_obj \<Rightarrow> bool \<times> socket_obj \<times> sock_call list" where
  "Socket_bind probe an addr s =
     (let (s, calls) = (if \<not> isValid s then newSock (an_fd an) s else (s, []))
      in if getFamily addr \<noteq> sk_family s then (False, s, calls)
         else
           (case unix_in_use probe addr of
              (True, calls') \<Rightarrow> (False, s, calls @ calls')
            | (False, calls') \<Rightarrow>
                if an_result an \<noteq> 0 then (False, s, calls @ calls')
                else (True, snd (getLocalAddress (an_name an) s), calls @ calls')))"

definition Socket_listen :: "int \<Rightarrow> socket_obj \<Rightarrow> bool" where
  "Socket_listen result s = (if \<not> isValid s then False else result = 0)"

definition Socket_init ::
  "sock_answers \<Rightarrow> int \<Rightarrow> fd_ctx option list \<Rightarrow> socket_obj \<Rightarrow> bool \<times> socket_obj \<times> sock_call list" where
  "Socket_init an sock fds s =
     (case fd_lookup sock fds of
        None \<Rightarrow> (False, s, [])
      | Some c \<Rightarrow>
          if fx_isSocket c \<and> \<not> fx_isClosed c
          then (let s = s\<lparr>sk_sock := sock, sk_isConnected := True\<rparr>;
                    calls = initSock s;
                    s = snd (getLocalAddress (an_name an) s);
                    s = snd (getRemoteAddress (an_peer an) s)
                in (True, s, calls))
          else (False, s, []))"

text \<open>\<open>an_fd\<close> is what \<open>accept\<close> returns; a new descriptor is the caller's from then on.\<close>

definition Socket_accept ::
  "sock_answers \<Rightarrow> fd_ctx option list \<Rightarrow> socket_obj \<Rightarrow> socket_obj option \<times> sock_call list" where
  "Socket_accept an fds s =
     (let sock = Socket_new (sk_family s) (sk_type s) (sk_protocol s)
      in if an_fd an = -1 then (None, [])
         else (case Socket_init an (an_fd an) fds sock of
                 (True, sock, calls) \<Rightarrow> (Some sock, Opened (an_fd an) # calls)
               | (False, sock, calls) \<Rightarrow> (None, Opened (an_fd an) # calls)))"

section \<open>Sending and receiving\<close>

text \<open>
  The system call each function makes, its arguments and the descriptor; without one the function returns
  -1 (\<open>None\<close>), otherwise the result of the call. Buffers to receive into are given by their lengths.
\<close>

record 'b msghdr =
  msg_name :: "(address \<times> u32) option"
  msg_iov :: "'b list"

datatype transfer =
    Call_writev "string list"
  | Call_send string int
  | Call_sendto string int address u32
  | Call_sendmsg "string msghdr" int
  | Call_recv nat int
  | Call_recvfrom nat int address u32
  | Call_recvmsg "nat msghdr" int

definition when_connected :: "transfer \<Rightarrow> socket_obj \<Rightarrow> (int \<times> transfer) option" where
  "when_connected call s = (if sk_isConnected s then Some (sk_sock s, call) else None)"

definition Socket_writev :: "string list \<Rightarrow> socket_obj \<Rightarrow> (int \<times> transfer) option" where
  "Socket_writev iov = when_connected (Call_writev iov)"

definition Socket_send :: "string \<Rightarrow> int \<Rightarrow> socket_obj \<Rightarrow> (int \<times> transfer) option" where
  "Socket_send buffer flags = when_connected (Call_send buffer flags)"

definition Socket_send_iov :: "string list \<Rightarrow> int \<Rightarrow> socket_obj \<Rightarrow> (int \<times> transfer) option" where
  "Socket_send_iov buffers flags = when_connected (Call_sendmsg \<lparr>msg_name = None, msg_iov = buffers\<rparr> flags)"

definition Socket_sendTo :: "string \<Rightarrow> address \<Rightarrow> int \<Rightarrow> socket_obj \<Rightarrow> (int \<times> transfer) option" where
  "Socket_sendTo buffer dest flags = when_connected (Call_sendto buffer flags dest (getAddrLen dest))"

definition Socket_sendTo_iov :: "string list \<Rightarrow> address \<Rightarrow> int \<Rightarrow> socket_obj \<Rightarrow> (int \<times> transfer) option" where
  "Socket_sendTo_iov buffers dest flags =
     when_connected (Call_sendmsg \<lparr>msg_name = Some (dest, getAddrLen dest), msg_iov = buffers\<rparr> flags)"

definition Socket_recv :: "nat \<Rightarrow> int \<Rightarrow> socket_obj \<Rightarrow> (int \<times> transfer) option" where
  "Socket_recv n flags = when_connected (Call_recv n flags)"

definition Socket_recv_iov :: "nat list \<Rightarrow> int \<Rightarrow> socket_obj \<Rightarrow> (int \<times> transfer) option" where
  "Socket_recv_iov buffers flags = when_connected (Call_recvmsg \<lparr>msg_name = None, msg_iov = buffers\<rparr> flags)"

definition Socket_recvFrom :: "nat \<Rightarrow> address \<Rightarrow> int \<Rightarrow> socket_obj \<Rightarrow> (int \<times> transfer) option" where
  "Socket_recvFrom n src flags = when_connected (Call_recvfrom n flags src (getAddrLen src))"

definition Socket_recvFrom_iov :: "nat list \<Rightarrow> address \<Rightarrow> int \<Rightarrow> socket_obj \<Rightarrow> (int \<times> transfer) option" where
  "Socket_recvFrom_iov buffers src flags =
     when_connected (Call_recvmsg \<lparr>msg_name = Some (src, getAddrLen src), msg_iov = buffers\<rparr> flags)"

text \<open>\<open>answer\<close>: what \<open>getsockopt\<close> gives, \<open>None\<close> when it fails.\<close>

definition getError :: "int option \<Rightarrow> int \<Rightarrow> int" where
  "getError answer err = (case answer of Some e \<Rightarrow> e | None \<Rightarrow> err)"

definition cancelRead :: "bool \<Rightarrow> socket_obj \<Rightarrow> io_manager \<Rightarrow> fault + bool \<times> io_manager" where
  "cancelRead fails s = cancelEvent fails (sk_sock s) EV_READ"

definition cancelWrite :: "bool \<Rightarrow> socket_obj \<Rightarrow> io_manager \<Rightarrow> fault + bool \<times> io_manager" where
  "cancelWrite fails s = cancelEvent fails (sk_sock s) EV_WRITE"

definition cancelAccept :: "bool \<Rightarrow> socket_obj \<Rightarrow> io_manager \<Rightarrow> fault + bool \<times> io_manager" where
  "cancelAccept fails s = cancelEvent fails (sk_sock s) EV_READ"

definition Socket_cancelAll :: "bool \<Rightarrow> socket_obj \<Rightarrow> io_manager \<Rightarrow> fault + bool \<times> io_manager" where
  "Socket_cancelAll fails s = cancelAll fails (sk_sock s)"

text \<open>On a closed socket the cancelling functions read before the start of the table of contexts.\<close>

lemma cancel_closed_out_of_bounds:
  assumes "\<not> isValid s"
  shows "cancelRead fails s m = Inl Out_of_bounds" "cancelWrite fails s m = Inl Out_of_bounds"
    "cancelAccept fails s m = Inl Out_of_bounds" "Socket_cancelAll fails s m = Inl Out_of_bounds"
  using assms
  by (simp_all add: isValid_def cancelRead_def cancelWrite_def cancelAccept_def Socket_cancelAll_def cancelEvent_def
      cancelAll_def find_context_def)

text \<open>\<open>dump\<close>, which is also what \<open>toString\<close> and the output operator give.\<close>

definition dump_as :: "string \<Rightarrow> socket_obj \<Rightarrow> string" where
  "dump_as name s =
     ''['' @ name @ '' sock='' @ show_int (sk_sock s) @ '' is_connected='' @ (if sk_isConnected s then ''1'' else ''0'') @
     '' family='' @ show_nat (unat (sk_family s)) @ '' type='' @ show_int (sk_type s) @ '' protocol='' @ show_int (sk_protocol s) @
     (case sk_localAddress s of None \<Rightarrow> [] | Some a \<Rightarrow> '' local_address='' @ toString a) @
     (case sk_remoteAddress s of None \<Rightarrow> [] | Some a \<Rightarrow> '' remote_address='' @ toString a) @ '']''"

definition Socket_dump :: "socket_obj \<Rightarrow> string" where
  "Socket_dump = dump_as ''Socket''"

section \<open>Timeouts\<close>

text \<open>The \<open>timeval\<close>, whose members are converted with \<open>int(...)\<close>.\<close>

definition timeval_of :: "int \<Rightarrow> int \<times> int" where
  "timeval_of v = (sint (of_int (v sdiv 1000) :: u32), sint (of_int (v smod 1000 * 1000) :: u32))"

definition setTimeout ::
  "bool \<Rightarrow> int \<Rightarrow> int \<Rightarrow> socket_obj \<Rightarrow> fd_ctx option list \<Rightarrow> fd_ctx option list \<times> syscall list" where
  "setTimeout enable optname v s fds = hook_setsockopt enable (sk_sock s) SOL_SOCKET optname (timeval_of v) fds"

definition getTimeout :: "int \<Rightarrow> socket_obj \<Rightarrow> fd_ctx option list \<Rightarrow> int" where
  "getTimeout optname s fds =
     (case fd_lookup (sk_sock s) fds of Some c \<Rightarrow> sint (FdCtx_getTimeout optname c) | None \<Rightarrow> -1)"

lemma sint_of_int64: "- (2 ^ 63) \<le> v \<Longrightarrow> v < 2 ^ 63 \<Longrightarrow> sint (of_int v :: u64) = v"
  by (simp add: signed_of_int signed_take_bit_int_eq_self)

lemma sint_of_int32_eq: "- (2 ^ 31) \<le> v \<Longrightarrow> v < 2 ^ 31 \<Longrightarrow> sint (of_int v :: u32) = v"
  by (simp add: signed_of_int signed_take_bit_int_eq_self)

lemma timeval_exact:
  assumes "\<bar>v\<bar> < 2 ^ 31 * 1000"
  shows "fst (timeval_of v) * 1000 + snd (timeval_of v) sdiv 1000 = v"
proof -
  have q: "v sdiv 1000 * 1000 + v smod 1000 = v" by (rule sdiv_mult_smod_eq)
  have "\<bar>v sdiv 1000\<bar> < 2 ^ 31"
    using assms by (cases "v = 0") (simp_all add: signed_divide_int_def abs_mult)
  then have f: "fst (timeval_of v) = v sdiv 1000"
    unfolding timeval_of_def fst_conv abs_less_iff by (intro sint_of_int32_eq) linarith+
  have "\<bar>v smod 1000\<bar> < 1000" by (cases "v = 0") (simp_all add: signed_modulo_int_def abs_mult)
  then have "- (2 ^ 31) \<le> v smod 1000 * 1000" "v smod 1000 * 1000 < 2 ^ 31" by (simp_all add: abs_less_iff)
  then have "snd (timeval_of v) = v smod 1000 * 1000" unfolding timeval_of_def snd_conv by (rule sint_of_int32_eq)
  moreover have "(v smod 1000 * 1000) sdiv 1000 = v smod 1000" by (simp add: signed_divide_int_def sgn_mult abs_mult mult_sgn_abs)
  ultimately show ?thesis using q f by simp
qed

lemma setTimeout_table:
  assumes "fd_lookup (sk_sock s) fds = Some c" and "optname \<in> {SO_RCVTIMEO, SO_SNDTIMEO}" and "\<bar>v\<bar> < 2 ^ 31 * 1000"
  shows "fst (setTimeout True optname v s fds) = fd_store (sk_sock s) (FdCtx_setTimeout optname (of_int v) c) fds"
  using assms timeval_exact [OF assms(3)] by (auto simp: setTimeout_def hook_setsockopt_def)

lemma setTimeout_get:
  assumes "fd_lookup (sk_sock s) fds \<noteq> None" and "optname \<in> {SO_RCVTIMEO, SO_SNDTIMEO}" and "\<bar>v\<bar> < 2 ^ 31 * 1000"
  shows "getTimeout optname s (fst (setTimeout True optname v s fds)) = v"
proof -
  obtain c where c: "fd_lookup (sk_sock s) fds = Some c" using assms(1) by auto
  have "sint (of_int v :: u64) = v" using assms(3) by (intro sint_of_int64) auto
  then show ?thesis unfolding setTimeout_table [OF c assms(2,3)] using c
    by (simp add: getTimeout_def fdt.lookup_store FdCtx_getTimeout_def FdCtx_setTimeout_def)
qed

text \<open>
  A timeout that is set is the one that is read back, in milliseconds, for every value a \<open>timeval\<close>
  with an \<open>int\<close> can hold, negative ones included; the other timeout of the descriptor, and all other
  descriptors, keep theirs.
\<close>

theorem timeout_roundtrip:
  assumes "fd_lookup (sk_sock s) fds \<noteq> None" and "optname \<in> {SO_RCVTIMEO, SO_SNDTIMEO}" and "\<bar>v\<bar> < 2 ^ 31 * 1000"
    and "setTimeout True optname v s fds = (fds', calls)"
  shows "getTimeout optname s fds' = v \<and>
    (\<forall>other \<in> {SO_RCVTIMEO, SO_SNDTIMEO}. other \<noteq> optname \<longrightarrow> getTimeout other s fds' = getTimeout other s fds) \<and>
    (\<forall>fd. fd \<noteq> sk_sock s \<longrightarrow> fd_lookup fd fds' = fd_lookup fd fds)"
proof -
  obtain c where c: "fd_lookup (sk_sock s) fds = Some c" using assms(1) by auto
  have "fds' = fd_store (sk_sock s) (FdCtx_setTimeout optname (of_int v) c) fds"
    using setTimeout_table [OF c assms(2,3)] assms(4) by simp
  then have look: "fd_lookup fd fds' = (if fd = sk_sock s then Some (FdCtx_setTimeout optname (of_int v) c) else fd_lookup fd fds)" for fd
    using c by (simp add: fdt.lookup_store)
  have "getTimeout optname s fds' = v" using setTimeout_get [OF assms(1-3)] assms(4) by simp
  then show ?thesis using assms(2) c
    by (auto simp: getTimeout_def look FdCtx_getTimeout_def FdCtx_setTimeout_def SO_RCVTIMEO_def SO_SNDTIMEO_def)
qed

definition demo_ctx :: fd_ctx where
  "demo_ctx = \<lparr>fx_isInit = True, fx_isSocket = True, fx_sysNonblock = True, fx_userNonblock = False,
     fx_isClosed = False, fx_fd = 1, fx_recvTimeout = not 0, fx_sendTimeout = not 0\<rparr>"

theorem timeout_roundtrip_witness:
  "getTimeout SO_RCVTIMEO ((Socket_new AF_INET SOCK_STREAM 0)\<lparr>sk_sock := 1\<rparr>)
     (fst (setTimeout True SO_RCVTIMEO (- 2500) ((Socket_new AF_INET SOCK_STREAM 0)\<lparr>sk_sock := 1\<rparr>) [None, Some demo_ctx])) = - 2500"
  using timeout_roundtrip [OF _ _ _ prod.collapse [symmetric], of "(Socket_new AF_INET SOCK_STREAM 0)\<lparr>sk_sock := 1\<rparr>"
      "[None, Some demo_ctx]" SO_RCVTIMEO "- 2500"]
  by (simp add: fd_lookup_def behind_end_def)

section \<open>Descriptors\<close>

text \<open>What a program does with one object.\<close>

datatype socket_op =
    Do_connect sock_answers address
  | Do_reconnect sock_answers
  | Do_bind sock_answers sock_answers address
  | Do_close

fun socket_do :: "socket_op \<Rightarrow> socket_obj \<Rightarrow> bool \<times> socket_obj \<times> sock_call list" where
  "socket_do (Do_connect an addr) s = Socket_connect an addr s"
| "socket_do (Do_reconnect an) s = Socket_reconnect an s"
| "socket_do (Do_bind probe an addr) s = Socket_bind probe an addr s"
| "socket_do Do_close s = Socket_close s"

fun socket_run :: "socket_op list \<Rightarrow> socket_obj \<Rightarrow> socket_obj \<times> sock_call list" where
  "socket_run [] s = (s, [])"
| "socket_run (x # xs) s =
     (case socket_do x s of (_, s, calls) \<Rightarrow> (case socket_run xs s of (s, calls') \<Rightarrow> (s, calls @ calls')))"

fun opened_fds :: "sock_call list \<Rightarrow> int list" where
  "opened_fds [] = []"
| "opened_fds (Opened fd # cs) = fd # opened_fds cs"
| "opened_fds (_ # cs) = opened_fds cs"

fun closed_fds :: "sock_call list \<Rightarrow> int list" where
  "closed_fds [] = []"
| "closed_fds (Closed fd # cs) = fd # closed_fds cs"
| "closed_fds (_ # cs) = closed_fds cs"

lemma fds_append [simp]:
  "opened_fds (xs @ ys) = opened_fds xs @ opened_fds ys" "closed_fds (xs @ ys) = closed_fds xs @ closed_fds ys"
  by (induction xs rule: opened_fds.induct; simp)+ 

text \<open>The descriptor an object has.\<close>

definition live_fds :: "socket_obj \<Rightarrow> int multiset" where
  "live_fds s = (if isValid s then {#sk_sock s#} else {#})"

definition fds_balance :: "socket_obj \<Rightarrow> socket_obj \<Rightarrow> sock_call list \<Rightarrow> bool" where
  "fds_balance s s' calls \<longleftrightarrow> mset (opened_fds calls) + live_fds s = mset (closed_fds calls) + live_fds s' \<and>
     ((sk_isConnected s \<longrightarrow> isValid s) \<longrightarrow> (sk_isConnected s' \<longrightarrow> isValid s'))"

lemma initSock_fds [simp]: "opened_fds (initSock s) = []" "closed_fds (initSock s) = []"
  by (simp_all add: initSock_def)

lemma getAddress_keeps [simp]:
  "sk_sock (snd (getLocalAddress an s)) = sk_sock s" "sk_isConnected (snd (getLocalAddress an s)) = sk_isConnected s"
  "sk_sock (snd (getRemoteAddress an s)) = sk_sock s" "sk_isConnected (snd (getRemoteAddress an s)) = sk_isConnected s"
  by (simp_all add: getLocalAddress_def getRemoteAddress_def split: prod.split)

lemma fds_balance_refl: "fds_balance s s []"
  by (simp add: fds_balance_def)

lemma fds_balance_trans:
  assumes "fds_balance s s' c" and "fds_balance s' s'' c'"
  shows "fds_balance s s'' (c @ c')"
proof -
  have "mset (opened_fds c) + live_fds s + mset (opened_fds c') = mset (closed_fds c) + (mset (opened_fds c') + live_fds s')"
    using assms(1) by (simp add: fds_balance_def)
  also have "\<dots> = mset (closed_fds c) + (mset (closed_fds c') + live_fds s'')" using assms(2) by (simp add: fds_balance_def)
  finally show ?thesis using assms by (simp add: fds_balance_def ac_simps)
qed

lemma connect_balance: "Socket_connect an addr s = (ok, s', calls) \<Longrightarrow> fds_balance s s' calls"
  by (auto simp: Socket_connect_def Let_def newSock_def Socket_close_def fds_balance_def live_fds_def isValid_def
      split: if_splits prod.splits)

lemma close_balance: "Socket_close s = (r, s', calls) \<Longrightarrow> fds_balance s s' calls \<and> live_fds s' = {#}"
  by (auto simp: Socket_close_def fds_balance_def live_fds_def isValid_def split: if_splits)

lemma unix_in_use_silent: "unix_in_use probe addr = (r, calls) \<Longrightarrow> mset (opened_fds calls) = mset (closed_fds calls)"
proof -
  assume h: "unix_in_use probe addr = (r, calls)"
  have "mset (opened_fds (k1 @ k2)) = mset (closed_fds (k1 @ k2))"
    if "Socket_connect probe addr CreateUnixTCPSocket = (b, p, k1)" "Socket_close p = (b', p', k2)" for b p k1 b' p' k2
  proof -
    have "fds_balance CreateUnixTCPSocket p' (k1 @ k2)" "live_fds p' = {#}"
      using fds_balance_trans connect_balance [OF that(1)] close_balance [OF that(2)] by blast+
    moreover have "live_fds CreateUnixTCPSocket = {#}"
      by (simp add: live_fds_def isValid_def CreateUnixTCPSocket_def Socket_new_def)
    ultimately show ?thesis by (simp add: fds_balance_def)
  qed
  with h show ?thesis by (auto simp: unix_in_use_def split: address.splits prod.splits)
qed

lemma newSock_balance: "\<not> isValid s \<Longrightarrow> newSock fd s = (s', calls) \<Longrightarrow> fds_balance s s' calls"
  by (auto simp: newSock_def fds_balance_def live_fds_def isValid_def Let_def)

lemma fds_balance_silent:
  "fds_balance s s1 c \<Longrightarrow> mset (opened_fds k) = mset (closed_fds k) \<Longrightarrow> sk_sock s2 = sk_sock s1 \<Longrightarrow>
     sk_isConnected s2 = sk_isConnected s1 \<Longrightarrow> fds_balance s s2 (c @ k)"
  by (simp add: fds_balance_def live_fds_def isValid_def split: if_splits)

lemma bind_balance:
  assumes h: "Socket_bind probe an addr s = (ok, s', calls)"
  shows "fds_balance s s' calls"
proof -
  obtain s1 c1 where n: "(if \<not> isValid s then newSock (an_fd an) s else (s, [])) = (s1, c1)" by fastforce
  obtain r k where u: "unix_in_use probe addr = (r, k)" by fastforce
  have "fds_balance s s1 c1"
    using n newSock_balance [of s] fds_balance_refl by (auto split: if_splits)
  then have "fds_balance s s1 c1" "fds_balance s s1 (c1 @ k)" "fds_balance s (snd (getLocalAddress (an_name an) s1)) (c1 @ k)"
    using unix_in_use_silent [OF u] by (auto intro: fds_balance_silent)
  then show ?thesis using h u by (auto simp: Socket_bind_def n split: if_splits bool.splits)
qed

lemma reconnect_balance: "Socket_reconnect an s = (ok, s', calls) \<Longrightarrow> fds_balance s s' calls"
  using connect_balance [of an _ "s\<lparr>sk_localAddress := None\<rparr>"] fds_balance_refl [of s]
  by (fastforce simp: Socket_reconnect_def fds_balance_def live_fds_def isValid_def split: option.splits)

lemma do_balance: "socket_do x s = (ok, s', calls) \<Longrightarrow> fds_balance s s' calls"
  by (cases x) (auto dest: connect_balance reconnect_balance bind_balance close_balance)

lemma run_balance: "socket_run xs s = (s', calls) \<Longrightarrow> fds_balance s s' calls"
  by (induction xs arbitrary: s calls)
    (auto intro: fds_balance_refl fds_balance_trans dest: do_balance split: prod.splits)

text \<open>
  C25: Whatever a program does with a socket object, by connecting, reconnecting, binding and closing in any
  order and with any answers of the system, every descriptor that was opened for it is closed once or is
  the one it still holds; what it sends or receives then goes to that descriptor; and its destructor, which
  closes it, leaves none open.
\<close>

theorem descriptors_conserved:
  assumes "socket_run xs (Socket_new family type protocol) = (s, calls)" and "Socket_close s = (b, s', calls')"
  shows "mset (opened_fds calls) = mset (closed_fds calls) + live_fds s \<and>
    (\<forall>call. when_connected call s \<noteq> None \<longrightarrow> (\<exists>fd. when_connected call s = Some (fd, call) \<and> live_fds s = {#fd#})) \<and>
    mset (opened_fds (calls @ calls')) = mset (closed_fds (calls @ calls'))"
proof -
  have new: "live_fds (Socket_new family type protocol) = {#}" "\<not> sk_isConnected (Socket_new family type protocol)"
    by (simp_all add: live_fds_def isValid_def Socket_new_def)
  have bal: "fds_balance (Socket_new family type protocol) s calls" by (rule run_balance [OF assms(1)])
  with new have c: "mset (opened_fds calls) = mset (closed_fds calls) + live_fds s" "sk_isConnected s \<longrightarrow> isValid s"
    by (simp_all add: fds_balance_def)
  moreover have "mset (opened_fds calls') + live_fds s = mset (closed_fds calls')"
    using close_balance [OF assms(2)] by (simp add: fds_balance_def)
  ultimately show ?thesis by (auto simp: when_connected_def live_fds_def ac_simps)
qed

definition demo_answers :: "int \<Rightarrow> int \<Rightarrow> sock_answers" where
  "demo_answers fd result =
     \<lparr>an_fd = fd, an_result = result, an_peer = Some (IPv4Address (IPv4_new 1 80), 16),
      an_name = Some (IPv4Address (IPv4_new 2 4000), 16)\<rparr>"

lemmas socket_eval = demo_answers_def Socket_connect_def Socket_reconnect_def Socket_close_def Socket_bind_def
  unix_in_use_def newSock_def initSock_def isValid_def Socket_new_def getFamily.simps AF_INET_def
  getRemoteAddress_def getLocalAddress_def cached_address_def live_fds_def when_connected_def

theorem descriptors_conserved_witness:
  "mset (opened_fds [Opened 5, Option_set 5 1 2, Option_set 5 6 1, Closed 5, Opened 6, Option_set 6 1 2, Option_set 6 6 1]) =
     mset (closed_fds [Opened 5, Option_set 5 1 2, Option_set 5 6 1, Closed 5, Opened 6, Option_set 6 1 2, Option_set 6 6 1]) + {#6#}"
  using descriptors_conserved [of "[Do_connect (demo_answers 5 (-1)) (IPv4Address (IPv4_new 1 80)), Do_reconnect (demo_answers 6 0)]" 2 1 0]
  by (simp add: socket_eval SOCK_STREAM_def SOL_SOCKET_def SO_REUSEADDR_def IPPROTO_TCP_def TCP_NODELAY_def)

text \<open>
  \<open>connect\<close> succeeds exactly when there is a descriptor, the family is right and the system connects;
  then the object is connected to the address asked for. A failed call closes the descriptor but keeps the
  address, so that a later \<open>reconnect\<close> tries the same one; only the wrong family leaves it open. The local
  address is read from the system unless the object still has one from an earlier connection: \<open>connect\<close> keeps
  that one, although it may be another's, and \<open>reconnect\<close> drops it.
\<close>

theorem connect_outcome:
  assumes "Socket_connect an addr s = (ok, s', calls)"
  shows "(ok \<longleftrightarrow> (isValid s \<or> an_fd an \<noteq> -1) \<and> getFamily addr = sk_family s \<and> an_result an = 0) \<and>
    sk_remoteAddress s' = Some addr \<and> sk_family s' = sk_family s \<and>
    (ok \<longrightarrow> sk_isConnected s' \<and> isValid s' \<and>
       sk_localAddress s' = snd (cached_address (sk_family s) (an_name an) (sk_localAddress s))) \<and>
    (\<not> ok \<longrightarrow> isValid s' \<longrightarrow> getFamily addr \<noteq> sk_family s) \<and>
    (\<forall>an'. Socket_reconnect an' s' = Socket_connect an' addr (s'\<lparr>sk_localAddress := None\<rparr>))"
proof -
  define s1 where "s1 = (let s = s\<lparr>sk_remoteAddress := Some addr\<rparr> in if isValid s then s else s\<lparr>sk_sock := an_fd an\<rparr>)"
  have s1: "isValid s1 \<longleftrightarrow> isValid s \<or> an_fd an \<noteq> -1" "sk_remoteAddress s1 = Some addr" "sk_family s1 = sk_family s"
      "sk_localAddress s1 = sk_localAddress s"
    by (simp_all add: s1_def isValid_def Let_def)
  have dead: "\<not> isValid s2" "sk_remoteAddress s2 = sk_remoteAddress s1" "sk_family s2 = sk_family s1"
    if "Socket_close s1 = (x, s2, k)" for x s2 k
    using that by (auto simp: Socket_close_def isValid_def split: if_splits)
  define calls1 where "calls1 = (if isValid s then [] else snd (newSock (an_fd an) (s\<lparr>sk_remoteAddress := Some addr\<rparr>)))"
  have c: "Socket_connect an addr s =
      (if \<not> isValid s1 then (False, s1, calls1) else if getFamily addr \<noteq> sk_family s1 then (False, s1, calls1)
       else if an_result an \<noteq> 0 then (case Socket_close s1 of (_, s, calls') \<Rightarrow> (False, s, calls1 @ calls'))
       else (True, snd (getLocalAddress (an_name an) (snd (getRemoteAddress (an_peer an) (s1\<lparr>sk_isConnected := True\<rparr>)))), calls1))"
    by (cases "isValid s") (simp_all add: Socket_connect_def s1_def calls1_def newSock_def Let_def isValid_def)
  have r: "\<forall>an'. Socket_reconnect an' s' = Socket_connect an' addr (s'\<lparr>sk_localAddress := None\<rparr>)"
    if "sk_remoteAddress s' = Some addr"
    using that by (simp add: Socket_reconnect_def)
  have g: "snd (getLocalAddress (an_name an) (snd (getRemoteAddress (an_peer an) (s1\<lparr>sk_isConnected := True\<rparr>)))) =
      s1\<lparr>sk_isConnected := True, sk_localAddress := snd (cached_address (sk_family s) (an_name an) (sk_localAddress s))\<rparr>"
    using s1 by (simp add: getLocalAddress_def getRemoteAddress_def cached_address_def [of _ _ "Some addr"] split: prod.split)
  consider (none) "\<not> isValid s1" | (family) "isValid s1" "getFamily addr \<noteq> sk_family s1"
    | (refused) "isValid s1" "getFamily addr = sk_family s1" "an_result an \<noteq> 0"
    | (good) "isValid s1" "getFamily addr = sk_family s1" "an_result an = 0" by blast
  then show ?thesis
  proof cases
    case refused
    obtain x s2 k where k: "Socket_close s1 = (x, s2, k)" by (cases "Socket_close s1")
    show ?thesis using assms refused s1 r dead [OF k] by (simp add: c k)
  next
    case good
    have s': "ok" "s' = s1\<lparr>sk_isConnected := True, sk_localAddress := snd (cached_address (sk_family s) (an_name an) (sk_localAddress s))\<rparr>"
      using assms good by (simp_all add: c g)
    moreover have "isValid s'" using good(1) by (simp add: s' isValid_def)
    ultimately show ?thesis using good s1 r by simp
  qed (use assms s1 r in \<open>simp_all add: c\<close>)
qed

lemma triple_collapse: "x = (fst x, fst (snd x), snd (snd x))"
  by simp

theorem connect_outcome_witness:
  "fst (Socket_connect (demo_answers 5 0) (IPv4Address (IPv4_new 9 90))
     ((Socket_new AF_INET SOCK_STREAM 0)\<lparr>sk_localAddress := Some (IPv4Address (IPv4_new 3 10))\<rparr>)) \<and>
   sk_localAddress (fst (snd (Socket_connect (demo_answers 5 0) (IPv4Address (IPv4_new 9 90))
     ((Socket_new AF_INET SOCK_STREAM 0)\<lparr>sk_localAddress := Some (IPv4Address (IPv4_new 3 10))\<rparr>)))) =
     Some (IPv4Address (IPv4_new 3 10))"
  using connect_outcome [OF triple_collapse, of "demo_answers 5 0" "IPv4Address (IPv4_new 9 90)" "(Socket_new AF_INET SOCK_STREAM 0)\<lparr>sk_localAddress := Some (IPv4Address (IPv4_new 3 10))\<rparr>"]
  by (simp add: demo_answers_def Socket_new_def cached_address_def)

end
