(* ===== verification/Ssl_Sockets.thy ===== *)
theory Ssl_Sockets
  imports Sockets
begin

text \<open>
  \<open>SSLSocket\<close> of \<open>src/util/socket.cc\<close>: a socket with a TLS context and session. What OpenSSL answers is an
  argument; a context is a value of the type \<open>'c\<close>, a session the context and descriptor it was made with.
\<close>

section \<open>The object\<close>

record 'c ssl_socket =
  ss_base :: socket_obj
  ss_ctx :: "'c option"
  ss_ssl :: "('c \<times> int) option"

text \<open>A session is asked for without a context: \<open>SSL_new\<close> gives none, and it is used.\<close>

datatype ssl_fault = Null_session

definition SSLSocket_new :: "u16 \<Rightarrow> int \<Rightarrow> int \<Rightarrow> 'c ssl_socket" where
  "SSLSocket_new family type protocol = \<lparr>ss_base = Socket_new family type protocol, ss_ctx = None, ss_ssl = None\<rparr>"

definition SSL_CreateTCP :: "address \<Rightarrow> 'c ssl_socket" where
  "SSL_CreateTCP addr = SSLSocket_new (getFamily addr) SOCK_STREAM 0"

definition SSL_CreateTCPSocket :: "'c ssl_socket" where
  "SSL_CreateTCPSocket = SSLSocket_new AF_INET SOCK_STREAM 0"

definition SSL_CreateTCPSocket6 :: "'c ssl_socket" where
  "SSL_CreateTCPSocket6 = SSLSocket_new AF_INET6 SOCK_STREAM 0"

definition SSL_bind ::
  "sock_answers \<Rightarrow> sock_answers \<Rightarrow> address \<Rightarrow> 'c ssl_socket \<Rightarrow> bool \<times> 'c ssl_socket \<times> sock_call list" where
  "SSL_bind probe an addr s =
     (case Socket_bind probe an addr (ss_base s) of (v, b, calls) \<Rightarrow> (v, s\<lparr>ss_base := b\<rparr>, calls))"

definition SSL_listen :: "int \<Rightarrow> 'c ssl_socket \<Rightarrow> bool" where
  "SSL_listen result s = Socket_listen result (ss_base s)"

definition SSL_close :: "'c ssl_socket \<Rightarrow> bool \<times> 'c ssl_socket \<times> sock_call list" where
  "SSL_close s = (case Socket_close (ss_base s) of (v, b, calls) \<Rightarrow> (v, s\<lparr>ss_base := b\<rparr>, calls))"

text \<open>\<open>ctx\<close>: the new client context; \<open>handshake\<close>: what \<open>SSL_connect\<close> or \<open>SSL_accept\<close> returns.\<close>

definition SSL_connect_to ::
  "'c \<Rightarrow> int \<Rightarrow> sock_answers \<Rightarrow> address \<Rightarrow> 'c ssl_socket \<Rightarrow> bool \<times> 'c ssl_socket \<times> sock_call list" where
  "SSL_connect_to ctx handshake an addr s =
     (case Socket_connect an addr (ss_base s) of
        (True, b, calls) \<Rightarrow> (handshake = 1, s\<lparr>ss_base := b, ss_ctx := Some ctx, ss_ssl := Some (ctx, sk_sock b)\<rparr>, calls)
      | (False, b, calls) \<Rightarrow> (False, s\<lparr>ss_base := b\<rparr>, calls))"

definition SSL_init ::
  "int \<Rightarrow> sock_answers \<Rightarrow> int \<Rightarrow> fd_ctx option list \<Rightarrow> 'c ssl_socket \<Rightarrow> ssl_fault + bool \<times> 'c ssl_socket \<times> sock_call list" where
  "SSL_init handshake an sock fds s =
     (case Socket_init an sock fds (ss_base s) of
        (True, b, calls) \<Rightarrow>
          (case ss_ctx s of
             None \<Rightarrow> Inl Null_session
           | Some c \<Rightarrow> Inr (handshake = 1, s\<lparr>ss_base := b, ss_ssl := Some (c, sk_sock b)\<rparr>, calls))
      | (False, b, calls) \<Rightarrow> Inr (False, s\<lparr>ss_base := b\<rparr>, calls))"

text \<open>When \<open>init\<close> fails the new object is destroyed, which closes what it holds.\<close>

definition SSL_accept_on ::
  "int \<Rightarrow> sock_answers \<Rightarrow> fd_ctx option list \<Rightarrow> 'c ssl_socket \<Rightarrow> ssl_fault + 'c ssl_socket option \<times> sock_call list" where
  "SSL_accept_on handshake an fds s =
     (let sock = SSLSocket_new (sk_family (ss_base s)) (sk_type (ss_base s)) (sk_protocol (ss_base s))
      in if an_fd an = -1 then Inr (None, [])
         else (case SSL_init handshake an (an_fd an) fds (sock\<lparr>ss_ctx := ss_ctx s\<rparr>) of
                 Inl e \<Rightarrow> Inl e
               | Inr (True, sock, calls) \<Rightarrow> Inr (Some sock, Opened (an_fd an) # calls)
               | Inr (False, sock, calls) \<Rightarrow>
                   (case SSL_close sock of (_, _, calls') \<Rightarrow> Inr (None, Opened (an_fd an) # calls @ calls'))))"

text \<open>\<open>ctx\<close>: the new server context; the answers of the three calls that fill and check it.\<close>

definition SSL_loadCertificates :: "'c \<Rightarrow> int \<Rightarrow> int \<Rightarrow> int \<Rightarrow> 'c ssl_socket \<Rightarrow> bool \<times> 'c ssl_socket" where
  "SSL_loadCertificates ctx chain key check s =
     (let s = s\<lparr>ss_ctx := Some ctx\<rparr>
      in if chain \<noteq> 1 then (False, s) else if key \<noteq> 1 then (False, s) else if check \<noteq> 1 then (False, s) else (True, s))"

section \<open>Sending and receiving\<close>

text \<open>
  With one buffer, the result of the one call. With several, the loop: the length of each buffer with what
  \<open>SSL_write\<close> or \<open>SSL_read\<close> answers for it, if it is asked.
\<close>

definition SSL_transfer :: "int \<Rightarrow> 'c ssl_socket \<Rightarrow> int" where
  "SSL_transfer answer s = (if ss_ssl s \<noteq> None then answer else -1)"

fun ssl_iov :: "int \<Rightarrow> (u64 \<times> int) list \<Rightarrow> int" where
  "ssl_iov acc [] = acc"
| "ssl_iov acc ((len, tmp) # xs) =
     (if tmp \<le> 0 then tmp
      else if tmp \<noteq> sint (ucast len :: u32) then acc + tmp
      else ssl_iov (acc + tmp) xs)"

definition SSL_transfer_iov :: "(u64 \<times> int) list \<Rightarrow> 'c ssl_socket \<Rightarrow> int" where
  "SSL_transfer_iov xs s = (if ss_ssl s = None then -1 else ssl_iov 0 xs)"

text \<open>\<open>sendTo\<close> and \<open>recvFrom\<close>.\<close>

definition SSL_datagram :: "'c ssl_socket \<Rightarrow> int" where
  "SSL_datagram s = -1"

definition SSL_dump :: "'c ssl_socket \<Rightarrow> string" where
  "SSL_dump s = dump_as ''SSLSocket'' (ss_base s)"

text \<open>The buffers that were transferred in full before the loop ended, and all bytes that were transferred.\<close>

definition full_part :: "(u64 \<times> int) list \<Rightarrow> (u64 \<times> int) list" where
  "full_part = takeWhile (\<lambda>(len, tmp). 0 < tmp \<and> tmp = sint (ucast len :: u32))"

definition bytes_moved :: "(u64 \<times> int) list \<Rightarrow> int" where
  "bytes_moved xs =
     sum_list (map snd (full_part xs)) +
     (case drop (length (full_part xs)) xs of [] \<Rightarrow> 0 | (len, tmp) # _ \<Rightarrow> max 0 tmp)"

lemma full_part_simps:
  "full_part [] = []"
  "full_part ((len, tmp) # xs) = (if 0 < tmp \<and> tmp = sint (ucast len :: u32) then (len, tmp) # full_part xs else [])"
  by (simp_all add: full_part_def)

lemma ssl_iov_full:
  "ssl_iov acc xs =
     (case drop (length (full_part xs)) xs of
        [] \<Rightarrow> acc + sum_list (map snd (full_part xs))
      | (len, tmp) # _ \<Rightarrow> if tmp \<le> 0 then tmp else acc + sum_list (map snd (full_part xs)) + tmp)"
  by (induction acc xs rule: ssl_iov.induct) (auto simp: full_part_simps split: list.split)

lemma full_part_pos: "0 \<le> sum_list (map snd (full_part xs)) \<and> (sum_list (map snd (full_part xs)) = 0 \<longleftrightarrow> full_part xs = [])"
  by (induction xs) (auto simp: full_part_simps)

text \<open>
  A gathering send or scattering receive over TLS returns the number of bytes it transferred, except
  when a later buffer fails: then it returns that failure, which is not positive, and what the earlier
  buffers transferred, a positive number of bytes, is not reported.
\<close>

theorem ssl_iov_reports:
  "(ssl_iov 0 xs = bytes_moved xs \<or> ssl_iov 0 xs \<le> 0) \<and>
   (ssl_iov 0 xs \<le> 0 \<and> 0 < bytes_moved xs \<longleftrightarrow>
      full_part xs \<noteq> [] \<and> (\<exists>len tmp rest. drop (length (full_part xs)) xs = (len, tmp) # rest \<and> tmp \<le> 0))"
  using full_part_pos [of xs]
  by (auto simp: ssl_iov_full bytes_moved_def split: list.splits prod.splits)

text \<open>
  A TLS connection is accepted only with a context, only when the system accepts and the handshake
  succeeds; when the handshake fails, the descriptor is closed again. Without a loaded context the first
  accepted connection is a fault.
\<close>

theorem ssl_accept_outcome:
  assumes "fd_lookup (an_fd an) fds = Some c" and "fx_isSocket c" and "\<not> fx_isClosed c" and "an_fd an \<noteq> -1"
  shows "case SSL_accept_on handshake an fds s of
      Inl e \<Rightarrow> ss_ctx s = None
    | Inr (client, calls) \<Rightarrow>
        ss_ctx s \<noteq> None \<and> (client \<noteq> None \<longleftrightarrow> handshake = 1) \<and>
        (\<forall>cl. client = Some cl \<longrightarrow>
           ss_ssl cl = Some (the (ss_ctx s), an_fd an) \<and> sk_isConnected (ss_base cl) \<and>
           opened_fds calls = [sk_sock (ss_base cl)] \<and> closed_fds calls = []) \<and>
        (client = None \<longrightarrow> opened_fds calls = closed_fds calls)"
proof -
  let ?new = "Socket_new (sk_family (ss_base s)) (sk_type (ss_base s)) (sk_protocol (ss_base s))"
  obtain b calls where b: "Socket_init an (an_fd an) fds ?new = (True, b, calls)"
    and bs: "sk_sock b = an_fd an" "sk_isConnected b" "opened_fds calls = []" "closed_fds calls = []"
    using assms by (simp add: Socket_init_def Let_def)
  show ?thesis
  proof (cases "ss_ctx s")
    case None
    with b assms(4) show ?thesis by (simp add: SSL_accept_on_def SSL_init_def SSLSocket_new_def)
  next
    case (Some x)
    with b bs assms(4) show ?thesis
      by (cases "handshake = 1")
        (auto simp: SSL_accept_on_def SSL_init_def SSLSocket_new_def SSL_close_def Socket_close_def)
  qed
qed

theorem ssl_accept_outcome_witness:
  "case SSL_accept_on 0 (demo_answers 1 0) [None, Some demo_ctx] ((SSLSocket_new AF_INET SOCK_STREAM 0)\<lparr>ss_ctx := Some (0 :: nat)\<rparr>) of
     Inl e \<Rightarrow> False | Inr (client, calls) \<Rightarrow> client = None \<and> closed_fds calls = [1]"
  using ssl_accept_outcome [where an = "demo_answers 1 0" and fds = "[None, Some demo_ctx]" and c = demo_ctx
      and handshake = 0 and s = "(SSLSocket_new AF_INET SOCK_STREAM 0)\<lparr>ss_ctx := Some (0 :: nat)\<rparr>"]
  by (simp add: SSL_accept_on_def SSL_init_def SSL_close_def Socket_init_def SSLSocket_new_def socket_eval demo_ctx_def
      fd_lookup_def behind_end_def Let_def)

end
