(* ===== verification/Tcp_Server.thy ===== *)
theory Tcp_Server
  imports Ssl_Sockets
begin

text \<open>
  \<open>src/server/tcp_server.cc\<close>: listening sockets, the loop that accepts clients, starting and stopping.
  The schedulers are given by the tasks they are handed.
\<close>

section \<open>Listening sockets\<close>

datatype 'c listener = Plain socket_obj | Tls "'c ssl_socket"

fun base_of :: "'c listener \<Rightarrow> socket_obj" where
  "base_of (Plain s) = s"
| "base_of (Tls s) = ss_base s"

definition listener_CreateTCP :: "bool \<Rightarrow> address \<Rightarrow> 'c listener" where
  "listener_CreateTCP ssl addr = (if ssl then Tls (SSL_CreateTCP addr) else Plain (CreateTCP addr))"

fun listener_bind ::
  "sock_answers \<Rightarrow> sock_answers \<Rightarrow> address \<Rightarrow> 'c listener \<Rightarrow> bool \<times> 'c listener \<times> sock_call list" where
  "listener_bind probe an addr (Plain s) = (case Socket_bind probe an addr s of (v, s, calls) \<Rightarrow> (v, Plain s, calls))"
| "listener_bind probe an addr (Tls s) = (case SSL_bind probe an addr s of (v, s, calls) \<Rightarrow> (v, Tls s, calls))"

fun listener_listen :: "int \<Rightarrow> 'c listener \<Rightarrow> bool" where
  "listener_listen result (Plain s) = Socket_listen result s"
| "listener_listen result (Tls s) = SSL_listen result s"

fun listener_close :: "'c listener \<Rightarrow> bool \<times> 'c listener \<times> sock_call list" where
  "listener_close (Plain s) = (case Socket_close s of (v, s, calls) \<Rightarrow> (v, Plain s, calls))"
| "listener_close (Tls s) = (case SSL_close s of (v, s, calls) \<Rightarrow> (v, Tls s, calls))"

fun listener_accept ::
  "int \<Rightarrow> sock_answers \<Rightarrow> fd_ctx option list \<Rightarrow> 'c listener \<Rightarrow> ssl_fault + 'c listener option \<times> sock_call list" where
  "listener_accept handshake an fds (Plain s) = Inr (apfst (map_option Plain) (Socket_accept an fds s))"
| "listener_accept handshake an fds (Tls s) = map_sum id (apfst (map_option Tls)) (SSL_accept_on handshake an fds s)"

section \<open>The server\<close>

datatype 'c server_task =
    Start_accept "'c listener"
  | Handle_client "'c listener"
  | Close_all

record 'c tcp_server =
  ts_socks :: "'c listener list"
  ts_recvTimeout :: u64
  ts_name :: string
  ts_type :: string
  ts_isStop :: bool
  ts_ssl :: bool

definition g_tcp_server_read_timeout :: u64 where
  "g_tcp_server_read_timeout = 60 * 1000 * 2"

definition TcpServer_new :: "'c tcp_server" where
  "TcpServer_new =
     \<lparr>ts_socks = [], ts_recvTimeout = g_tcp_server_read_timeout, ts_name = ''sylar/1.0.0'', ts_type = ''tcp'',
      ts_isStop = True, ts_ssl = False\<rparr>"

text \<open>The system's answers for one address: to the probe and to \<open>bind\<close>, and what \<open>listen\<close> returns.\<close>

record bind_answers =
  ba_probe :: sock_answers
  ba_bind :: sock_answers
  ba_listen :: int

text \<open>A socket that is dropped is destroyed, which closes it.\<close>

definition dropped :: "'c listener \<Rightarrow> sock_call list" where
  "dropped s = snd (snd (listener_close s))"

fun bind_loop ::
  "bool \<Rightarrow> (address \<times> bind_answers) list \<Rightarrow> 'c listener list \<Rightarrow> address list \<Rightarrow>
     'c listener list \<times> address list \<times> sock_call list" where
  "bind_loop ssl [] socks fails = (socks, fails, [])"
| "bind_loop ssl ((addr, ba) # addrs) socks fails =
     (case listener_bind (ba_probe ba) (ba_bind ba) addr (listener_CreateTCP ssl addr) of
        (bound, sock, calls) \<Rightarrow>
          if \<not> bound
          then (case bind_loop ssl addrs socks (fails @ [addr]) of
                  (socks, fails, calls') \<Rightarrow> (socks, fails, calls @ dropped sock @ calls'))
          else if \<not> listener_listen (ba_listen ba) sock
          then (case bind_loop ssl addrs socks (fails @ [addr]) of
                  (socks, fails, calls') \<Rightarrow> (socks, fails, calls @ dropped sock @ calls'))
          else (case bind_loop ssl addrs (socks @ [sock]) fails of
                  (socks, fails, calls') \<Rightarrow> (socks, fails, calls @ calls')))"

definition TcpServer_bind_all ::
  "(address \<times> bind_answers) list \<Rightarrow> address list \<Rightarrow> bool \<Rightarrow> 'c tcp_server \<Rightarrow>
     bool \<times> address list \<times> 'c tcp_server \<times> sock_call list" where
  "TcpServer_bind_all addrs fails ssl s =
     (case bind_loop ssl addrs (ts_socks s) fails of
        (socks, fails, calls) \<Rightarrow>
          if fails \<noteq> []
          then (False, fails, s\<lparr>ts_ssl := ssl, ts_socks := []\<rparr>, calls @ concat (map dropped socks))
          else (True, fails, s\<lparr>ts_ssl := ssl, ts_socks := socks\<rparr>, calls))"

definition TcpServer_bind ::
  "address \<times> bind_answers \<Rightarrow> bool \<Rightarrow> 'c tcp_server \<Rightarrow> bool \<times> address list \<times> 'c tcp_server \<times> sock_call list" where
  "TcpServer_bind addr ssl s = TcpServer_bind_all [addr] [] ssl s"

text \<open>
  One round of \<open>startAccept\<close>: whether the server is stopped when the loop looks, the answers to \<open>accept\<close>, and
  the descriptor table after it. The result is \<open>None\<close> while the loop goes on when the rounds are used up;
  with every client the table it is handed on with.
\<close>

record accept_round =
  ar_stop :: bool
  ar_answers :: sock_answers
  ar_handshake :: int
  ar_table :: "fd_ctx option list"

fun startAccept ::
  "bool \<Rightarrow> u64 \<Rightarrow> 'c listener \<Rightarrow> accept_round list \<Rightarrow>
     ssl_fault + unit option \<times> ('c server_task \<times> fd_ctx option list) list" where
  "startAccept enable timeout sock [] = Inr (None, [])"
| "startAccept enable timeout sock (r # rs) =
     (if ar_stop r then Inr (Some (), [])
      else
       (case listener_accept (ar_handshake r) (ar_answers r) (ar_table r) sock of
          Inl e \<Rightarrow> Inl e
        | Inr (Some client, _) \<Rightarrow>
            map_sum id (apsnd (Cons (Handle_client client,
                fst (setTimeout enable SO_RCVTIMEO (sint timeout) (base_of client) (ar_table r)))))
              (startAccept enable timeout sock rs)
        | Inr (None, _) \<Rightarrow> startAccept enable timeout sock rs))"

definition TcpServer_start :: "'c tcp_server \<Rightarrow> bool \<times> 'c tcp_server \<times> 'c server_task list" where
  "TcpServer_start s =
     (if \<not> ts_isStop s then (True, s, [])
      else (True, s\<lparr>ts_isStop := False\<rparr>, map Start_accept (ts_socks s)))"

definition TcpServer_stop :: "'c tcp_server \<Rightarrow> 'c tcp_server \<times> 'c server_task list" where
  "TcpServer_stop s = (s\<lparr>ts_isStop := True\<rparr>, [Close_all])"

text \<open>The task of \<open>stop\<close>; \<open>fails\<close>: for which descriptors \<open>epoll_ctl\<close> fails.\<close>

fun close_socks :: "(int \<Rightarrow> bool) \<Rightarrow> 'c listener list \<Rightarrow> io_manager \<Rightarrow> fault + io_manager \<times> sock_call list" where
  "close_socks fails [] m = Inr (m, [])"
| "close_socks fails (sock # socks) m =
     (case Socket_cancelAll (fails (sk_sock (base_of sock))) (base_of sock) m of
        Inl e \<Rightarrow> Inl e
      | Inr (_, m) \<Rightarrow> map_sum id (apsnd (append (dropped sock))) (close_socks fails socks m))"

definition TcpServer_close_all ::
  "(int \<Rightarrow> bool) \<Rightarrow> 'c tcp_server \<times> io_manager \<Rightarrow> fault + ('c tcp_server \<times> io_manager) \<times> sock_call list" where
  "TcpServer_close_all fails sm =
     map_sum id (\<lambda>(m, calls). ((fst sm\<lparr>ts_socks := []\<rparr>, m), calls)) (close_socks fails (ts_socks (fst sm)) (snd sm))"

text \<open>The destructor.\<close>

definition TcpServer_destroy :: "'c tcp_server \<Rightarrow> sock_call list" where
  "TcpServer_destroy s = concat (map dropped (ts_socks s))"

text \<open>\<open>ctxs\<close>: the new context of each listening socket and the answers of OpenSSL for it.\<close>

fun load_loop :: "('c \<times> int \<times> int \<times> int) list \<Rightarrow> 'c listener list \<Rightarrow> bool \<times> 'c listener list" where
  "load_loop ((ctx, chain, key, check) # ctxs) (Tls s # socks) =
     (case SSL_loadCertificates ctx chain key check s of
        (False, s) \<Rightarrow> (False, Tls s # socks)
      | (True, s) \<Rightarrow> apsnd (Cons (Tls s)) (load_loop ctxs socks))"
| "load_loop ctxs (s # socks) = apsnd (Cons s) (load_loop (drop 1 ctxs) socks)"
| "load_loop ctxs [] = (True, [])"

definition TcpServer_loadCertificates :: "('c \<times> int \<times> int \<times> int) list \<Rightarrow> 'c tcp_server \<Rightarrow> bool \<times> 'c tcp_server" where
  "TcpServer_loadCertificates ctxs s = (case load_loop ctxs (ts_socks s) of (ok, socks) \<Rightarrow> (ok, s\<lparr>ts_socks := socks\<rparr>))"

fun listener_dump :: "'c listener \<Rightarrow> string" where
  "listener_dump (Plain s) = Socket_dump s"
| "listener_dump (Tls s) = SSL_dump s"

text \<open>\<open>worker\<close> and \<open>accept\<close>: the names of the schedulers, empty without one.\<close>

definition TcpServer_toString :: "string \<Rightarrow> string \<Rightarrow> string \<Rightarrow> 'c tcp_server \<Rightarrow> string" where
  "TcpServer_toString worker acceptor pre s =
     (let nl = [CHR 0x0A]; pfx = (if pre = [] then ''    '' else pre)
      in pre @ ''[type='' @ ts_type s @ '' name='' @ ts_name s @ '' ssl='' @ (if ts_ssl s then ''1'' else ''0'') @
         '' worker='' @ worker @ '' accept='' @ acceptor @ '' recv_timeout='' @ show_nat (unat (ts_recvTimeout s)) @ '']'' @ nl @
         concat (map (\<lambda>l. pfx @ pfx @ listener_dump l @ nl) (ts_socks s)))"

section \<open>Binding\<close>

definition bindable :: "address \<times> bind_answers \<Rightarrow> bool" where
  "bindable x \<longleftrightarrow>
     (case x of (addr, ba) \<Rightarrow> \<not> fst (unix_in_use (ba_probe ba) addr) \<and> an_result (ba_bind ba) = 0 \<and>
        an_fd (ba_bind ba) \<noteq> -1 \<and> ba_listen ba = 0)"

definition live_all :: "'c listener list \<Rightarrow> int multiset" where
  "live_all socks = sum_list (map (\<lambda>l. live_fds (base_of l)) socks)"

lemma live_all_simps [simp]:
  "live_all [] = {#}" "live_all (s # socks) = live_fds (base_of s) + live_all socks"
  "live_all (socks @ socks') = live_all socks + live_all socks'"
  by (simp_all add: live_all_def)

lemma dropped_fds [simp]:
  "opened_fds (dropped s) = []" "mset (closed_fds (dropped s)) = live_fds (base_of s)"
  by (cases s; simp add: dropped_def SSL_close_def Socket_close_def live_fds_def isValid_def)+

lemma dropped_all_fds [simp]:
  "opened_fds (concat (map dropped socks)) = []" "mset (closed_fds (concat (map dropped socks))) = live_all socks"
  by (induction socks) simp_all

lemma base_CreateTCP: "base_of (listener_CreateTCP ssl addr) = Socket_new (getFamily addr) SOCK_STREAM 0"
  by (simp add: listener_CreateTCP_def SSL_CreateTCP_def SSLSocket_new_def CreateTCP_def)

lemma listener_bind_base:
  "listener_bind probe an addr l = (v, l', calls) \<Longrightarrow> Socket_bind probe an addr (base_of l) = (v, base_of l', calls)"
  by (cases l) (auto simp: SSL_bind_def split: prod.splits)

lemma listener_listen_base: "listener_listen r l = Socket_listen r (base_of l)"
  by (cases l) (simp_all add: SSL_listen_def)

lemma Socket_bind_new:
  assumes "Socket_bind probe an addr (Socket_new (getFamily addr) type 0) = (v, s, calls)"
  shows "(v \<longleftrightarrow> \<not> fst (unix_in_use probe addr) \<and> an_result an = 0) \<and> sk_sock s = an_fd an"
  using assms
  by (auto simp: Socket_bind_def newSock_def isValid_def Socket_new_def Let_def split: bool.splits prod.splits if_splits)

lemma listener_bind_spec:
  assumes "listener_bind (ba_probe ba) (ba_bind ba) addr (listener_CreateTCP ssl addr) = (v, l, calls)"
  shows "(v \<and> listener_listen (ba_listen ba) l \<longleftrightarrow> bindable (addr, ba)) \<and> sk_sock (base_of l) = an_fd (ba_bind ba) \<and>
    mset (opened_fds calls) = mset (closed_fds calls) + live_fds (base_of l)"
proof -
  have b: "Socket_bind (ba_probe ba) (ba_bind ba) addr (Socket_new (getFamily addr) SOCK_STREAM 0) = (v, base_of l, calls)"
    using listener_bind_base [OF assms] by (simp add: base_CreateTCP)
  have "live_fds (Socket_new (getFamily addr) SOCK_STREAM 0) = {#}" by (simp add: live_fds_def isValid_def Socket_new_def)
  with bind_balance [OF b] Socket_bind_new [OF b] show ?thesis
    by (auto simp: bindable_def fds_balance_def listener_listen_base Socket_listen_def isValid_def)
qed

lemma bind_loop_spec:
  "bind_loop ssl addrs (socks :: 'c listener list) fails = (socks', fails', calls) \<Longrightarrow>
     fails' = fails @ map fst (filter (\<lambda>x. \<not> bindable x) addrs) \<and>
     map (\<lambda>l. sk_sock (base_of l)) socks' =
       map (\<lambda>l. sk_sock (base_of l)) socks @ map (\<lambda>x. an_fd (ba_bind (snd x))) (filter bindable addrs) \<and>
     mset (opened_fds calls) + live_all socks = mset (closed_fds calls) + live_all socks'"
proof (induction addrs arbitrary: socks fails socks' fails' calls)
  case (Cons x addrs)
  obtain addr ba where x: "x = (addr, ba)" by fastforce
  obtain v l k where b: "listener_bind (ba_probe ba) (ba_bind ba) addr (listener_CreateTCP ssl addr :: 'c listener) = (v, l, k)"
    by (metis prod.exhaust)
  note spec = listener_bind_spec [OF b]
  show ?case
  proof (cases "bindable x")
    case True
    then have ok: "v" "listener_listen (ba_listen ba) l" using spec x by simp_all
    obtain socks2 fails2 k2 where r: "bind_loop ssl addrs (socks @ [l]) fails = (socks2, fails2, k2)" by (metis prod.exhaust)
    have "socks' = socks2" "fails' = fails2" "calls = k @ k2" using Cons.prems ok by (simp_all add: x b r)
    then show ?thesis using Cons.IH [OF r] spec True x by (auto simp: ac_simps)
  next
    case False
    then have no: "\<not> v \<or> \<not> listener_listen (ba_listen ba) l" using spec x by simp
    obtain socks2 fails2 k2 where r: "bind_loop ssl addrs socks (fails @ [addr]) = (socks2, fails2, k2)" by (metis prod.exhaust)
    have "bind_loop ssl (x # addrs) socks fails = (socks2, fails2, k @ dropped l @ k2)"
      using no by (cases v) (simp_all add: x b r)
    then have "socks' = socks2" "fails' = fails2" "calls = k @ dropped l @ k2" using Cons.prems by simp_all
    then show ?thesis using Cons.IH [OF r] spec False x by (auto simp: ac_simps)
  qed
qed simp

text \<open>
  C26: A server is bound exactly when every address can be bound and listened on and the list of failures
  it was given is empty; then it listens on what it had and on the new descriptors, in order. Otherwise it
  listens on nothing, not even on what it had, and the failures are appended in order. In both cases every
  descriptor that was opened is closed or belongs to a listening socket, for plain and TLS sockets alike.
\<close>

theorem bind_outcome:
  assumes "TcpServer_bind_all addrs fails ssl s = (ok, fails', s', calls)"
  shows "(ok \<longleftrightarrow> fails = [] \<and> (\<forall>x \<in> set addrs. bindable x)) \<and>
    fails' = fails @ map fst (filter (\<lambda>x. \<not> bindable x) addrs) \<and>
    (ok \<longrightarrow> map (\<lambda>l. sk_sock (base_of l)) (ts_socks s') =
       map (\<lambda>l. sk_sock (base_of l)) (ts_socks s) @ map (\<lambda>x. an_fd (ba_bind (snd x))) addrs) \<and>
    (\<not> ok \<longrightarrow> ts_socks s' = []) \<and>
    mset (opened_fds calls) + live_all (ts_socks s) = mset (closed_fds calls) + live_all (ts_socks s')"
proof -
  obtain socks2 fails2 k where r: "bind_loop ssl addrs (ts_socks s) fails = (socks2, fails2, k)" by (metis prod.exhaust)
  note spec = bind_loop_spec [OF r]
  have res: "ok \<longleftrightarrow> fails2 = []" "fails' = fails2" "ts_socks s' = (if fails2 = [] then socks2 else [])"
      "calls = k @ (if fails2 = [] then [] else concat (map dropped socks2))"
    using assms by (auto simp: TcpServer_bind_all_def r split: if_splits)
  show ?thesis
  proof (cases "fails2 = []")
    case True
    then have "fails = []" "\<forall>x \<in> set addrs. bindable x" "filter bindable addrs = addrs"
      using spec by (auto simp: filter_empty_conv filter_id_conv)
    then show ?thesis using True spec by (simp add: res)
  next
    case False
    then have "fails \<noteq> [] \<or> (\<exists>x \<in> set addrs. \<not> bindable x)" using spec by (auto simp: filter_empty_conv)
    then show ?thesis using False spec by (auto simp: res ac_simps)
  qed
qed

lemma quad_collapse: "x = (fst x, fst (snd x), fst (snd (snd x)), snd (snd (snd x)))"
  by simp

lemma quad_true: "fst x \<Longrightarrow> x = (True, fst (snd x), fst (snd (snd x)), snd (snd (snd x)))"
  by (cases x) simp

definition demo_bind :: "int \<Rightarrow> int \<Rightarrow> address \<times> bind_answers" where
  "demo_bind fd result =
     (IPv4Address (IPv4_new 2 80),
      \<lparr>ba_probe = demo_answers (-1) 0, ba_bind = demo_answers fd result, ba_listen = 0\<rparr>)"

lemma bindable_demo: "bindable (demo_bind fd result) \<longleftrightarrow> result = 0 \<and> fd \<noteq> -1"
  by (simp add: bindable_def demo_bind_def unix_in_use_def demo_answers_def)

theorem bind_outcome_witness:
  "fst (TcpServer_bind_all [demo_bind 5 0, demo_bind 6 (-1)] [] False (TcpServer_new :: nat tcp_server)) = False \<and>
   ts_socks (fst (snd (snd (TcpServer_bind_all [demo_bind 5 0, demo_bind 6 (-1)] [] True (TcpServer_new :: nat tcp_server))))) = []"
  using bind_outcome [OF quad_collapse, of "[demo_bind 5 0, demo_bind 6 (-1)]" "[]" False "TcpServer_new :: nat tcp_server"]
    bind_outcome [OF quad_collapse, of "[demo_bind 5 0, demo_bind 6 (-1)]" "[]" True "TcpServer_new :: nat tcp_server"]
  by (simp add: bindable_demo)

section \<open>Accepting\<close>

text \<open>The client one round gives.\<close>

definition round_client :: "'c listener \<Rightarrow> accept_round \<Rightarrow> 'c listener option" where
  "round_client sock r =
     (case listener_accept (ar_handshake r) (ar_answers r) (ar_table r) sock of Inr (c, _) \<Rightarrow> c | Inl _ \<Rightarrow> None)"

lemma Socket_init_known:
  "Socket_init an fd fds s = (True, s', calls) \<Longrightarrow> fd_lookup (sk_sock s') fds \<noteq> None \<and> sk_isConnected s'"
  by (auto simp: Socket_init_def Let_def split: option.splits if_splits)

lemma listener_accept_known:
  assumes "listener_accept h an fds sock = Inr (Some client, calls)"
  shows "fd_lookup (sk_sock (base_of client)) fds \<noteq> None \<and> sk_isConnected (base_of client)"
proof (cases sock)
  case (Plain s)
  with assms show ?thesis
    by (auto simp: Socket_accept_def Let_def dest!: Socket_init_known split: if_splits prod.splits bool.splits)
next
  case (Tls s)
  with assms obtain x k where x: "SSL_accept_on h an fds s = Inr (Some x, k)" "client = Tls x"
    by (auto simp: map_sum_def apfst_def map_prod_def split: sum.splits prod.splits)
  show ?thesis using x(1) unfolding x(2)
    by (auto simp: SSL_accept_on_def SSL_init_def Let_def dest!: Socket_init_known
        split: if_splits prod.splits bool.splits sum.splits option.splits)
qed

lemma startAccept_spec:
  "startAccept True timeout sock rs = Inr (ended, tasks) \<Longrightarrow> \<bar>sint timeout\<bar> < 2 ^ 31 * 1000 \<Longrightarrow>
     map fst tasks = map Handle_client (List.map_filter (round_client sock) (takeWhile (\<lambda>r. \<not> ar_stop r) rs)) \<and>
     (ended = Some () \<longleftrightarrow> (\<exists>r \<in> set rs. ar_stop r)) \<and>
     (\<forall>(task, fds) \<in> set tasks. \<exists>client. task = Handle_client client \<and> sk_isConnected (base_of client) \<and>
        getTimeout SO_RCVTIMEO (base_of client) fds = sint timeout)"
proof (induction rs arbitrary: tasks)
  case (Cons r rs)
  show ?case
  proof (cases "ar_stop r")
    case False
    obtain c k where a: "listener_accept (ar_handshake r) (ar_answers r) (ar_table r) sock = Inr (c, k)"
      using Cons.prems(1) False by (cases "listener_accept (ar_handshake r) (ar_answers r) (ar_table r) sock") auto
    then have rc: "round_client sock r = c" by (simp add: round_client_def)
    show ?thesis
    proof (cases c)
      case None
      then have "startAccept True timeout sock rs = Inr (ended, tasks)" using Cons.prems(1) False a by simp
      from Cons.IH [OF this Cons.prems(2)] show ?thesis using False rc None by (simp add: map_filter_simps)
    next
      case (Some client)
      then obtain tasks' where t: "startAccept True timeout sock rs = Inr (ended, tasks')"
          "tasks = (Handle_client client, fst (setTimeout True SO_RCVTIMEO (sint timeout) (base_of client) (ar_table r))) # tasks'"
        using Cons.prems(1) False a by (cases "startAccept True timeout sock rs") auto
      have known: "fd_lookup (sk_sock (base_of client)) (ar_table r) \<noteq> None" "sk_isConnected (base_of client)"
        using listener_accept_known a Some by blast+
      have "getTimeout SO_RCVTIMEO (base_of client)
          (fst (setTimeout True SO_RCVTIMEO (sint timeout) (base_of client) (ar_table r))) = sint timeout"
        by (rule setTimeout_get [OF known(1) _ Cons.prems(2)]) simp
      with Cons.IH [OF t(1) Cons.prems(2)] show ?thesis using False rc Some known(2) t(2) by (simp add: map_filter_simps)
    qed
  qed (use Cons.prems in simp)
qed (simp add: map_filter_simps)

lemma map_sum_Inl: "map_sum f g x = Inl e \<longleftrightarrow> (\<exists>e'. x = Inl e' \<and> e = f e')"
  by (cases x) auto

lemma listener_accept_fault: "listener_accept h an fds sock = Inl e \<Longrightarrow> \<exists>s. sock = Tls s \<and> ss_ctx s = None"
  by (cases sock)
    (auto simp: SSL_accept_on_def SSL_init_def Let_def split: if_splits prod.splits bool.splits option.splits sum.splits)

lemma startAccept_fault: "startAccept enable timeout sock rs = Inl e \<Longrightarrow> \<exists>s. sock = Tls s \<and> ss_ctx s = None"
  by (induction rs)
    (auto simp: map_sum_Inl split: if_splits sum.splits prod.splits option.splits dest: listener_accept_fault)

text \<open>
  C27: The accept loop hands exactly the clients that are accepted before the server is stopped to
  \<open>handleClient\<close>, each once and in order, connected and with the server's receive timeout in force, whatever
  failures come between; it ends only when it sees that the server is stopped. The only fault is a TLS
  listener without certificates.
\<close>

theorem accept_rounds_serve:
  assumes "\<bar>sint timeout\<bar> < 2 ^ 31 * 1000"
  shows "case startAccept True timeout sock rs of
      Inl e \<Rightarrow> (\<exists>s. sock = Tls s \<and> ss_ctx s = None)
    | Inr (ended, tasks) \<Rightarrow>
        map fst tasks = map Handle_client (List.map_filter (round_client sock) (takeWhile (\<lambda>r. \<not> ar_stop r) rs)) \<and>
        (ended = Some () \<longleftrightarrow> (\<exists>r \<in> set rs. ar_stop r)) \<and>
        (\<forall>(task, fds) \<in> set tasks. \<exists>client. task = Handle_client client \<and> sk_isConnected (base_of client) \<and>
           getTimeout SO_RCVTIMEO (base_of client) fds = sint timeout)"
proof (cases "startAccept True timeout sock rs")
  case (Inl e)
  then show ?thesis using startAccept_fault by fastforce
next
  case (Inr r)
  then show ?thesis using startAccept_spec [OF _ assms, of sock rs "fst r" "snd r"] by (cases r) simp
qed

definition demo_round :: "int \<Rightarrow> bool \<Rightarrow> accept_round" where
  "demo_round fd stop =
     \<lparr>ar_stop = stop, ar_answers = demo_answers fd 0, ar_handshake = 1, ar_table = [None, Some demo_ctx]\<rparr>"

definition demo_listener :: "nat listener" where
  "demo_listener = Plain ((Socket_new AF_INET SOCK_STREAM 0)\<lparr>sk_sock := 7\<rparr>)"

lemma demo_client:
  "round_client demo_listener (demo_round fd stop) =
     (if fd = 1 then Some (Plain \<lparr>sk_sock = 1, sk_family = 2, sk_type = 1, sk_protocol = 0, sk_isConnected = True,
        sk_localAddress = Some (IPv4Address (IPv4_new 2 4000)), sk_remoteAddress = Some (IPv4Address (IPv4_new 1 80))\<rparr>) else None)"
  by (auto simp: round_client_def demo_listener_def demo_round_def Socket_accept_def Socket_init_def socket_eval Let_def
      fd_lookup_def behind_end_def demo_ctx_def SOCK_STREAM_def less_Suc_eq)

theorem accept_rounds_serve_witness:
  "case startAccept True 120000 demo_listener [demo_round (-1) False, demo_round 1 False, demo_round 1 True, demo_round 1 False] of
     Inl e \<Rightarrow> False
   | Inr (ended, tasks) \<Rightarrow> ended = Some () \<and> length tasks = 1 \<and>
       (\<forall>(task, fds) \<in> set tasks. \<exists>client. task = Handle_client client \<and> getTimeout SO_RCVTIMEO (base_of client) fds = 120000)"
proof -
  have t: "sint (120000 :: u64) = 120000" by simp
  let ?rs = "[demo_round (-1) False, demo_round 1 False, demo_round 1 True, demo_round 1 False]"
  have "length (List.map_filter (round_client demo_listener) (takeWhile (\<lambda>r. \<not> ar_stop r) ?rs)) = 1" "\<exists>r \<in> set ?rs. ar_stop r"
    by (simp_all add: map_filter_simps demo_client) (simp_all add: demo_round_def)
  note facts = this accept_rounds_serve [of "120000" demo_listener ?rs, unfolded t]
  show ?thesis
  proof (cases "startAccept True 120000 demo_listener ?rs")
    case (Inl e)
    with facts show ?thesis by (simp only: sum.case) (simp add: demo_listener_def)
  next
    case (Inr p)
    obtain ended tasks where p: "p = (ended, tasks)" by fastforce
    from facts have "ended = Some ()" "length (map fst tasks) = 1"
      and "\<forall>(task, fds) \<in> set tasks. \<exists>client. task = Handle_client client \<and> getTimeout SO_RCVTIMEO (base_of client) fds = 120000"
      unfolding Inr p sum.case prod.case by (fastforce simp del: length_map simp: length_map [of Handle_client])+
    then show ?thesis unfolding Inr p sum.case prod.case by simp
  qed
qed

section \<open>Starting and stopping\<close>

lemma base_cancelAll_done:
  assumes "iom_reach m A D" and "0 \<le> sk_sock s"
  obtains ok m' where "Socket_cancelAll fails s m = Inr (ok, m')" and "iom_reach m' A D"
    and "io_tasks m' = io_tasks m @ (if fails then [] else waiting_on (sk_sock s) m)"
    and "\<forall>fd \<ge> 0. waiting_on fd m' = (if fd = sk_sock s \<and> \<not> fails then [] else waiting_on fd m)"
proof -
  have "iom_inv m" using iom_reach_books [OF assms(1)] by simp
  then obtain ok m' where c: "cancelAll fails (sk_sock s) m = Inr (ok, m')"
      "io_tasks m' = io_tasks m @ (if fails then [] else waiting_on (sk_sock s) m)"
      "\<forall>fd \<ge> 0. waiting_on fd m' = (if fd = sk_sock s \<and> \<not> fails then [] else waiting_on fd m)"
    by (rule cancelAll_releases [OF _ assms(2), of m fails])
  with assms show thesis by (intro that [of ok m']) (auto simp: Socket_cancelAll_def intro: iom_reach.cancel_all)
qed

text \<open>The descriptors of listening sockets that \<open>epoll_ctl\<close> does not refuse.\<close>

definition let_go :: "(int \<Rightarrow> bool) \<Rightarrow> int list \<Rightarrow> int set" where
  "let_go fails fds = {fd \<in> set fds. \<not> fails fd}"

lemma let_go_finite [simp]: "finite (let_go fails fds)" by (simp add: let_go_def)

lemma let_go_Cons: "let_go fails (fd # fds) = (if fails fd then let_go fails fds else insert fd (let_go fails fds))"
  by (auto simp: let_go_def)

lemma close_socks_done:
  "iom_reach m A D \<Longrightarrow> \<forall>sock \<in> set socks. 0 \<le> sk_sock (base_of sock) \<Longrightarrow>
     \<exists>m'. close_socks fails socks m = Inr (m', concat (map dropped socks)) \<and> iom_reach m' A D \<and>
       mset (io_tasks m') = mset (io_tasks m) +
         (\<Sum>fd \<in> let_go fails (map (\<lambda>l. sk_sock (base_of l)) socks). mset (waiting_on fd m)) \<and>
       (\<forall>fd \<ge> 0. waiting_on fd m' =
         (if fd \<in> let_go fails (map (\<lambda>l. sk_sock (base_of l)) socks) then [] else waiting_on fd m))"
proof (induction socks arbitrary: m)
  case Nil
  then show ?case by (simp add: let_go_def)
next
  case (Cons sock socks)
  let ?fd = "sk_sock (base_of sock)" and ?S = "let_go fails (map (\<lambda>l. sk_sock (base_of l)) socks)"
  have fd: "0 \<le> ?fd" using Cons.prems(2) by simp
  obtain ok m1 where m1: "Socket_cancelAll (fails ?fd) (base_of sock) m = Inr (ok, m1)" "iom_reach m1 A D"
      "io_tasks m1 = io_tasks m @ (if fails ?fd then [] else waiting_on ?fd m)"
      "\<forall>fd \<ge> 0. waiting_on fd m1 = (if fd = ?fd \<and> \<not> fails ?fd then [] else waiting_on fd m)"
    by (rule base_cancelAll_done [OF Cons.prems(1) fd, of "fails ?fd"])
  obtain m' where m': "close_socks fails socks m1 = Inr (m', concat (map dropped socks))" "iom_reach m' A D"
      "mset (io_tasks m') = mset (io_tasks m1) + (\<Sum>fd \<in> ?S. mset (waiting_on fd m1))"
      "\<forall>fd \<ge> 0. waiting_on fd m' = (if fd \<in> ?S then [] else waiting_on fd m1)"
    using Cons.IH [OF m1(2)] Cons.prems(2) by auto
  have pos: "0 \<le> fd" if "fd \<in> ?S" for fd using Cons.prems(2) that by (auto simp: let_go_def)
  have rest: "(\<Sum>fd \<in> ?S - {?fd}. mset (waiting_on fd m1)) = (\<Sum>fd \<in> ?S - {?fd}. mset (waiting_on fd m))"
    using pos by (intro sum.cong) (auto simp: m1(4))
  have "mset (io_tasks m') = mset (io_tasks m) +
      (\<Sum>fd \<in> let_go fails (map (\<lambda>l. sk_sock (base_of l)) (sock # socks)). mset (waiting_on fd m))"
  proof (cases "fails ?fd")
    case True
    have "(\<Sum>fd \<in> ?S. mset (waiting_on fd m1)) = (\<Sum>fd \<in> ?S. mset (waiting_on fd m))"
      using pos True by (intro sum.cong) (auto simp: m1(4))
    then show ?thesis using True by (simp add: m'(3) m1(3) let_go_Cons)
  next
    case False
    have "(\<Sum>fd \<in> ?S. mset (waiting_on fd m1)) = (\<Sum>fd \<in> ?S - {?fd}. mset (waiting_on fd m1))"
      using False m1(4) fd by (intro sum.mono_neutral_right) auto
    then show ?thesis using False rest by (simp add: m'(3) m1(3) let_go_Cons sum.insert_remove ac_simps)
  qed
  moreover have "\<forall>fd \<ge> 0. waiting_on fd m' =
      (if fd \<in> let_go fails (map (\<lambda>l. sk_sock (base_of l)) (sock # socks)) then [] else waiting_on fd m)"
    using m'(4) m1(4) by (auto simp: let_go_Cons)
  ultimately show ?case using m'(1,2) m1(1) by auto
qed

text \<open>
  C28: The life of a server: when it is bound, starting it hands out one accepting task for each address,
  and starting it again none; stopping it hands out one task, and that task never faults, hands exactly the
  fibers and callbacks that wait on the listening sockets to their schedulers, each once, so that nobody waits there any
  more, leaves the waiters of other descriptors alone, and closes all descriptors that were opened, each
  once. Stopping twice does no harm. Only the waiters of a descriptor that \<open>epoll_ctl\<close> refuses to remove
  (\<open>epoll_fails\<close>) stay entered, though it is closed as well.
\<close>

theorem server_lifecycle:
  assumes "TcpServer_bind_all addrs [] ssl TcpServer_new = (True, fails, s1, c1)"
    and "\<forall>x \<in> set addrs. 0 \<le> an_fd (ba_bind (snd x))" and "iom_reach m A D"
    and "TcpServer_start s1 = (b, s2, tasks)" and "TcpServer_stop s2 = (s3, closing)"
    and "gone = let_go epoll_fails (map (\<lambda>x. an_fd (ba_bind (snd x))) addrs)"
  shows "tasks = map Start_accept (ts_socks s1) \<and> length tasks = length addrs \<and>
    TcpServer_start s2 = (True, s2, []) \<and> ts_isStop s3 \<and> closing = [Close_all] \<and>
    (\<exists>s4 m' c2. TcpServer_close_all epoll_fails (s3, m) = Inr ((s4, m'), c2) \<and> iom_reach m' A D \<and>
       mset (io_tasks m') = mset (io_tasks m) + (\<Sum>fd \<in> gone. mset (waiting_on fd m)) \<and>
       (\<forall>fd \<ge> 0. waiting_on fd m' = (if fd \<in> gone then [] else waiting_on fd m)) \<and>
       mset (opened_fds (c1 @ c2)) = mset (closed_fds (c1 @ c2)) \<and>
       TcpServer_close_all epoll_fails (s4, m') = Inr ((s4, m'), []))"
proof -
  obtain socks k where r: "bind_loop ssl addrs [] [] = (socks, [], k)" "s1 = TcpServer_new\<lparr>ts_ssl := ssl, ts_socks := socks\<rparr>" "c1 = k"
    using assms(1) by (auto simp: TcpServer_bind_all_def TcpServer_new_def split: prod.splits if_splits)
  have "map fst (filter (\<lambda>x. \<not> bindable x) addrs) = []" using bind_loop_spec [OF r(1)] by simp
  then have all: "filter bindable addrs = addrs" by (simp add: filter_empty_conv filter_id_conv)
  then have fds: "map (\<lambda>l. sk_sock (base_of l)) socks = map (\<lambda>x. an_fd (ba_bind (snd x))) addrs"
    and bal: "mset (opened_fds k) = mset (closed_fds k) + live_all socks"
    using bind_loop_spec [OF r(1)] by simp_all
  have len: "length socks = length addrs" using arg_cong [OF fds, of length] by simp
  have "set (map (\<lambda>l. sk_sock (base_of l)) socks) = set (map (\<lambda>x. an_fd (ba_bind (snd x))) addrs)" by (simp only: fds)
  then have "\<forall>sock \<in> set socks. 0 \<le> sk_sock (base_of sock)" using assms(2) by force
  from close_socks_done [OF assms(3) this, of epoll_fails] obtain m' where
    c: "close_socks epoll_fails socks m = Inr (m', concat (map dropped socks))" "iom_reach m' A D"
      "mset (io_tasks m') = mset (io_tasks m) + (\<Sum>fd \<in> gone. mset (waiting_on fd m))"
      "\<forall>fd \<ge> 0. waiting_on fd m' = (if fd \<in> gone then [] else waiting_on fd m)"
    unfolding fds assms(6) by blast
  have s: "s2 = s1\<lparr>ts_isStop := False\<rparr>" "tasks = map Start_accept socks" "s3 = s2\<lparr>ts_isStop := True\<rparr>" "closing = [Close_all]"
    using assms(4,5) r(2) by (simp_all add: TcpServer_start_def TcpServer_stop_def TcpServer_new_def)
  show ?thesis using c bal len
    by (simp add: s r TcpServer_start_def TcpServer_close_all_def)
qed

text \<open>A fiber waits on descriptor 3, which is one of two that the server listens on.\<close>

theorem server_lifecycle_witness:
  "\<exists>m s4 m' c2. addEvent (sample_caller 1) False 3 EV_READ None IOManager_init = Inr (0, m) \<and>
     TcpServer_close_all (\<lambda>_. False)
       (fst (TcpServer_stop (fst (snd (TcpServer_start (fst (snd (snd
          (TcpServer_bind_all [demo_bind 3 0, demo_bind 6 0] [] True (TcpServer_new :: nat tcp_server))))))))), m) = Inr ((s4, m'), c2) \<and>
     mset (io_tasks m') = {#(7, Task_fiber 1)#}"
proof -
  let ?b = "TcpServer_bind_all [demo_bind 3 0, demo_bind 6 0] [] True (TcpServer_new :: nat tcp_server)"
  let ?gone = "let_go (\<lambda>_. False) (map (\<lambda>x. an_fd (ba_bind (snd x))) [demo_bind 3 0, demo_bind 6 0])"
  obtain m where m: "addEvent (sample_caller 1) False 3 EV_READ None IOManager_init = Inr (0, m)"
      "iom_reach m {#(7, Task_fiber 1)#} {#}" "3 < length (m_fdContexts m)" "fc_events (m_fdContexts m ! 3) = EV_READ"
    by (rule sample_iom)
  have ok: "fst ?b"
    by (simp add: TcpServer_bind_all_def demo_bind_def listener_CreateTCP_def SSL_CreateTCP_def SSLSocket_new_def SSL_bind_def
        SSL_listen_def Socket_listen_def socket_eval Let_def IPv4_new_def TcpServer_new_def)
  have bound: "?b = (True, fst (snd ?b), fst (snd (snd ?b)), snd (snd (snd ?b)))" by (rule quad_true [OF ok])
  have fds: "\<forall>x \<in> set [demo_bind 3 0, demo_bind 6 0]. 0 \<le> an_fd (ba_bind (snd x))" by (simp add: demo_bind_def demo_answers_def)
  have "3 \<in> ?gone" by (simp add: let_go_def demo_bind_def demo_answers_def)
  have here: "waiting_on 3 m = [(7, Task_fiber 1)]"
    using addEvent_awaited [OF m(1) sample_caller_ok] m(3,4)
    by (simp add: waiter_def sample_caller_def awaited_def waiting_on_def armed_tasks_def getEventContext_def ev_defs)
  have none: "io_tasks m = []"
    using addEvent_outcome [OF IOManager_init_ok _ _ sample_caller_ok [of 1 None], where fd = 3 and event = EV_READ and fails = False] m(1)
    by (auto simp: IOManager_init_idle)
  from server_lifecycle [OF bound fds m(2) triple_collapse prod.collapse [symmetric] refl, of "\<lambda>_. False"]
  obtain s4 m' c2 where c: "TcpServer_close_all (\<lambda>_. False) (fst (TcpServer_stop (fst (snd (TcpServer_start (fst (snd (snd ?b))))))), m)
      = Inr ((s4, m'), c2)" "iom_reach m' {#(7, Task_fiber 1)#} {#}"
      "mset (io_tasks m') = mset (io_tasks m) + (\<Sum>fd \<in> ?gone. mset (waiting_on fd m))" by blast
  have "mset (io_tasks m') \<subseteq># {#(7, Task_fiber 1)#}" using iom_reach_books [OF c(2)] by simp
  moreover have "mset (waiting_on 3 m) \<subseteq># (\<Sum>fd \<in> ?gone. mset (waiting_on fd m))"
    using \<open>3 \<in> ?gone\<close> by (simp add: sum.remove [where x = 3])
  ultimately have "mset (io_tasks m') = {#(7, Task_fiber 1)#}"
    using c(3) here none by (metis add.left_neutral mset.simps mset_zero_iff subset_mset.antisym mset_single_iff)
  with m(1) c(1) show ?thesis by blast
qed

end
