(* ===== verification/Gw_Main.thy ===== *)
theory Gw_Main
  imports Gw_Server Tcp_Server
begin

text \<open>
  \<open>src/main.cpp\<close>: the function \<open>run\<close>, which finds the address, binds the server, trying again each second,
  and starts it; and what becomes of the clients the server accepts, which are served by
  \<open>gateway_server::handleClient\<close> one task after the other.
\<close>

section \<open>Starting up\<close>

text \<open>No address was found: the null pointer is used.\<close>

datatype main_fault = Null_address

text \<open>The loop \<open>while (!server->bind(...)) sleep(1);\<close> with how often it sleeps.\<close>

fun bind_until ::
  "address \<Rightarrow> bind_answers list \<Rightarrow> 'c tcp_server \<Rightarrow> (nat \<times> 'c tcp_server \<times> sock_call list) option" where
  "bind_until addr [] s = None"
| "bind_until addr (ba # bas) s =
     (case TcpServer_bind (addr, ba) False s of
        (True, _, s, calls) \<Rightarrow> Some (0, s, calls)
      | (False, _, s, calls) \<Rightarrow> map_option (\<lambda>(n, s, calls'). (Suc n, s, calls @ calls')) (bind_until addr bas s))"

definition gateway_run ::
  "gai \<Rightarrow> int \<Rightarrow> bind_answers list \<Rightarrow> 'c tcp_server \<Rightarrow>
     (main_fault + nat \<times> 'c tcp_server \<times> 'c server_task list \<times> sock_call list) option" where
  "gateway_run gai port bas server =
     (case LookupAnyIPAddress gai (''0.0.0.0:'' @ show_int port) default_hints of
        None \<Rightarrow> Some (Inl Null_address)
      | Some m_address \<Rightarrow>
          (case bind_until m_address bas server of
             None \<Rightarrow> None
           | Some (n, server, calls) \<Rightarrow>
               (case TcpServer_start server of (_, server, tasks) \<Rightarrow> Some (Inr (n, server, tasks, calls)))))"

section \<open>Serving\<close>

text \<open>
  The tasks of the accept loop, run one after the other, each with the surroundings of its time; \<open>wire\<close> is the
  connection behind a client socket. The result has the closed client of every task. The scheduler may also run tasks at
  once, on several threads or while a fiber waits; this is one of the orders, with no overlap.
\<close>

fun serve_tasks ::
  "('c listener \<Rightarrow> sock) \<Rightarrow> (surroundings \<times> 'c server_task) list \<Rightarrow> gateway \<times> (nat \<Rightarrow> gateway_conn) \<Rightarrow>
     (ub + sock list \<times> gateway \<times> (nat \<Rightarrow> gateway_conn)) option" where
  "serve_tasks wire [] gs = Some (Inr ([], gs))"
| "serve_tasks wire ((env, Handle_client client) # ts) gs =
     (case handleClient env (nat (sk_sock (base_of client))) (wire client) gs of
        None \<Rightarrow> None
      | Some (Inl e) \<Rightarrow> Some (Inl e)
      | Some (Inr (closed, gs)) \<Rightarrow> map_option (map_sum id (apfst (Cons closed))) (serve_tasks wire ts gs))"
| "serve_tasks wire ((env, _) # ts) gs = serve_tasks wire ts gs"

lemma serve_tasks_served:
  assumes "\<forall>(env, task) \<in> set ts. env_crypto env = cr \<and>
      (\<exists>client. task = Handle_client client \<and> nat (sk_sock (base_of client)) < GW_MAX_FD)"
    and "gateway_ok cr g"
  shows "\<exists>closed g' conns'. serve_tasks wire ts (g, conns) = Some (Inr (closed, g', conns')) \<and>
    length closed = length ts \<and> (\<forall>c \<in> set closed. \<not> so_connected c) \<and> gateway_ok cr g' \<and>
    (\<exists>n \<le> length ts. m_total_requests (g_metrics g') = m_total_requests (g_metrics g) + of_nat n)"
  using assms
proof (induction ts arbitrary: g conns)
  case (Cons x ts)
  obtain env client where x: "x = (env, Handle_client client)" "env_crypto env = cr"
      "nat (sk_sock (base_of client)) < GW_MAX_FD"
    using Cons.prems(1) by (cases x) auto
  have "gateway_ok (env_crypto env) g" using Cons.prems(2) x(2) by simp
  then obtain client' g1 conns1 where 1:
      "handleClient env (nat (sk_sock (base_of client))) (wire client) (g, conns) = Some (Inr (client', g1, conns1))"
      "gateway_ok (env_crypto env) g1" "\<not> so_connected client'"
      "m_total_requests (g_metrics g1) = m_total_requests (g_metrics g) \<or>
       m_total_requests (g_metrics g1) = m_total_requests (g_metrics g) + 1"
    using handleClient_sound [OF _ x(3), of env g "wire client" conns] by metis
  have ok: "gateway_ok cr g1" using 1(2) x(2) by simp
  have ts: "\<forall>(env, task) \<in> set ts. env_crypto env = cr \<and>
      (\<exists>client. task = Handle_client client \<and> nat (sk_sock (base_of client)) < GW_MAX_FD)"
    using Cons.prems(1) by simp
  obtain closed g' conns' where r: "serve_tasks wire ts (g1, conns1) = Some (Inr (closed, g', conns'))"
      "length closed = length ts" "\<forall>c \<in> set closed. \<not> so_connected c" "gateway_ok cr g'"
      "\<exists>n \<le> length ts. m_total_requests (g_metrics g') = m_total_requests (g_metrics g1) + of_nat n"
    using Cons.IH [OF ts ok, of conns1] by blast
  have n: "\<exists>n \<le> length (x # ts). m_total_requests (g_metrics g') = m_total_requests (g_metrics g) + of_nat n"
  proof -
    obtain n where n: "n \<le> length ts" "m_total_requests (g_metrics g') = m_total_requests (g_metrics g1) + of_nat n"
      using r(5) by blast
    show ?thesis
    proof (cases "m_total_requests (g_metrics g1) = m_total_requests (g_metrics g)")
      case True then show ?thesis using n by (auto intro: exI [of _ n])
    next
      case False then show ?thesis using n 1(4) by (intro exI [of _ "Suc n"]) (simp add: ac_simps)
    qed
  qed
  have "serve_tasks wire (x # ts) (g, conns) = Some (Inr (client' # closed, g', conns'))" using 1(1) r(1) by (simp add: x(1))
  moreover have "length (client' # closed) = length (x # ts)" "\<forall>c \<in> set (client' # closed). \<not> so_connected c"
    using r(2,3) 1(3) by simp_all
  ultimately show ?case using r(4) n by blast
qed simp

lemma gateway_address:
  assumes "gai ''0.0.0.0'' (Some (show_int port)) default_hints = Some (Sockaddr_in a # more')" and "0 \<le> port"
  shows "LookupAnyIPAddress gai (''0.0.0.0:'' @ show_int port) default_hints = Some (IPv4Address a)"
proof -
  have "CHR '':'' \<notin> set (show_int port)" using assms(2) by (simp add: show_int_def digits_no_sep is_digit_def)
  then have "split_host_service (''0.0.0.0'' @ '':'' @ show_int port) = (''0.0.0.0'', Some (show_int port))"
    by (subst split_colon) simp_all
  then have "split_host_service (''0.0.0.0:'' @ show_int port) = (''0.0.0.0'', Some (show_int port))" by simp
  then show ?thesis using assms(1) by (simp add: LookupAnyIPAddress_def Lookup_def is_ip_def)
qed

lemma bind_one:
  assumes "TcpServer_bind (addr, ba) False s = (ok, fails, s', calls)"
  shows "(ok \<longleftrightarrow> bindable (addr, ba)) \<and>
     (ok \<longrightarrow> map (\<lambda>l. sk_sock (base_of l)) (ts_socks s') = map (\<lambda>l. sk_sock (base_of l)) (ts_socks s) @ [an_fd (ba_bind ba)]) \<and>
     (\<not> ok \<longrightarrow> ts_socks s' = []) \<and> ts_isStop s' = ts_isStop s \<and>
     mset (opened_fds calls) + live_all (ts_socks s) = mset (closed_fds calls) + live_all (ts_socks s')"
proof -
  obtain socks2 fails2 k where r: "bind_loop False [(addr, ba)] (ts_socks s) [] = (socks2, fails2, k)" by (metis prod.exhaust)
  have "ok \<longleftrightarrow> fails2 = []" "ts_socks s' = (if fails2 = [] then socks2 else [])" "ts_isStop s' = ts_isStop s"
      "calls = k @ (if fails2 = [] then [] else concat (map dropped socks2))"
    using assms by (auto simp: TcpServer_bind_def TcpServer_bind_all_def r simp del: bind_loop.simps split: if_splits)
  then show ?thesis using bind_loop_spec [OF r] by (cases "bindable (addr, ba)") (auto simp: ac_simps)
qed

lemma bind_until_done:
  assumes "\<forall>ba \<in> set fails. \<not> bindable (addr, ba)" and "bindable (addr, ba)"
  shows "ts_socks s = [] \<Longrightarrow> \<exists>s' calls. bind_until addr (fails @ ba # rest) s = Some (length fails, s', calls) \<and>
    map (\<lambda>l. sk_sock (base_of l)) (ts_socks s') = [an_fd (ba_bind ba)] \<and> ts_isStop s' = ts_isStop s \<and>
    mset (opened_fds calls) = mset (closed_fds calls) + live_all (ts_socks s')"
  using assms(1)
proof (induction fails arbitrary: s)
  case Nil
  obtain ok f s1 k where b: "TcpServer_bind (addr, ba) False s = (ok, f, s1, k)" by (metis prod.exhaust)
  from bind_one [OF b] assms(2) Nil b show ?case by auto
next
  case (Cons x fails)
  obtain ok f s1 k where b: "TcpServer_bind (addr, x) False s = (ok, f, s1, k)" by (metis prod.exhaust)
  from bind_one [OF b] Cons.prems have 1: "\<not> ok" "ts_socks s1 = []" "ts_isStop s1 = ts_isStop s"
      "mset (opened_fds k) = mset (closed_fds k)" by auto
  from Cons.IH [OF 1(2)] Cons.prems(2) obtain s' calls where
      "bind_until addr (fails @ ba # rest) s1 = Some (length fails, s', calls)"
      "map (\<lambda>l. sk_sock (base_of l)) (ts_socks s') = [an_fd (ba_bind ba)]" "ts_isStop s' = ts_isStop s1"
      "mset (opened_fds calls) = mset (closed_fds calls) + live_all (ts_socks s')" by auto
  then show ?case using b 1 by (simp add: ac_simps)
qed

text \<open>
  C36: The gateway comes up: with the address the resolver gives for any interface, and whatever number of attempts the
  kernel refuses first, \<open>run\<close> sleeps once for each of them, then listens on exactly the descriptor of the first
  attempt that succeeds, with one accept loop on it, and no descriptor of the failed attempts is left open.
  When the resolver gives nothing, the null address is passed to \<open>bind\<close>.
\<close>

theorem gateway_run_listens:
  assumes "0 \<le> port" and "gai ''0.0.0.0'' (Some (show_int port)) default_hints = Some (Sockaddr_in a # others)"
    and "\<forall>ba \<in> set failing. \<not> bindable (IPv4Address a, ba)" and "bindable (IPv4Address a, ba)"
    and "ts_socks server = []" and "ts_isStop server"
  shows "\<exists>server' calls.
    gateway_run gai port (failing @ ba # rest) server =
      Some (Inr (length failing, server', map Start_accept (ts_socks server'), calls)) \<and>
    map (\<lambda>l. sk_sock (base_of l)) (ts_socks server') = [an_fd (ba_bind ba)] \<and> \<not> ts_isStop server' \<and>
    mset (opened_fds calls) = mset (closed_fds calls) + live_all (ts_socks server')"
proof -
  note addr = gateway_address [of gai port a others, OF assms(2,1)]
  from bind_until_done [OF assms(3-5), of rest] obtain s' calls where
      "bind_until (IPv4Address a) (failing @ ba # rest) server = Some (length failing, s', calls)"
      "map (\<lambda>l. sk_sock (base_of l)) (ts_socks s') = [an_fd (ba_bind ba)]" "ts_isStop s'"
      "mset (opened_fds calls) = mset (closed_fds calls) + live_all (ts_socks s')"
    using assms(6) by auto
  then show ?thesis using addr by (simp add: gateway_run_def TcpServer_start_def)
qed

text \<open>A kernel that refuses twice and then lets the gateway bind descriptor 7.\<close>

definition any_host :: gai where
  "any_host node service hints =
     (if node = ''0.0.0.0'' \<and> service = Some ''8080'' then Some [Sockaddr_in (IPv4_new 0 8080)] else None)"

theorem gateway_run_listens_witness:
  "\<exists>server' calls.
    gateway_run any_host 8080 [snd (demo_bind 5 (-1)), snd (demo_bind 6 (-1)), snd (demo_bind 7 0)]
       (TcpServer_new :: nat tcp_server) = Some (Inr (2, server', map Start_accept (ts_socks server'), calls)) \<and>
    map (\<lambda>l. sk_sock (base_of l)) (ts_socks server') = [7]"
proof -
  have b: "bindable (IPv4Address (IPv4_new 0 8080), snd (demo_bind fd result)) \<longleftrightarrow> result = 0 \<and> fd \<noteq> -1" for fd result
    by (simp add: bindable_def demo_bind_def unix_in_use_def demo_answers_def)
  have port: "show_int 8080 = ''8080''"
    by (simp add: show_int_def show_nat.simps digit_char_def) code_simp
  have "any_host ''0.0.0.0'' (Some (show_int 8080)) default_hints = Some [Sockaddr_in (IPv4_new 0 8080)]"
    by (simp add: any_host_def port)
  from gateway_run_listens [where gai = any_host and port = 8080 and a = "IPv4_new 0 8080" and others = "[]", OF _ this, of "[snd (demo_bind 5 (-1)), snd (demo_bind 6 (-1))]" "snd (demo_bind 7 0)"
      "TcpServer_new :: nat tcp_server" "[]"]
  show ?thesis by (simp add: b) (auto simp: demo_bind_def demo_answers_def TcpServer_new_def)
qed

section \<open>From the listening socket to the reply\<close>

lemma round_client_plain:
  assumes "round_client (Plain s) r = Some c"
  shows "sk_sock (base_of c) = an_fd (ar_answers r)"
proof -
  obtain found fds where acc: "Socket_accept (ar_answers r) (ar_table r) s = (found, fds)" by (metis prod.exhaust)
  with assms obtain c' where "found = Some c'" "c = Plain c'" by (auto simp: round_client_def)
  with acc show ?thesis by (auto simp: Socket_accept_def Socket_init_def Let_def split: if_splits prod.splits option.splits)
qed


text \<open>One client arrives before the server is stopped.\<close>

definition demo_socket :: socket_obj where
  "demo_socket = (Socket_new AF_INET SOCK_STREAM 0)\<lparr>sk_sock := 7\<rparr>"


end
