(* ===== verification/Echo_Main.thy ===== *)
theory Echo_Main
  imports Gw_Main
begin

text \<open>
  The function that \<open>main\<close> of \<open>src/examples/upstream_echo_server.cpp\<close> schedules: one server for each port, a port that cannot
  be bound is passed over.
\<close>

text \<open>Each port comes with what the kernel answers to its \<open>bind\<close>; the result has the servers with their accept tasks.\<close>

fun echo_main ::
  "gai \<Rightarrow> (string \<times> bind_answers) list \<Rightarrow> main_fault + ('c tcp_server \<times> 'c server_task list) list" where
  "echo_main gai [] = Inr []"
| "echo_main gai ((p, ba) # ports) =
     (case LookupAnyIPAddress gai (''0.0.0.0:'' @ p) default_hints of
        None \<Rightarrow> Inl Null_address
      | Some addr \<Rightarrow>
          (case TcpServer_bind (addr, ba) False TcpServer_new of
             (True, _, s, _) \<Rightarrow> (case TcpServer_start s of (_, s, tasks) \<Rightarrow> map_sum id (Cons (s, tasks)) (echo_main gai ports))
           | (False, _, _, _) \<Rightarrow> echo_main gai ports))"

definition echo_ports :: "string list" where
  "echo_ports = [''8001'', ''8002'', ''9000'', ''8080'']"

text \<open>
  With an address found for each port, the servers that run are those of the ports that could be bound, in order, each
  listening on its descriptor with one accept loop.
\<close>

theorem echo_main_serves:
  assumes "\<forall>(p, ba) \<in> set ports. LookupAnyIPAddress gai (''0.0.0.0:'' @ p) default_hints = Some (addr p)"
  shows "\<exists>servers. (echo_main gai ports :: main_fault + ('c tcp_server \<times> 'c server_task list) list) = Inr servers \<and>
    map (\<lambda>(s, tasks). map (\<lambda>l. sk_sock (base_of l)) (ts_socks s)) servers =
      map (\<lambda>(p, ba). [an_fd (ba_bind ba)]) (filter (\<lambda>(p, ba). bindable (addr p, ba)) ports) \<and>
    (\<forall>(s, tasks) \<in> set servers. \<not> ts_isStop s \<and> tasks = map Start_accept (ts_socks s))"
  using assms
proof (induction ports)
  case (Cons x ports)
  obtain p ba where x: "x = (p, ba)" by fastforce
  have l: "LookupAnyIPAddress gai (''0.0.0.0:'' @ p) default_hints = Some (addr p)" using Cons.prems x by simp
  obtain servers where ih: "(echo_main gai ports :: main_fault + ('c tcp_server \<times> 'c server_task list) list) = Inr servers"
      "map (\<lambda>(s, tasks). map (\<lambda>l. sk_sock (base_of l)) (ts_socks s)) servers =
        map (\<lambda>(p, ba). [an_fd (ba_bind ba)]) (filter (\<lambda>(p, ba). bindable (addr p, ba)) ports)"
      "\<forall>(s, tasks) \<in> set servers. \<not> ts_isStop s \<and> tasks = map Start_accept (ts_socks s)"
    using Cons by auto
  obtain ok fails s calls where b: "TcpServer_bind (addr p, ba) False (TcpServer_new :: 'c tcp_server) = (ok, fails, s, calls)"
    by (metis prod.exhaust)
  note o = bind_one [OF b]
  show ?case
  proof (cases ok)
    case True
    then have "ts_isStop s" "map (\<lambda>l. sk_sock (base_of l)) (ts_socks s) = [an_fd (ba_bind ba)]" "bindable (addr p, ba)"
      using o by (simp_all add: TcpServer_new_def)
    then show ?thesis using ih l b True by (simp add: x TcpServer_start_def)
  next
    case False
    then show ?thesis using ih l b o by (simp add: x)
  qed
qed simp

end
