(* ===== verification/Text_Lines.thy ===== *)
theory Text_Lines
  imports Gw_Conn
begin

text \<open>
  Lemmas on searching a text made of lines, and on what the gateway's readers find in a request that was put
  together line by line.
\<close>

section \<open>Separators\<close>

lemma find0_sep:
  assumes "d \<notin> set p" and "p \<noteq> []"
  shows "find0 p (xs @ d # ys) =
    (case find0 p xs of Some i \<Rightarrow> Some i | None \<Rightarrow> map_option ((+) (Suc (length xs))) (find0 p ys))"
proof (induction xs)
  case Nil
  have "\<not> prefix p (d # ys)" using assms by (cases p) auto
  then show ?case using assms(2) by (cases "find0 p ys") auto
next
  case (Cons x xs)
  have "prefix p ((x # xs) @ d # ys) \<longleftrightarrow> prefix p (x # xs)"
  proof
    assume "prefix p ((x # xs) @ d # ys)"
    then have "prefix p (x # xs) \<or> (\<exists>zs. p = (x # xs) @ zs \<and> prefix zs (d # ys))" by (simp only: prefix_append)
    moreover have "zs = []" if "p = (x # xs) @ zs" "prefix zs (d # ys)" for zs
      using that assms(1) by (cases zs) auto
    ultimately show "prefix p (x # xs)" by auto
  qed (simp only: prefix_prefix)
  with Cons show ?case
    by (cases "find0 p xs"; cases "find0 p ys") auto
qed

lemma find0_sep_None:
  assumes "d \<notin> set p" and "p \<noteq> []" and "find0 p xs = None"
  shows "find0 p (xs @ d # ys) = map_option ((+) (Suc (length xs))) (find0 p ys)"
  using find0_sep [OF assms(1,2), of xs ys] assms(3) by simp

lemma find0_missing: "c \<in> set p \<Longrightarrow> c \<notin> set s \<Longrightarrow> find0 p s = None"
  by (rule find0_NoneI) (metis set_mono_prefix set_drop_subset subsetD)

lemma find0_short: "length s < length p \<Longrightarrow> find0 p s = None"
  by (rule find0_NoneI) (auto dest!: prefix_length_le)

lemma find0_here: "find0 p (p @ s) = Some 0"
  by (rule find0_eqI) auto

section \<open>Lines\<close>

text \<open>A line end that is followed by text is not the blank line, which is found behind the last line.\<close>

lemma find0_line:
  assumes "CHR 0x0D \<notin> set l" and "rest \<noteq> []" and "hd rest \<noteq> CHR 0x0D"
  shows "find0 blank_line (l @ crlf @ rest) = map_option ((+) (length l + 2)) (find0 blank_line rest)"
proof -
  obtain r rs where r: "rest = r # rs" "r \<noteq> CHR 0x0D" using assms(2,3) by (cases rest) auto
  have "find0 blank_line (crlf @ rest) = map_option ((+) 2) (find0 blank_line rest)"
    using r by (cases "find0 blank_line rest") (auto simp: blank_line_def crlf_def)
  then show ?thesis using find0_skip [OF assms(1), of "[CHR 0x0A, CHR 0x0D, CHR 0x0A]" "crlf @ rest"]
    by (cases "find0 blank_line rest") (auto simp: blank_line_def)
qed

lemma find0_last_line: "CHR 0x0D \<notin> set l \<Longrightarrow> find0 blank_line (l @ blank_line @ rest) = Some (length l)"
  using find0_skip [of "CHR 0x0D" l "[CHR 0x0A, CHR 0x0D, CHR 0x0A]" "blank_line @ rest"] find0_here [of blank_line rest]
  by (simp add: blank_line_def)

lemma find0_crlf: "CHR 0x0D \<notin> set l \<Longrightarrow> find0 crlf (l @ crlf @ rest) = Some (length l)"
  using find0_skip [of "CHR 0x0D" l "[CHR 0x0A]" "crlf @ rest"] find0_here [of crlf rest] by (simp add: crlf_def)

text \<open>The lines of a request's head, the last one without its end.\<close>

definition head_lines :: "string list \<Rightarrow> string \<Rightarrow> string" where
  "head_lines ls l = concat (map (\<lambda>l. l @ crlf) ls) @ l"

lemma head_lines_blank:
  assumes "\<forall>x \<in> set (ls @ [l]). CHR 0x0D \<notin> set x \<and> x \<noteq> []"
  shows "str_find (head_lines ls l @ blank_line @ body) blank_line 0 = Some (length (head_lines ls l))"
  using assms
proof (induction ls)
  case Nil
  then show ?case using find0_last_line by (simp add: head_lines_def str_find_def)
next
  case (Cons x ls)
  let ?rest = "head_lines ls l @ blank_line @ body"
  have IH: "find0 blank_line ?rest = Some (length (head_lines ls l))"
    using Cons by (simp add: str_find_def)
  have h: "?rest \<noteq> [] \<and> hd ?rest \<noteq> CHR 0x0D"
  proof (cases ls)
    case Nil
    then have "?rest = l @ blank_line @ body" by (simp add: head_lines_def)
    then show ?thesis using Cons.prems by (cases l) auto
  next
    case (Cons y ys)
    then have "?rest = y @ crlf @ head_lines ys l @ blank_line @ body" by (simp add: head_lines_def)
    then show ?thesis using Cons.prems \<open>ls = y # ys\<close> by (cases y) auto
  qed
  have "find0 blank_line (x @ crlf @ ?rest) = Some (length x + 2 + length (head_lines ls l))"
    using find0_line [of x ?rest] Cons.prems h IH by simp
  then show ?case by (simp add: head_lines_def str_find_def crlf_def)
qed

lemma head_lines_first:
  assumes "CHR 0x0D \<notin> set x"
  shows "str_find (head_lines (x # ls) l @ body) crlf 0 = Some (length x)" and "take (length x) (head_lines (x # ls) l @ body) = x"
  using find0_crlf [OF assms] by (simp_all add: head_lines_def str_find_def)

section \<open>Header values\<close>

lemma trim_blanks_one:
  assumes "w \<noteq> []" and "hd w \<notin> {CHR '' '', CHR 0x09}" and "last w \<notin> {CHR '' '', CHR 0x09}"
  shows "trim_blanks (CHR '' '' # w) = w"
proof -
  let ?B = "\<lambda>c. c \<in> set [CHR '' '', CHR 0x09]"
  obtain c cs where c: "w = c # cs" using assms(1) by (cases w) auto
  obtain d ds where d: "rev w = d # ds" "d = last w" using assms(1) by (metis last_rev list.exhaust_sel rev_is_Nil_conv rev_rev_ident hd_rev)
  have 1: "takeWhile ?B (CHR '' '' # w) = '' ''" using assms(2) c by simp
  have 2: "takeWhile ?B (rev (CHR '' '' # w)) = []" 
    unfolding rev.simps d(1) using assms(3) d(2) by simp
  show ?thesis unfolding trim_blanks_def find_first_not_of_def find_last_not_of_def 1 2
    using assms(1) by (simp add: substr_def Let_def)
qed

lemma header_value_line:
  assumes "str_find raw blank_line 0 = Some n" and "take n raw = pre @ key @ v @ tail" and "find0 key (pre @ key @ v @ tail) = Some (length pre)"
    and "CHR 0x0D \<notin> set key" and "CHR 0x0D \<notin> set v" and "tail = [] \<or> prefix crlf tail"
  shows "header_value raw key = Some (trim_blanks v)"
proof -
  let ?h = "pre @ key @ v @ tail"
  have h: "request_headers raw = ?h" using assms(1,2) by (simp add: request_headers_def substr_def)
  have k: "str_find ?h key 0 = Some (length pre)" using assms(3) by (simp add: str_find_def)
  have cr: "CHR 0x0D \<notin> set (key @ v)" using assms(4,5) by simp
  show ?thesis
  proof (cases "tail = []")
    case True
    have "find0 crlf (key @ v) = None" using cr by (intro find0_missing [of "CHR 0x0D"]) (simp_all add: crlf_def)
    then show ?thesis using h k True by (simp add: header_value_def str_find_def substr_def)
  next
    case False
    then obtain t where t: "tail = crlf @ t" using assms(6) by (auto simp: prefix_def)
    have "find0 crlf ((key @ v) @ crlf @ t) = Some (length (key @ v))" using cr by (rule find0_crlf)
    then show ?thesis using h k t by (simp add: header_value_def str_find_def substr_def)
  qed
qed

end
