(* ===== verification/Smoke_Client.thy ===== *)
theory Smoke_Client
  imports Gw_Server Text_Lines
begin

text \<open>
  \<open>src/examples/gateway_smoke_client.cpp\<close>: a client that reads the gateway's own configuration file, builds
  requests and tokens from it and sends them one after the other. The clock is an argument, as is the answer of
  \<open>access\<close>; a connection is the socket \<open>CreateTCP\<close> and \<open>connect\<close> give, \<open>None\<close> when connecting fails.
\<close>

section \<open>The configuration it reads\<close>

record jwt_conf =
  jc_secret :: string
  jc_issuer :: string
  jc_audience :: string
  jc_max_body_size :: int

definition jwt_conf_init :: jwt_conf where
  "jwt_conf_init = \<lparr>jc_secret = [], jc_issuer = [], jc_audience = [], jc_max_body_size = 0\<rparr>"

definition resolve_conf_path :: "(string \<Rightarrow> bool) \<Rightarrow> string \<Rightarrow> string" where
  "resolve_conf_path file_exists hint =
     (if file_exists hint then hint
      else case find file_exists [''conf/gateway.conf'', ''../conf/gateway.conf'', ''../../conf/gateway.conf''] of
        Some t \<Rightarrow> t
      | None \<Rightarrow> hint)"

definition conf_line :: "string \<Rightarrow> jwt_conf \<Rightarrow> jwt_conf" where
  "conf_line line c =
     (let (t, ss) = stream_token line; v = fst (stream_token ss)
      in if t = ''jwt_secret'' then c\<lparr>jc_secret := v\<rparr>
         else if t = ''jwt_issuer'' then c\<lparr>jc_issuer := v\<rparr>
         else if t = ''jwt_audience'' then c\<lparr>jc_audience := v\<rparr>
         else if t = ''max_body_size'' then c\<lparr>jc_max_body_size := strtoll10 v\<rparr>
         else c)"

definition read_conf :: "(string \<Rightarrow> bool) \<Rightarrow> (string \<Rightarrow> string option) \<Rightarrow> string \<Rightarrow> jwt_conf" where
  "read_conf file_exists fs path_hint =
     (case fs (resolve_conf_path file_exists path_hint) of
        None \<Rightarrow> jwt_conf_init
      | Some content \<Rightarrow> fold conf_line (getlines chr_lf content) jwt_conf_init)"

section \<open>The requests\<close>

definition auth_line :: "string \<Rightarrow> string" where
  "auth_line auth = (if auth \<noteq> [] then ''Authorization: Bearer '' @ auth @ crlf else [])"

definition build_req :: "string \<Rightarrow> string \<Rightarrow> string \<Rightarrow> string \<Rightarrow> string" where
  "build_req mthd path host auth =
     mthd @ '' '' @ path @ '' HTTP/1.1'' @ crlf @
     ''Host: '' @ host @ crlf @
     ''Connection: close'' @ crlf @
     auth_line auth @
     ''Content-Length: 0'' @ blank_line"

definition build_req_with_body :: "string \<Rightarrow> string \<Rightarrow> string \<Rightarrow> string \<Rightarrow> string \<Rightarrow> string" where
  "build_req_with_body mthd path host auth body =
     mthd @ '' '' @ path @ '' HTTP/1.1'' @ crlf @
     ''Host: '' @ host @ crlf @
     ''Connection: close'' @ crlf @
     auth_line auth @
     ''Content-Type: text/plain'' @ crlf @
     ''Content-Length: '' @ show_nat (length body) @ blank_line @
     body"

text \<open>The tokens of \<open>main\<close>; \<open>now\<close> is the system clock in seconds.\<close>

record smoke_tokens =
  st_good :: string
  st_bad_secret :: string
  st_bad_issuer :: string
  st_bad_audience :: string
  st_expired :: string

definition make_tokens :: "crypto \<Rightarrow> jwt_conf \<Rightarrow> int \<Rightarrow> smoke_tokens" where
  "make_tokens cr jc now =
     (let exp = now + 300
      in \<lparr>st_good = sign_hs256 cr (jc_secret jc) (jc_issuer jc) (jc_audience jc) exp,
          st_bad_secret = sign_hs256 cr ''wrong-secret'' (jc_issuer jc) (jc_audience jc) exp,
          st_bad_issuer = sign_hs256 cr (jc_secret jc) ''wrong-issuer'' (jc_audience jc) exp,
          st_bad_audience = sign_hs256 cr (jc_secret jc) (jc_issuer jc) ''wrong-audience'' exp,
          st_expired = sign_hs256 cr (jc_secret jc) (jc_issuer jc) (jc_audience jc) (exp - 3600)\<rparr>)"

text \<open>What \<open>main\<close> sends, in this order.\<close>

definition smoke_requests :: "crypto \<Rightarrow> jwt_conf \<Rightarrow> string \<Rightarrow> int \<Rightarrow> string list" where
  "smoke_requests cr jc host now =
     (let tok = make_tokens cr jc now
      in [build_req ''GET'' ''/__admin/metrics'' host [],
          build_req ''GET'' ''/service1/echo'' host (st_good tok),
          build_req ''GET'' ''/service1/echo'' host (st_good tok),
          build_req ''GET'' ''/service1/echo'' host [],
          build_req ''GET'' ''/service1/echo'' host (st_bad_secret tok),
          build_req ''GET'' ''/service1/echo'' host (st_bad_issuer tok),
          build_req ''GET'' ''/service1/echo'' host (st_bad_audience tok),
          build_req ''GET'' ''/service1/echo'' host (st_expired tok),
          build_req ''GET'' ''/echo'' host (st_good tok)] @
         (if jc_max_body_size jc > 0
          then [build_req_with_body ''POST'' ''/service1/echo'' host (st_good tok)
                  (replicate (nat (jc_max_body_size jc + 1)) (CHR ''x''))]
          else []) @
         [build_req ''GET'' ''/__admin/reload'' host []])"

text \<open>\<open>send_req\<close> and \<open>send_req_body\<close> on a connection: one \<open>send\<close>, then reading until there is nothing more.\<close>

datatype smoke_result = Connect_fail | Send_fail | Response string

function smoke_recv :: "string \<Rightarrow> sock \<Rightarrow> string \<times> sock" where
  "smoke_recv resp s =
     (case sock_recv 4096 s of
        (None, s') \<Rightarrow> (resp, s')
      | (Some buf, s') \<Rightarrow> smoke_recv (resp @ buf) s')"
  by pat_completeness auto
termination
  by (relation "measure (\<lambda>(resp, s). sum_list (map (\<lambda>seg. Suc (length seg)) (so_in s)))")
     (auto simp: sock_recv_def split: if_splits list.splits)

declare smoke_recv.simps [simp del]

definition send_req :: "string \<Rightarrow> sock option \<Rightarrow> smoke_result" where
  "send_req req conn =
     (case conn of
        None \<Rightarrow> Connect_fail
      | Some s \<Rightarrow>
          (case sock_send req s of
             (None, _) \<Rightarrow> Send_fail
           | (Some _, s') \<Rightarrow> Response (fst (smoke_recv [] s'))))"

section \<open>The client and the gateway read one file alike\<close>

lemma digits_val_takeWhile: "(\<And>c. is_digit c \<Longrightarrow> P c) \<Longrightarrow> digits_val acc (takeWhile P cs) = digits_val acc cs"
  by (induction cs arbitrary: acc) auto

lemma scan_int_token: "scan_int (fst (stream_token ss)) = scan_int ss"
proof -
  obtain t where t: "dropWhile is_space ss = t" "t = [] \<or> \<not> is_space (hd t)" by (metis hd_dropWhile)
  have d: "digits_val a (takeWhile (\<lambda>c. \<not> is_space c) cs) = digits_val a cs" for a cs
    by (rule digits_val_takeWhile) (auto dest: digit_not_space)
  show ?thesis
  proof (cases t)
    case Nil
    with t have "dropWhile is_space ss = []" by simp
    then show ?thesis by (simp add: stream_token_def scan_int_def del: dropWhile_eq_Nil_conv)
  next
    case (Cons c cs)
    then have "\<not> is_space c" using t by simp
    then show ?thesis using t Cons d [of _ cs] d [of _ "c # cs"] by (simp add: stream_token_def scan_int_def)
  qed
qed

definition conf_agrees :: "load_vars \<Rightarrow> jwt_conf \<Rightarrow> bool" where
  "conf_agrees v c \<longleftrightarrow> lv_jwt_secret v = jc_secret c \<and> lv_jwt_issuer v = jc_issuer c \<and>
     lv_jwt_audience v = jc_audience c \<and> (0 < jc_max_body_size c \<longrightarrow> lv_max_body_size v = jc_max_body_size c)"

lemma conf_agrees_if: "(b \<Longrightarrow> conf_agrees x c) \<Longrightarrow> (\<not> b \<Longrightarrow> conf_agrees y c) \<Longrightarrow> conf_agrees (if b then x else y) c"
  by simp

lemma conf_line_agrees: "conf_agrees v c \<Longrightarrow> conf_agrees (load_line line v) (conf_line line c)"
proof -
  assume a: "conf_agrees v c"
  obtain t ss where t: "stream_token line = (t, ss)" by fastforce
  have n: "strtoll10 (fst (stream_token ss)) = stream_int 64 ss"
    by (simp add: strtoll10_def stream_int_def scan_int_token)
  show ?thesis
  proof (cases "line = []")
    case True
    then show ?thesis using a by (simp add: load_line_def conf_line_def stream_token_def)
  next
    case False
    consider "t = ''jwt_secret''" | "t = ''jwt_issuer''" | "t = ''jwt_audience''" | "t = ''max_body_size''"
      | "t \<notin> {''jwt_secret'', ''jwt_issuer'', ''jwt_audience'', ''max_body_size''}" by blast
    then show ?thesis
    proof cases
      case 5
      then have "conf_line line c = c" by (simp add: conf_line_def t)
      moreover have "conf_agrees (load_line line v) c"
        unfolding load_line_def t Let_def prod.case
        by (intro conf_agrees_if; (use a 5 in \<open>simp add: conf_agrees_def load_route_frame split: prod.split\<close>))
      ultimately show ?thesis by simp
    qed (use a False n in \<open>auto simp: load_line_def conf_line_def conf_agrees_def t Let_def\<close>)
  qed
qed

lemma conf_lines_agree: "conf_agrees v c \<Longrightarrow> conf_agrees (load_lines ls v) (fold conf_line ls c)"
  by (induction ls arbitrary: v c) (simp_all add: load_lines_def conf_line_agrees)

lemma loaded_conf:
  assumes "load_from_file fs gai path (set_config_path path GatewayConfig_init, cache) = (True, cfg, cache')"
    and "resolve_conf_path file_exists hint = path" and "jc = read_conf file_exists fs hint"
  shows "jc_secret jc = m_jwt_secret cfg" and "jc_issuer jc = m_jwt_issuer cfg" and "jc_audience jc = m_jwt_audience cfg"
    and "0 < jc_max_body_size jc \<Longrightarrow> jc_max_body_size jc = m_max_body_size cfg" and "cache' = lru_new 10000"
proof -
  from load_success [OF assms(1)] obtain content v where l: "fs path = Some content"
      "v = load_lines (getlines chr_lf content) (load_init (set_config_path path GatewayConfig_init) cache)"
      "cfg = publish gai path v (set_config_path path GatewayConfig_init)" and c: "cache' = lru_new 10000" by blast
  have "conf_agrees (load_init (set_config_path path GatewayConfig_init) cache) jwt_conf_init"
    by (simp add: conf_agrees_def load_init_def set_config_path_def GatewayConfig_init_def jwt_conf_init_def)
  from conf_lines_agree [OF this, of "getlines chr_lf content"] have "conf_agrees v jc"
    using l(1,2) assms(2,3) by (simp add: read_conf_def)
  then show "jc_secret jc = m_jwt_secret cfg" and "jc_issuer jc = m_jwt_issuer cfg" and "jc_audience jc = m_jwt_audience cfg"
    and "0 < jc_max_body_size jc \<Longrightarrow> jc_max_body_size jc = m_max_body_size cfg"
    using l(3) by (simp_all add: conf_agrees_def publish_def build_trie_def split_def Let_def)
  show "cache' = lru_new 10000" by (rule c)
qed

section \<open>What the gateway reads in a request\<close>

text \<open>A part of a request that holds no line end and does not look like one of the two headers.\<close>

definition plain_text :: "string \<Rightarrow> bool" where
  "plain_text t \<longleftrightarrow> CHR 0x0D \<notin> set t \<and> find0 ''Authorization:'' t = None \<and> find0 ''Content-Length:'' t = None"

definition first_lines :: "string \<Rightarrow> string \<Rightarrow> string \<Rightarrow> string list" where
  "first_lines mthd path host = [mthd @ '' '' @ path @ '' HTTP/1.1'', ''Host: '' @ host, ''Connection: close'']"

definition auth_lines :: "string \<Rightarrow> string list" where
  "auth_lines auth = (if auth \<noteq> [] then [''Authorization: Bearer '' @ auth] else [])"

definition type_lines :: "bool \<Rightarrow> string list" where
  "type_lines b = (if b then [''Content-Type: text/plain''] else [])"

definition request_of :: "bool \<Rightarrow> string \<Rightarrow> string \<Rightarrow> string \<Rightarrow> string \<Rightarrow> string \<Rightarrow> string" where
  "request_of b mthd path host auth body =
     head_lines (first_lines mthd path host @ auth_lines auth @ type_lines b) (''Content-Length: '' @ show_nat (length body)) @
     blank_line @ body"

lemma show_nat_0: "show_nat 0 = ''0''"
  by (simp add: show_nat.simps digit_char_def) code_simp

lemma take_head: "take (length (h @ blank_line @ body) - (4 + length body)) (h @ blank_line @ body) = h"
  by (simp add: blank_line_def)

lemma build_req_lines: "build_req mthd path host auth = request_of False mthd path host auth []"
  by (simp add: build_req_def request_of_def head_lines_def first_lines_def auth_lines_def auth_line_def type_lines_def
      show_nat_0)

lemma build_req_with_body_lines: "build_req_with_body mthd path host auth body = request_of True mthd path host auth body"
  by (simp add: build_req_with_body_def request_of_def head_lines_def first_lines_def auth_lines_def auth_line_def type_lines_def)

abbreviation (input) joined :: "string list \<Rightarrow> string" where
  "joined ls \<equiv> concat (map (\<lambda>l. l @ crlf) ls)"

lemma find_first_lines:
  assumes "plain_text mthd" and "plain_text path" and "plain_text host" and "key \<in> {''Authorization:'', ''Content-Length:''}"
  shows "find0 key (joined (first_lines mthd path host) @ r) = map_option ((+) (length (joined (first_lines mthd path host)))) (find0 key r)"
  using assms by (cases "find0 key r") (auto simp: plain_text_def first_lines_def crlf_def find0_sep_None)

lemma find_auth_lines:
  assumes "plain_text auth"
  shows "find0 ''Content-Length:'' (joined (auth_lines auth) @ r) =
    map_option ((+) (length (joined (auth_lines auth)))) (find0 ''Content-Length:'' r)"
  using assms by (cases "find0 ''Content-Length:'' r") (auto simp: plain_text_def auth_lines_def crlf_def find0_sep_None)

lemma find_type_lines:
  "find0 ''Content-Length:'' (joined (type_lines b) @ r) =
    map_option ((+) (length (joined (type_lines b)))) (find0 ''Content-Length:'' r)"
  by (cases "find0 ''Content-Length:'' r") (auto simp: type_lines_def crlf_def)

lemma show_nat_no_cr: "CHR 0x0D \<notin> set (show_nat n)"
  using show_nat_digits [of n] by (auto simp: is_digit_def)

lemma request_blank:
  assumes "plain_text mthd" and "plain_text path" and "plain_text host" and "plain_text auth"
  shows "str_find (request_of b mthd path host auth body) blank_line 0 =
    Some (length (request_of b mthd path host auth body) - (4 + length body))"
proof -
  have "\<forall>x \<in> set ((first_lines mthd path host @ auth_lines auth @ type_lines b) @ [''Content-Length: '' @ show_nat (length body)]).
      CHR 0x0D \<notin> set x \<and> x \<noteq> []"
    using assms show_nat_no_cr by (auto simp: first_lines_def auth_lines_def type_lines_def plain_text_def)
  from head_lines_blank [OF this, of body] show ?thesis by (simp add: request_of_def blank_line_def)
qed

lemma request_content_length:
  assumes "plain_text mthd" and "plain_text path" and "plain_text host" and "plain_text auth" and "int (length body) < 2 ^ 63"
  shows "content_length (request_of b mthd path host auth body) = int (length body)"
proof -
  let ?raw = "request_of b mthd path host auth body" and ?n = "show_nat (length body)"
  let ?pre = "joined (first_lines mthd path host) @ joined (auth_lines auth) @ joined (type_lines b)"
  have raw: "?raw = (?pre @ ''Content-Length:'' @ ('' '' @ ?n) @ []) @ blank_line @ body"
    by (simp add: request_of_def head_lines_def)
  have f: "find0 ''Content-Length:'' (?pre @ ''Content-Length:'' @ ('' '' @ ?n) @ []) = Some (length ?pre)"
    using find_first_lines [OF assms(1-3)] find_auth_lines [OF assms(4)] find_type_lines find0_here [of "''Content-Length:''"]
    by (simp only: append_assoc append_Nil2) simp
  have t: "take (length ?raw - (4 + length body)) ?raw = ?pre @ ''Content-Length:'' @ ('' '' @ ?n) @ []"
    unfolding raw by (rule take_head)
  have "CHR 0x0D \<notin> set ('' '' @ ?n)" using show_nat_no_cr by simp
  from header_value_line [OF request_blank [OF assms(1-4)] t f _ this]
  have "header_value ?raw ''Content-Length:'' = Some (trim_blanks ('' '' @ ?n))" by simp
  moreover have "c \<notin> {CHR '' '', CHR 0x09}" if "c \<in> set ?n" for c
    using show_nat_digits [of "length body"] that by (auto simp: is_digit_def)
  from this [OF hd_in_set] this [OF last_in_set]
  have "hd ?n \<notin> {CHR '' '', CHR 0x09}" "last ?n \<notin> {CHR '' '', CHR 0x09}" by simp_all
  ultimately have "header_value ?raw ''Content-Length:'' = Some ?n"
    using trim_blanks_one [of ?n] by simp
  then show ?thesis using strtoll10_show_nat [OF assms(5)] by (simp add: content_length_def)
qed

lemma request_bearer:
  assumes "plain_text mthd" and "plain_text path" and "plain_text host" and "plain_text auth"
    and "CHR '' '' \<notin> set auth" and "CHR 0x09 \<notin> set auth"
  shows "bearer_token (request_of b mthd path host auth body) = (if auth = [] then None else Some auth)"
proof (cases "auth = []")
  case True
  let ?raw = "request_of b mthd path host auth body"
  let ?h = "joined (first_lines mthd path host) @ joined (type_lines b) @ ''Content-Length: '' @ show_nat (length body)"
  have raw: "?raw = ?h @ blank_line @ body" using True by (simp add: request_of_def head_lines_def auth_lines_def)
  have "CHR ''A'' \<notin> set (show_nat (length body))" using show_nat_digits [of "length body"] by (auto simp: is_digit_def)
  then have "find0 ''Authorization:'' (show_nat (length body)) = None" by (intro find0_missing [of "CHR ''A''"]) simp_all
  then have "find0 ''Authorization:'' (joined (type_lines b) @ ''Content-Length: '' @ show_nat (length body)) = None"
    by (auto simp: type_lines_def crlf_def find0_sep_None)
  then have "find0 ''Authorization:'' ?h = None" using find_first_lines [OF assms(1-3), of "''Authorization:''"] by simp
  moreover have "take (length ?raw - (4 + length body)) ?raw = ?h" unfolding raw by (rule take_head)
  ultimately have "find0 ''Authorization:'' (take (length ?raw - (4 + length body)) ?raw) = None" by simp
  then show ?thesis using True request_blank [OF assms(1-4), of b body]
    by (simp add: bearer_token_def header_value_def request_headers_def substr_def str_find_def)
next
  case False
  let ?raw = "request_of b mthd path host auth body" and ?pre = "joined (first_lines mthd path host)"
  let ?tail = "crlf @ joined (type_lines b) @ ''Content-Length: '' @ show_nat (length body)"
  have raw: "?raw = (?pre @ ''Authorization:'' @ ('' Bearer '' @ auth) @ ?tail) @ blank_line @ body"
    using False by (simp add: request_of_def head_lines_def auth_lines_def)
  have f: "find0 ''Authorization:'' (?pre @ ''Authorization:'' @ ('' Bearer '' @ auth) @ ?tail) = Some (length ?pre)"
    using find_first_lines [OF assms(1-3)] find0_here [of "''Authorization:''"] by (simp only: append_assoc) simp
  have t: "take (length ?raw - (4 + length body)) ?raw = ?pre @ ''Authorization:'' @ ('' Bearer '' @ auth) @ ?tail"
    unfolding raw by (rule take_head)
  have "CHR 0x0D \<notin> set ('' Bearer '' @ auth)" using assms(4) by (simp add: plain_text_def)
  from header_value_line [OF request_blank [OF assms(1-4)] t f _ this]
  have "header_value ?raw ''Authorization:'' = Some (trim_blanks ('' Bearer '' @ auth))" by simp
  moreover have "last auth \<notin> {CHR '' '', CHR 0x09}" using assms(5,6) last_in_set [OF False] by auto
  then have "trim_blanks ('' Bearer '' @ auth) = ''Bearer '' @ auth"
    using trim_blanks_one [of "''Bearer '' @ auth"] False by simp
  ultimately show ?thesis using False by (simp add: bearer_token_def substr_def)
qed

section \<open>The properties\<close>

text \<open>
  C38: The client and the gateway read one configuration file alike: after a successful first load the secret, the
  issuer and the audience the client uses are those the gateway checks, and when the client knows a
  positive limit of the body it is the gateway's, so that its oversize request exceeds it.
\<close>

theorem smoke_conf_agrees:
  assumes "load_from_file fs gai path (set_config_path path GatewayConfig_init, cache) = (True, cfg, cache')"
    and "resolve_conf_path file_exists hint = path" and "jc = read_conf file_exists fs hint"
  shows "jc_secret jc = m_jwt_secret cfg \<and> jc_issuer jc = m_jwt_issuer cfg \<and> jc_audience jc = m_jwt_audience cfg \<and>
    (0 < jc_max_body_size jc \<longrightarrow> jc_max_body_size jc = m_max_body_size cfg)"
  using loaded_conf [OF assms] by metis

text \<open>
  C39: What the client writes the gateway reads: the request line has the client's method and path, the token of
  the authorization header is the client's, the declared length is that of the body, and the body is what follows the first
  blank line.
\<close>

theorem smoke_request_understood:
  assumes "plain_text mthd" and "plain_text path" and "plain_text host" and "plain_text auth"
    and "CHR '' '' \<notin> set (mthd @ path @ auth)" and "CHR 0x09 \<notin> set auth" and "int (length body) < 2 ^ 63"
    and "raw = build_req mthd path host auth \<and> body = [] \<or> raw = build_req_with_body mthd path host auth body"
  shows "parse_request_line raw = Some (mthd, path, ''HTTP/1.1'') \<and>
    bearer_token raw = (if auth = [] then None else Some auth) \<and>
    content_length raw = int (length body) \<and>
    (\<exists>n. str_find raw blank_line 0 = Some n \<and> drop (n + 4) raw = body)"
proof -
  obtain b where raw: "raw = request_of b mthd path host auth body"
    using assms(8) build_req_lines build_req_with_body_lines by metis
  let ?line = "mthd @ '' '' @ path @ '' HTTP/1.1''"
  have cr: "CHR 0x0D \<notin> set ?line" using assms(1,2) by (simp add: plain_text_def)
  obtain ls l rest where r: "raw = head_lines (?line # ls) l @ rest"
    unfolding raw request_of_def first_lines_def by auto
  have "parse_request_line raw = Some (mthd, path, ''HTTP/1.1'')"
    unfolding parse_request_line_iff using head_lines_first [OF cr, of ls l rest] assms(5)
    by (intro exI [of _ "length ?line"]) (simp add: r)
  moreover have "bearer_token raw = (if auth = [] then None else Some auth)"
    unfolding raw using assms(1-6) by (intro request_bearer) simp_all
  moreover have "content_length raw = int (length body)"
    unfolding raw using assms(1-4,7) by (rule request_content_length)
  moreover have "str_find raw blank_line 0 = Some (length raw - (4 + length body))"
    unfolding raw using assms(1-4) by (rule request_blank)
  moreover have "drop (length raw - (4 + length body) + 4) raw = body"
    unfolding raw request_of_def by (simp add: blank_line_def)
  ultimately show ?thesis by blast
qed

lemma sign_plain:
  assumes "b64_codec cr"
  shows "plain_text (sign_hs256 cr secret iss aud exp)" and "CHR '' '' \<notin> set (sign_hs256 cr secret iss aud exp)"
    and "CHR 0x09 \<notin> set (sign_hs256 cr secret iss aud exp)" and "sign_hs256 cr secret iss aud exp \<noteq> []"
proof -
  have "c \<notin> set (sign_hs256 cr secret iss aud exp)" if "c \<notin> set (''.-_'' @ b64_alphabet)" for c
    using sign_chars [OF assms] that by blast
  then have no: "CHR 0x0D \<notin> set (sign_hs256 cr secret iss aud exp)" "CHR '':'' \<notin> set (sign_hs256 cr secret iss aud exp)"
    and "CHR '' '' \<notin> set (sign_hs256 cr secret iss aud exp)" "CHR 0x09 \<notin> set (sign_hs256 cr secret iss aud exp)"
    by (simp_all add: b64_alphabet_def)
  then show "plain_text (sign_hs256 cr secret iss aud exp)" and "CHR '' '' \<notin> set (sign_hs256 cr secret iss aud exp)"
    and "CHR 0x09 \<notin> set (sign_hs256 cr secret iss aud exp)"
    using find0_missing [of "CHR '':''" _ "sign_hs256 cr secret iss aud exp"] by (simp_all add: plain_text_def)
  show "sign_hs256 cr secret iss aud exp \<noteq> []" by (simp add: sign_hs256_def Let_def)
qed

lemma auth_of_request:
  assumes "cache_sound cr cfg cache" and "m_jwt_enabled cfg" and "bearer_token request = tok"
    and "\<And>t. t \<in> {c_now clk, c_verify clk} \<Longrightarrow> (case tok of None \<Rightarrow> False | Some token \<Rightarrow> verifies cr cfg token t) = ok"
  shows "\<exists>cache'. auth_apply cr cfg clk (make_context request mpv client) cache = Inr (if ok then Inr () else unauthorized, cache')"
proof -
  let ?ctx = "make_context request mpv client"
  have "auth_token_ok cr cfg ?ctx t = ok" if "t \<in> {c_now clk, c_verify clk}" for t
    using assms(3,4) that by (simp add: auth_token_ok_def make_context_def)
  then show ?thesis using jwt_auth_sound [OF assms(1), of clk ?ctx] assms(2) by (auto simp: auth_apply_def)
qed

text \<open>
  C37: The verdicts the client is made to provoke. On a gateway that has loaded the file the client reads, with
  tokens checked (\<open>jwt_enabled\<close>), an issuer and an audience that are set, contain no double quote and are not the
  client's wrong ones, and within five minutes of the client's start, the good token passes and every other request
  is rejected with 401: no token, one signed with another secret, one for another issuer or audience, one
  that has expired. What it takes besides: of the one text that the good token signs the two secrets give different digests,
  the issuer is not the word \<open>exp\<close>, which hides the expiry, the clock is past the first 3300 seconds of its epoch, as the expiry of the
  last token is not negative then, and far from the end of an \<open>int64_t\<close>.
\<close>

theorem smoke_tokens_judged:
  assumes "load_from_file fs gai path (set_config_path path GatewayConfig_init, cache) = (True, cfg, cache')"
    and "resolve_conf_path file_exists hint = path" and "jc = read_conf file_exists fs hint" and "m_jwt_enabled cfg"
    and "b64_codec cr" and "hmac_nonempty cr" and "msg = signed_text cr (jc_issuer jc) (jc_audience jc) (now + 300)"
    and "hmac_sha256 cr ''wrong-secret'' msg \<noteq> hmac_sha256 cr (jc_secret jc) msg"
    and "CHR 0x22 \<notin> set (jc_issuer jc @ jc_audience jc)" and "jc_issuer jc \<notin> {[], ''exp'', ''wrong-issuer''}"
    and "jc_audience jc \<notin> {[], ''wrong-audience''}"
    and "3300 \<le> now" and "now + 300 < 2 ^ 63" and "{c_now clk, c_verify clk} \<subseteq> {now..now + 300}" and "plain_text host"
    and "tok = make_tokens cr jc now"
    and "(auth, ok) \<in> {(st_good tok, True), ([], False), (st_bad_secret tok, False), (st_bad_issuer tok, False),
      (st_bad_audience tok, False), (st_expired tok, False)}"
  shows "\<exists>cache''. auth_apply cr cfg clk (make_context (build_req ''GET'' ''/service1/echo'' host auth) mpv client) cache' =
    Inr (if ok then Inr () else unauthorized, cache'')"
proof (rule auth_of_request)
  note conf = loaded_conf [OF assms(1-3)]
  have "lru_ok (lru_new 10000 :: jwt_cache)" by (rule lru_new_ok) simp
  then show "cache_sound cr cfg cache'" unfolding conf(5) by (rule cache_sound_empty) (simp add: lru_new_def)
  show "m_jwt_enabled cfg" by (rule assms(4))
  have quotes: "CHR 0x22 \<notin> set (jc_issuer jc)" "CHR 0x22 \<notin> set (jc_audience jc)" "CHR 0x22 \<notin> set ''wrong-issuer''"
      "CHR 0x22 \<notin> set ''wrong-audience''" using assms(9) by simp_all
  have plain: "plain_text auth \<and> CHR '' '' \<notin> set auth \<and> CHR 0x09 \<notin> set auth"
    using assms(16,17) sign_plain [OF assms(5)] by (auto simp: make_tokens_def Let_def) (simp_all add: plain_text_def)
  have "plain_text ''GET''" "plain_text ''/service1/echo''" by (simp_all add: plain_text_def)
  then show "bearer_token (build_req ''GET'' ''/service1/echo'' host auth) = (if auth = [] then None else Some auth)"
    unfolding build_req_lines using assms(15) plain by (intro request_bearer) simp_all
  fix t assume "t \<in> {c_now clk, c_verify clk}"
  then have t: "now \<le> t" "t \<le> now + 300" using assms(14) by auto
  have judged: "verifies cr cfg (sign_hs256 cr secret iss aud exp) t \<longleftrightarrow>
      hmac_sha256 cr secret (signed_text cr iss aud exp) = hmac_sha256 cr (jc_secret jc) (signed_text cr iss aud exp) \<and>
      jc_issuer jc = iss \<and> jc_audience jc = aud \<and> (iss = ''exp'' \<or> exp < 0 \<or> t \<le> exp)"
    if "CHR 0x22 \<notin> set iss" "CHR 0x22 \<notin> set aud" "exp < 2 ^ 63" for secret iss aud exp
    using signed_verifies [OF assms(5,6) that] assms(10,11) by (simp add: verifies_def conf(1-3) [symmetric])
  show "(case if auth = [] then None else Some auth of None \<Rightarrow> False | Some token \<Rightarrow> verifies cr cfg token t) = ok"
    using assms(16,17) sign_plain(4) [OF assms(5)] assms(8) [unfolded assms(7)] assms(10-13) t
    by (auto simp: make_tokens_def Let_def judged quotes)
qed

section \<open>At one configuration\<close>

definition smoke_file :: "string \<Rightarrow> string option" where
  "smoke_file p =
     (if p = ''../conf/gateway.conf''
      then Some (''route / h:1'' @ [chr_lf] @ ''jwt_enabled on'' @ [chr_lf] @ ''jwt_secret s'' @ [chr_lf] @
                 ''jwt_issuer me'' @ [chr_lf] @ ''jwt_audience you'' @ [chr_lf] @ ''max_body_size 9'')
      else None)"

abbreviation (input) smoke_path :: string where "smoke_path \<equiv> ''../conf/gateway.conf''"
abbreviation (input) smoke_exists :: "string \<Rightarrow> bool" where "smoke_exists \<equiv> (\<lambda>p. p = ''../conf/gateway.conf'')"

lemma smoke_read: "read_conf smoke_exists smoke_file ''here'' =
    \<lparr>jc_secret = ''s'', jc_issuer = ''me'', jc_audience = ''you'', jc_max_body_size = 9\<rparr>"
  by code_simp

lemma smoke_resolved: "resolve_conf_path smoke_exists ''here'' = smoke_path"
  by code_simp

lemma smoke_load:
  obtains cfg cache where "load_from_file smoke_file no_hosts smoke_path (set_config_path smoke_path GatewayConfig_init, jwt_cache_init) =
      (True, cfg, cache)" and "m_jwt_enabled cfg"
proof -
  have "case load_from_file smoke_file no_hosts smoke_path (set_config_path smoke_path GatewayConfig_init, jwt_cache_init) of
      (ok, cfg, cache) \<Rightarrow> ok \<and> m_jwt_enabled cfg"
    by code_simp
  then show thesis using that by (auto split: prod.splits)
qed

theorem smoke_conf_agrees_witness:
  "\<exists>cfg cache. load_from_file smoke_file no_hosts smoke_path (set_config_path smoke_path GatewayConfig_init, jwt_cache_init) =
     (True, cfg, cache) \<and> m_jwt_secret cfg = ''s'' \<and> m_max_body_size cfg = 9"
proof -
  obtain cfg cache where l: "load_from_file smoke_file no_hosts smoke_path (set_config_path smoke_path GatewayConfig_init, jwt_cache_init) =
      (True, cfg, cache)" by (rule smoke_load)
  from smoke_conf_agrees [OF l smoke_resolved smoke_read [symmetric]] l show ?thesis by auto
qed

theorem smoke_request_understood_witness:
  "parse_request_line (build_req ''GET'' ''/x'' ''h:1'' ''tok'') = Some (''GET'', ''/x'', ''HTTP/1.1'') \<and>
   bearer_token (build_req ''GET'' ''/x'' ''h:1'' ''tok'') = Some ''tok'' \<and>
   content_length (build_req_with_body ''POST'' ''/x'' ''h:1'' [] ''xxx'') = 3"
proof -
  have "plain_text ''GET''" "plain_text ''POST''" "plain_text ''/x''" "plain_text ''h:1''" "plain_text ''tok''" "plain_text []"
    by (simp_all add: plain_text_def)
  with smoke_request_understood [of "''GET''" "''/x''" "''h:1''" "''tok''" "[]" "build_req ''GET'' ''/x'' ''h:1'' ''tok''"]
    smoke_request_understood [of "''POST''" "''/x''" "''h:1''" "[]" "''xxx''" "build_req_with_body ''POST'' ''/x'' ''h:1'' [] ''xxx''"]
  show ?thesis by simp
qed

theorem smoke_tokens_judged_witness:
  "\<exists>cfg cache v. load_from_file smoke_file no_hosts smoke_path (set_config_path smoke_path GatewayConfig_init, jwt_cache_init) =
     (True, cfg, cache) \<and>
   auth_apply sample_crypto cfg \<lparr>c_time = 5000, c_now = 5000, c_verify = 5001\<rparr>
     (make_context (build_req ''GET'' ''/service1/echo'' ''h:1''
        (st_expired (make_tokens sample_crypto (read_conf smoke_exists smoke_file ''here'') 5000)))
        (''GET'', ''/service1/echo'', ''HTTP/1.1'') sample_client) cache = Inr (unauthorized, v)"
proof -
  obtain cfg cache where l: "load_from_file smoke_file no_hosts smoke_path (set_config_path smoke_path GatewayConfig_init, jwt_cache_init) =
      (True, cfg, cache)" and on: "m_jwt_enabled cfg" by (rule smoke_load)
  let ?jc = "read_conf smoke_exists smoke_file ''here''"
  have hmac: "hmac_sha256 sample_crypto ''wrong-secret'' m \<noteq> hmac_sha256 sample_crypto (jc_secret ?jc) m" for m
    by (simp add: smoke_read sample_crypto_def)
  have "plain_text ''h:1''" by (simp add: plain_text_def)
  from smoke_tokens_judged [OF l smoke_resolved refl on conjunct1 [OF sample_crypto_laws] conjunct2 [OF sample_crypto_laws] refl hmac
      _ _ _ _ _ _ this refl, where now = 5000 and clk = "\<lparr>c_time = 5000, c_now = 5000, c_verify = 5001\<rparr>"
      and auth = "st_expired (make_tokens sample_crypto ?jc 5000)" and ok = False
      and mpv = "(''GET'', ''/service1/echo'', ''HTTP/1.1'')" and client = sample_client] l
  show ?thesis by (simp add: smoke_read)
qed

end
