(* ===== verification/Upstream_Echo.thy ===== *)
theory Upstream_Echo
  imports Smoke_Client
begin

text \<open>
  \<open>src/examples/upstream_echo_server.cpp\<close>: the upstream server behind the gateway in the tests,
  \<open>UpstreamEchoServer::handleClient\<close>. The result of \<open>send\<close> is ignored there.
\<close>

section \<open>A connection\<close>

text \<open>The inner loop: read until the text has a blank line; \<open>None\<close> when the client sends no more.\<close>

function echo_read :: "string \<Rightarrow> sock \<Rightarrow> string option \<times> sock" where
  "echo_read request client =
     (case sock_recv 4096 client of
        (None, client') \<Rightarrow> (None, client')
      | (Some buf, client') \<Rightarrow>
          (let request = request @ buf
           in if str_find request blank_line 0 \<noteq> None then (Some request, client') else echo_read request client'))"
  by pat_completeness auto
termination
  by (relation "measure (\<lambda>(request, s). sum_list (map (\<lambda>seg. Suc (length seg)) (so_in s)))")
     (auto simp: sock_recv_def split: if_splits list.splits)

declare echo_read.simps [simp del]

text \<open>The first line: method, path and version, or what they are set to before.\<close>

definition echo_line :: "string \<Rightarrow> string \<times> string \<times> string" where
  "echo_line request =
     (let line = (case str_find request crlf 0 of None \<Rightarrow> request | Some eol \<Rightarrow> substr request 0 (Some eol))
      in case str_find line '' '' 0 of None \<Rightarrow> (''GET'', ''/'', ''HTTP/1.1'')
         | Some p1 \<Rightarrow>
             (case str_find line '' '' (p1 + 1) of None \<Rightarrow> (''GET'', ''/'', ''HTTP/1.1'')
              | Some p2 \<Rightarrow>
                  (substr line 0 (Some p1), substr line (p1 + 1) (Some (p2 - p1 - 1)), substr line (p2 + 1) None)))"

definition tolower_char :: "char \<Rightarrow> char" where
  "tolower_char c = (if 65 \<le> (of_char c :: nat) \<and> (of_char c :: nat) \<le> 90 then char_of ((of_char c :: nat) + 32) else c)"

text \<open>
  Whether the connection is given up after this request. When the blank line begins at the end of the first line
  the length is negative and wraps around, which gives all the rest.
\<close>

definition echo_close :: "string \<Rightarrow> string \<Rightarrow> bool" where
  "echo_close request version =
     ((case str_find request crlf 0 of
         None \<Rightarrow> False
       | Some eol \<Rightarrow>
           (let hdr_start = eol + 2;
                headers_block = (case str_find request blank_line 0 of
                  None \<Rightarrow> substr request hdr_start None
                | Some e \<Rightarrow> substr request hdr_start (if hdr_start \<le> e then Some (e - hdr_start) else None))
            in str_find (map tolower_char headers_block) ''connection: close'' 0 \<noteq> None)) \<or>
      version = ''HTTP/1.0'')"

definition echo_reply :: "string \<Rightarrow> string \<Rightarrow> bool \<Rightarrow> string" where
  "echo_reply path version close_conn =
     (let body = ''echo '' @ path @ [chr_lf]
      in version @ '' 200 OK'' @ crlf @ ''Content-Type: text/plain'' @ crlf @
         ''Connection: '' @ (if close_conn then ''close'' else ''keep-alive'') @ crlf @
         ''Content-Length: '' @ show_nat (length body) @ crlf @ crlf @ body)"

text \<open>What is sent on one connection, and the client at the end.\<close>

lemma echo_read_shorter:
  "echo_read request s = (Some r, s') \<Longrightarrow>
     sum_list (map (\<lambda>seg. Suc (length seg)) (so_in s')) < sum_list (map (\<lambda>seg. Suc (length seg)) (so_in s))"
proof (induction request s rule: echo_read.induct)
  case (1 request s)
  obtain b s1 where b: "sock_recv 4096 s = (b, s1)" by fastforce
  show ?case
  proof (cases b)
    case None
    then show ?thesis using "1.prems" b by (simp add: echo_read.simps [of request s])
  next
    case (Some buf)
    have less: "sum_list (map (\<lambda>seg. Suc (length seg)) (so_in s1)) < sum_list (map (\<lambda>seg. Suc (length seg)) (so_in s))"
      using b Some by (auto simp: sock_recv_def split: if_splits list.splits)
    show ?thesis
    proof (cases "str_find (request @ buf) blank_line 0 = None")
      case True
      then have "echo_read (request @ buf) s1 = (Some r, s')"
        using "1.prems" b Some by (simp add: echo_read.simps [of request s] Let_def)
      from "1.IH" [OF b [symmetric] Some refl _ this] True less show ?thesis by simp
    next
      case False
      then show ?thesis using "1.prems" b Some less by (simp add: echo_read.simps [of request s] Let_def)
    qed
  qed
qed

function echo_handle :: "sock \<Rightarrow> sock" where
  "echo_handle client =
     (case echo_read [] client of
        (None, client) \<Rightarrow> sock_close client
      | (Some request, client') \<Rightarrow>
          (let (mthd, path, version) = echo_line request;
               close_conn = echo_close request version;
               client' = snd (sock_send (echo_reply path version close_conn) client')
           in if close_conn then sock_close client' else echo_handle client'))"
  by pat_completeness auto
termination
proof (relation "measure (\<lambda>s. sum_list (map (\<lambda>seg. Suc (length seg)) (so_in s)))")
  fix client request client' and x y path version close_conn xa
  assume "(x, client') = echo_read [] client" "x = Some request" "xa = snd (sock_send (echo_reply path version close_conn) client')"
  moreover have "so_in (snd (sock_send t s)) = so_in s" for t s
    by (simp add: sock_send_def Let_def split: list.splits)
  ultimately show "(xa, client) \<in> measure (\<lambda>s. sum_list (map (\<lambda>seg. Suc (length seg)) (so_in s)))"
    using echo_read_shorter [of "[]" client request client'] by simp
qed auto

declare echo_handle.simps [simp del]

section \<open>What a request is answered\<close>

lemma sock_recv_bytes:
  assumes "so_connected s" and "[] \<notin> set (so_in s)" and "so_in s \<noteq> []" and "0 < n"
  obtains buf segs where "sock_recv n s = (Some buf, s\<lparr>so_in := segs\<rparr>)" and "concat (so_in s) = buf @ concat segs" and "[] \<notin> set segs"
proof -
  obtain seg rest where seg: "so_in s = seg # rest" "seg \<noteq> []" using assms(2,3) by (cases "so_in s") auto
  have "take n seg @ drop n seg = seg" by simp
  then show thesis using seg assms
    by (intro that [of "take n seg" "if length seg \<le> n then rest else drop n seg # rest"])
      (auto simp: sock_recv_def simp flip: append_assoc)
qed

lemma echo_read_head:
  assumes "str_find (r @ concat (so_in s)) blank_line 0 = Some n" and "str_find r blank_line 0 = None"
    and "so_connected s" and "[] \<notin> set (so_in s)"
  shows "\<exists>request segs. echo_read r s = (Some request, s\<lparr>so_in := segs\<rparr>) \<and> r @ concat (so_in s) = request @ concat segs \<and>
    str_find request blank_line 0 = Some n"
  using assms
proof (induction r s rule: echo_read.induct)
  case (1 r s)
  have "so_in s \<noteq> []" using "1.prems"(1,2) by auto
  from sock_recv_bytes [OF "1.prems"(3,4) this, of 4096] obtain buf segs where b: "sock_recv 4096 s = (Some buf, s\<lparr>so_in := segs\<rparr>)" "concat (so_in s) = buf @ concat segs" "[] \<notin> set segs"
    by auto
  show ?case
  proof (cases "str_find (r @ buf) blank_line 0")
    case None
    from "1.IH" [OF b(1) [symmetric] refl refl _ _ None] "1.prems" b None
    show ?thesis by (auto simp: echo_read.simps [of r s] Let_def)
  next
    case (Some k)
    have "str_find ((r @ buf) @ concat segs) blank_line 0 = Some k" by (rule blank_line_append [OF Some])
    then have "k = n" using "1.prems"(1) b(2) by simp
    then show ?thesis using b Some by (intro exI [of _ "r @ buf"] exI [of _ segs]) (simp add: echo_read.simps [of r s] Let_def)
  qed
qed

lemma echo_line_parse: "parse_request_line request = Some mpv \<Longrightarrow> echo_line request = mpv"
  by (auto simp: parse_request_line_def echo_line_def Let_def split: option.splits)

lemma echo_close_head:
  assumes "CHR 0x0D \<notin> set line" and "str_find request blank_line 0 = Some (length head)"
    and "take (length head) request = head" and "head = line @ crlf @ a @ ''Connection: close'' @ b"
  shows "echo_close request version"
proof -
  have t: "request = head @ drop (length head) request" using assms(3) by (metis append_take_drop_id)
  have "str_find request crlf 0 = Some (length line)"
    using find0_crlf [OF assms(1), of "a @ ''Connection: close'' @ b @ drop (length head) request"] t assms(4)
    by (simp add: str_find_def)
  moreover have "length line + 2 \<le> length head" by (simp add: assms(4) crlf_def)
  moreover have "take (length head - (length line + 2)) (drop (length line + 2) request) = a @ ''Connection: close'' @ b"
    by (simp only: drop_take [symmetric] assms(3)) (simp add: assms(4) crlf_def)
  moreover have "map tolower_char ''Connection: close'' = ''connection: close''" by code_simp
  then have "map tolower_char (a @ ''Connection: close'' @ b) = map tolower_char a @ ''connection: close'' @ map tolower_char b"
    by simp
  then have "find0 ''connection: close'' (map tolower_char (a @ ''Connection: close'' @ b)) \<noteq> None"
    using find0_None [of "''connection: close''" _ "length (map tolower_char a)"] by fastforce
  ultimately show ?thesis using assms(2) by (simp add: echo_close_def substr_def str_find_def)
qed

lemma request_line:
  assumes "CHR 0x0D \<notin> set (mthd @ path)" and "CHR '' '' \<notin> set (mthd @ path)"
  shows "parse_request_line (head_lines ((mthd @ '' '' @ path @ '' HTTP/1.1'') # ls) l @ rest) = Some (mthd, path, ''HTTP/1.1'')"
proof -
  have "CHR 0x0D \<notin> set (mthd @ '' '' @ path @ '' HTTP/1.1'')" using assms(1) by simp
  from head_lines_first [OF this, of ls l rest] assms(2) show ?thesis
    unfolding parse_request_line_iff by (intro exI [of _ "length (mthd @ '' '' @ path @ '' HTTP/1.1'')"]) simp
qed

lemma echo_answers:
  assumes "plain_text mthd" and "plain_text path" and "plain_text host" and "plain_text auth"
    and "CHR '' '' \<notin> set (mthd @ path)" and "concat (so_in s) = request_of b mthd path host auth body"
    and "so_connected s" and "[] \<notin> set (so_in s)" and "so_accept s = a # acc"
    and "int (length (echo_reply path ''HTTP/1.1'' True)) \<le> a"
  shows "\<exists>segs. echo_handle s = s\<lparr>so_valid := False, so_connected := False, so_in := segs, so_accept := acc,
    so_out := so_out s @ echo_reply path ''HTTP/1.1'' True\<rparr>"
proof -
  define line ls l where "line = mthd @ '' '' @ path @ '' HTTP/1.1''"
    and "ls = [''Host: '' @ host, ''Connection: close''] @ auth_lines auth @ type_lines b"
    and "l = ''Content-Length: '' @ show_nat (length body)"
  let ?head = "head_lines (line # ls) l" and ?reply = "echo_reply path ''HTTP/1.1'' True"
  have raw: "concat (so_in s) = ?head @ blank_line @ body"
    unfolding assms(6) by (simp add: request_of_def first_lines_def line_def ls_def l_def)
  have len: "length (request_of b mthd path host auth body) - (4 + length body) = length ?head"
    unfolding assms(6) [symmetric] raw by (simp add: blank_line_def)
  have n: "str_find ([] @ concat (so_in s)) blank_line 0 = Some (length ?head)"
    using request_blank [OF assms(1-4), of b body] assms(6) unfolding len by simp
  from echo_read_head [OF n _ assms(7,8)] obtain request segs where
      r: "echo_read [] s = (Some request, s\<lparr>so_in := segs\<rparr>)" "?head @ blank_line @ body = request @ concat segs"
        "str_find request blank_line 0 = Some (length ?head)"
    unfolding raw by (auto simp: str_find_def blank_line_def)
  have "length ?head \<le> length request" using str_find_Some [OF r(3)] by simp
  then have t: "take (length ?head) request = ?head" using arg_cong [OF r(2), of "take (length ?head)"] by simp
  then obtain rest where rest: "request = ?head @ rest" by (metis append_take_drop_id)
  have cr: "CHR 0x0D \<notin> set line" using assms(1,2) by (simp add: line_def plain_text_def)
  have "echo_line request = (mthd, path, ''HTTP/1.1'')"
    unfolding rest line_def using assms(1,2,5) by (intro echo_line_parse request_line) (auto simp: plain_text_def)
  moreover have "echo_close request ''HTTP/1.1''"
    by (rule echo_close_head [OF cr r(3) t, where a = "''Host: '' @ host @ crlf"]) (simp add: head_lines_def ls_def)
  moreover have "sock_send ?reply (s\<lparr>so_in := segs\<rparr>) =
      (Some (length ?reply), s\<lparr>so_in := segs, so_accept := acc, so_out := so_out s @ ?reply\<rparr>)"
  proof -
    have "0 < int (length ?reply)" by (simp add: echo_reply_def Let_def)
    then have "0 < a" "min (nat a) (length ?reply) = length ?reply" using assms(10) by linarith+
    then show ?thesis using assms(7,9) by (simp add: sock_send_def Let_def)
  qed
  ultimately have "echo_handle s = sock_close (s\<lparr>so_in := segs, so_accept := acc, so_out := so_out s @ ?reply\<rparr>)"
    by (simp add: echo_handle.simps [of s] r(1))
  then show ?thesis by (intro exI [of _ segs]) (simp add: sock_close_def)
qed

section \<open>Client, gateway and upstream together\<close>

lemma relay_loop_clean:
  "relay_loop up client = (ok, up', client') \<Longrightarrow> so_connected up \<Longrightarrow> [] \<notin> set (so_in up) \<Longrightarrow>
     so_connected up' \<and> [] \<notin> set (so_in up')"
proof (induction up client rule: relay_loop.induct)
  case (1 up client)
  show ?case
  proof (cases "so_in up = []")
    case True
    then have "sock_recv 4096 up = (None, up)" by (simp add: sock_recv_def)
    then show ?thesis using "1.prems" by (simp add: relay_loop.simps [of up client])
  next
    case False
    from sock_recv_bytes [OF "1.prems"(2,3) this, of 4096] obtain buf segs where
        b: "sock_recv 4096 up = (Some buf, up\<lparr>so_in := segs\<rparr>)" "[] \<notin> set segs" by (metis zero_less_numeral)
    obtain sok cl where s: "send_loop buf client = (sok, cl)" by fastforce
    show ?thesis
    proof (cases sok)
      case True
      then have "relay_loop (up\<lparr>so_in := segs\<rparr>) cl = (ok, up', client')"
        using "1.prems"(1) b(1) s by (simp add: relay_loop.simps [of up client])
      from "1.IH" [OF b(1) [symmetric] refl s [symmetric] True this] "1.prems"(2) b(2) show ?thesis by simp
    next
      case False
      then show ?thesis using "1.prems" b s by (auto simp: relay_loop.simps [of up client])
    qed
  qed
qed

text \<open>
  C40: Through the whole chain. The client's request is forwarded to the echo server as it is: whatever the pieces it
  arrives in, the server answers it once, with the path, and gives up the connection; and what the gateway
  sends its client is that answer, unchanged and complete, unless the client refuses it before the end.
\<close>

theorem echo_through_gateway:
  assumes "plain_text mthd" and "plain_text path" and "plain_text host" and "plain_text auth" and "CHR '' '' \<notin> set (mthd @ path)"
    and "request = build_req mthd path host auth \<or> request = build_req_with_body mthd path host auth body"
    and "get_upstream_socket env path (g, c) = (Some key, g1, c1)" and "map_of (m_upstreams c1) key = Some up"
    and "m_client c1 = Some client" and "send_loop request up = (True, up1)"
    and "so_out up1 = so_out up @ concat (so_in echo)" and "so_connected echo" and "[] \<notin> set (so_in echo)" and "so_out echo = []"
    and "so_accept echo = a # acc" and "int (length (echo_reply path ''HTTP/1.1'' True)) \<le> a"
    and "concat (so_in up1) = so_out (echo_handle echo)" and "so_connected up1" and "[] \<notin> set (so_in up1)"
  shows "so_out (echo_handle echo) = echo_reply path ''HTTP/1.1'' True \<and> \<not> so_connected (echo_handle echo) \<and>
    (\<exists>c' client'. forward_request env request path (g, c) = (False, g1, c') \<and> m_client c' = Some client' \<and>
       (so_out client' = so_out client @ echo_reply path ''HTTP/1.1'' True \<or>
        refused client client' \<and> (\<exists>x. prefix x (echo_reply path ''HTTP/1.1'' True) \<and> so_out client' = so_out client @ x)))"
proof -
  obtain b body' where raw: "request = request_of b mthd path host auth body'"
    using assms(6) build_req_lines build_req_with_body_lines by metis
  have "so_out up1 = so_out up @ request" using send_loop_prefix [OF assms(10)] by auto
  then have "concat (so_in echo) = request_of b mthd path host auth body'" using assms(11) raw by simp
  from echo_answers [OF assms(1-5) this assms(12,13,15,16)] assms(14)
  have e: "so_out (echo_handle echo) = echo_reply path ''HTTP/1.1'' True" "\<not> so_connected (echo_handle echo)" by auto
  obtain ok up2 client' where r: "relay_loop up1 client = (ok, up2, client')" by (metis surj_pair)
  from relay_loop_spec [OF r] obtain got x where k: "concat (so_in up1) = got @ concat (so_in up2)" "prefix x got"
      "so_out client' = so_out client @ x" "ok \<longrightarrow> x = got \<and> fst (sock_recv 4096 up2) = None"
      "\<not> ok \<longrightarrow> x \<noteq> got \<and> refused client client'" by blast
  have all: "echo_reply path ''HTTP/1.1'' True = got @ concat (so_in up2)" using k(1) assms(17) e(1) by simp
  have f: "forward_request env request path (g, c) =
      (False, g1, c1\<lparr>m_upstreams := update_alist key up2 (m_upstreams c1), m_client := Some client'\<rparr>)"
    using assms(7-10) r by (simp add: forward_request_def)
  have "so_out client' = so_out client @ echo_reply path ''HTTP/1.1'' True \<or>
      refused client client' \<and> (\<exists>x. prefix x (echo_reply path ''HTTP/1.1'' True) \<and> so_out client' = so_out client @ x)"
  proof (cases ok)
    case True
    from relay_loop_clean [OF r assms(18,19)] have "so_in up2 = []" using k(4) True by (auto simp: sock_recv_def split: list.splits)
    then show ?thesis using all k(3,4) True by simp
  next
    case False
    have "prefix x (echo_reply path ''HTTP/1.1'' True)" using k(2) unfolding all by (rule prefix_prefix)
    then show ?thesis using k(3,5) False by blast
  qed
  with e f show ?thesis by simp
qed

text \<open>The request in two pieces.\<close>

definition echo_client :: sock where
  "echo_client = \<lparr>so_valid = True, so_connected = True,
     so_in = [take 9 (build_req ''GET'' ''/'' ''h:1'' []), drop 9 (build_req ''GET'' ''/'' ''h:1'' [])],
     so_accept = [500], so_out = [], so_remote = None\<rparr>"

definition echo_upstream :: sock where
  "echo_upstream = \<lparr>so_valid = True, so_connected = True, so_in = [so_out (echo_handle echo_client)], so_accept = [500],
     so_out = [], so_remote = None\<rparr>"

definition echo_env :: surroundings where
  "echo_env = relay_env\<lparr>env_dial := \<lambda>a t. Some (Some echo_upstream)\<rparr>"

lemma echo_client_facts:
  "concat (so_in echo_client) = build_req ''GET'' ''/'' ''h:1'' []" "[] \<notin> set (so_in echo_client)"
  "length (build_req ''GET'' ''/'' ''h:1'' []) \<le> 500" "length (echo_reply ''/'' ''HTTP/1.1'' True) \<le> 500"
  "echo_reply ''/'' ''HTTP/1.1'' True \<noteq> []"
proof -
  show "concat (so_in echo_client) = build_req ''GET'' ''/'' ''h:1'' []" by (simp add: echo_client_def)
  show "[] \<notin> set (so_in echo_client)" by (simp add: echo_client_def build_req_def)
  show "length (build_req ''GET'' ''/'' ''h:1'' []) \<le> 500"
    by (simp add: build_req_def auth_line_def crlf_def blank_line_def)
  have "length (show_nat (length (''echo '' @ ''/'' @ [chr_lf]))) \<le> 400" by (simp add: show_nat.simps)
  then show "length (echo_reply ''/'' ''HTTP/1.1'' True) \<le> 500" by (simp add: echo_reply_def Let_def crlf_def)
  show "echo_reply ''/'' ''HTTP/1.1'' True \<noteq> []" by (simp add: echo_reply_def Let_def)
qed

lemma echo_plain: "plain_text ''GET''" "plain_text ''/''" "plain_text ''h:1''" "plain_text []"
  by (simp_all add: plain_text_def)

theorem echo_through_gateway_witness:
  "\<exists>g1 c' client'. forward_request echo_env (build_req ''GET'' ''/'' ''h:1'' []) ''/'' (relay_gateway, conn_init sample_client conn_default) =
     (False, g1, c') \<and> m_client c' = Some client' \<and>
   so_out (echo_handle echo_client) = echo_reply ''/'' ''HTTP/1.1'' True"
proof -
  let ?req = "build_req ''GET'' ''/'' ''h:1'' []" and ?reply = "echo_reply ''/'' ''HTTP/1.1'' True"
  let ?c = "conn_init sample_client conn_default" and ?k = "toString (IPv4Address (IPv4_new 1 1))"
  let ?c1 = "?c\<lparr>m_upstreams := [(?k, echo_upstream)]\<rparr>" and ?g1 = "relay_gateway\<lparr>s_index := 1\<rparr>"
  have u: "get_upstream_socket echo_env ''/'' (relay_gateway, ?c) = (Some ?k, ?g1, ?c1)"
    using two_routes_targets pick_upstream_resolved [of two_routes "''/''" no_hosts 0]
    by (simp add: get_upstream_socket_def echo_env_def relay_env_def relay_gateway_def conn_init_def update_alist_def Let_def conn_default_def)
  have m: "map_of (m_upstreams ?c1) ?k = Some echo_upstream" "m_client ?c1 = Some sample_client" by (simp_all add: conn_init_def)
  have ne: "?req \<noteq> []" by (simp add: build_req_def)
  have s: "send_loop ?req echo_upstream = (True, echo_upstream\<lparr>so_accept := [], so_out := ?req\<rparr>)"
    using ne echo_client_facts(3) by (simp add: send_loop.simps [of ?req] send_loop.simps [of "[]"] sock_send_def echo_upstream_def Let_def)
  have acc: "so_accept echo_client = 500 # []" "so_connected echo_client" "so_out echo_client = []" by (simp_all add: echo_client_def)
  have out: "so_out (echo_handle echo_client) = ?reply"
  proof -
    have "CHR '' '' \<notin> set (''GET'' @ ''/'')" by simp
    from echo_answers [OF echo_plain this, of echo_client False "[]" 500 "[]"] echo_client_facts acc
    show ?thesis by (auto simp: build_req_lines)
  qed
  from echo_through_gateway [OF echo_plain _ disjI1 [OF refl] u m s, of echo_client 500 "[]"] echo_client_facts acc out
  show ?thesis by (auto simp: echo_upstream_def)
qed

end
