(* ===== verification/Hook_Calls.thy ===== *)
theory Hook_Calls
  imports Hooks
begin

text \<open>
  The replaced calls of \<open>src/CoroutineLibrary/hook.cpp\<close> as a program makes them: looking up the originals, the
  functions that read and write, \<open>connect\<close> and the sleeping calls as a whole.
\<close>

section \<open>The originals\<close>

definition hooked_names :: "string list" where
  "hooked_names =
     [''sleep'', ''usleep'', ''nanosleep'', ''socket'', ''connect'', ''accept'', ''read'', ''readv'', ''recv'', ''recvfrom'',
      ''recvmsg'', ''write'', ''writev'', ''send'', ''sendto'', ''sendmsg'', ''close'', ''fcntl'', ''ioctl'', ''getsockopt'',
      ''setsockopt'']"

text \<open>The function pointers, with whether \<open>hook_init\<close> has run; \<open>dlsym\<close> finds the next function of a name.\<close>

definition hook_init :: "(string \<Rightarrow> 'f option) \<Rightarrow> bool \<times> (string \<Rightarrow> 'f option) \<Rightarrow> bool \<times> (string \<Rightarrow> 'f option)" where
  "hook_init dlsym s =
     (if fst s then s else (True, fold (\<lambda>name table. table(name := dlsym name)) hooked_names (snd s)))"

text \<open>\<open>t_hook_enable\<close> of each thread.\<close>

definition is_hook_enable :: "nat \<Rightarrow> (nat \<Rightarrow> bool) \<Rightarrow> bool" where
  "is_hook_enable thread t_hook_enable = t_hook_enable thread"

definition set_hook_enable :: "nat \<Rightarrow> bool \<Rightarrow> (nat \<Rightarrow> bool) \<Rightarrow> nat \<Rightarrow> bool" where
  "set_hook_enable thread flag t_hook_enable = t_hook_enable(thread := flag)"

section \<open>Reading and writing\<close>

datatype io_call = Read | Readv | Recv | Recvfrom | Recvmsg | Write | Writev | Send | Sendto | Sendmsg

text \<open>The event each waits for and the timeout it takes.\<close>

fun io_params :: "io_call \<Rightarrow> u32 \<times> int" where
  "io_params Read = (EV_READ, SO_RCVTIMEO)"
| "io_params Readv = (EV_READ, SO_RCVTIMEO)"
| "io_params Recv = (EV_READ, SO_RCVTIMEO)"
| "io_params Recvfrom = (EV_READ, SO_RCVTIMEO)"
| "io_params Recvmsg = (EV_READ, SO_RCVTIMEO)"
| "io_params Write = (EV_WRITE, SO_SNDTIMEO)"
| "io_params Writev = (EV_WRITE, SO_SNDTIMEO)"
| "io_params Send = (EV_WRITE, SO_SNDTIMEO)"
| "io_params Sendto = (EV_WRITE, SO_SNDTIMEO)"
| "io_params Sendmsg = (EV_WRITE, SO_SNDTIMEO)"

definition hook_io ::
  "bool \<Rightarrow> caller \<Rightarrow> io_call \<Rightarrow> int \<Rightarrow> fd_ctx option list \<Rightarrow> io_attempt list \<Rightarrow> io_manager \<times> timer_manager \<Rightarrow>
     (fault + (int \<times> int option) \<times> io_manager \<times> timer_manager) option" where
  "hook_io enable me c fd fds as mt = (case io_params c of (event, so) \<Rightarrow> do_io enable me fd event so fds as mt)"

text \<open>\<open>accept\<close>: \<open>do_io\<close>, then the new descriptor enters the table; \<open>stat\<close> and \<open>flags\<close> as for \<open>FdCtx\<close>.\<close>

definition hook_accept_call ::
  "bool \<Rightarrow> caller \<Rightarrow> int \<Rightarrow> bool option \<Rightarrow> u32 \<Rightarrow> io_attempt list \<Rightarrow> fd_ctx option list \<times> io_manager \<times> timer_manager \<Rightarrow>
     (fault + (int \<times> int option) \<times> fd_ctx option list \<times> io_manager \<times> timer_manager) option" where
  "hook_accept_call enable me sockfd stat flags as s =
     (case do_io enable me sockfd EV_READ SO_RCVTIMEO (fst s) as (snd s) of
        None \<Rightarrow> None
      | Some (Inl e) \<Rightarrow> Some (Inl e)
      | Some (Inr ((fd, err), mt)) \<Rightarrow>
          (case hook_accept stat flags fd (fst s) of
             Inl e \<Rightarrow> Some (Inl e)
           | Inr (fds, _) \<Rightarrow> Some (Inr ((fd, err), fds, mt))))"

text \<open>\<open>getsockopt\<close> is passed on.\<close>

definition hook_getsockopt :: "int \<Rightarrow> int" where
  "hook_getsockopt result = result"

section \<open>Connecting\<close>

text \<open>
  \<open>a\<close> holds the answer of \<open>connect_f\<close> and of the surroundings, as for \<open>do_io\<close>; \<open>so_error\<close> is what
  \<open>getsockopt(SO_ERROR)\<close> gives.
\<close>

definition connect_with_timeout ::
  "bool \<Rightarrow> caller \<Rightarrow> int \<Rightarrow> u64 \<Rightarrow> fd_ctx option list \<Rightarrow> io_attempt \<Rightarrow> int option \<Rightarrow> io_manager \<times> timer_manager \<Rightarrow>
     fault + (int \<times> int option) \<times> io_manager \<times> timer_manager" where
  "connect_with_timeout enable me fd timeout_ms fds a so_error mt =
     (case connect_begin enable fd (at_n a) (at_errno a) fds of
        Connect_done n err \<Rightarrow> Inr ((n, err), mt)
      | Connect_pending \<Rightarrow>
          (case connect_wait (at_now a) me (at_fails a) fd (at_cb a) timeout_ms mt of
             Inl e \<Rightarrow> Inl e
           | Inr (waited, timer, m, tm) \<Rightarrow>
               (case (if waited then at_resumed a (m, tm) else (0, m, tm)) of
                  (cancelled, m, tm) \<Rightarrow>
                    (case connect_finish waited timer cancelled so_error tm of (r, tm) \<Rightarrow> Inr (r, m, tm)))))"

definition s_connect_timeout :: u64 where
  "s_connect_timeout = not 0"

definition hook_connect ::
  "bool \<Rightarrow> caller \<Rightarrow> int \<Rightarrow> fd_ctx option list \<Rightarrow> io_attempt \<Rightarrow> int option \<Rightarrow> io_manager \<times> timer_manager \<Rightarrow>
     fault + (int \<times> int option) \<times> io_manager \<times> timer_manager" where
  "hook_connect enable me sockfd fds a so_error mt =
     connect_with_timeout enable me sockfd s_connect_timeout fds a so_error mt"

section \<open>Sleeping\<close>

datatype sleep_call = Sleep u32 | Usleep u32 | Nanosleep int int

fun sleep_delay :: "sleep_call \<Rightarrow> u64" where
  "sleep_delay (Sleep seconds) = sleep_ms seconds"
| "sleep_delay (Usleep usec) = usleep_ms usec"
| "sleep_delay (Nanosleep tv_sec tv_nsec) = nanosleep_ms tv_sec tv_nsec"

text \<open>
  A timer whose callback \<open>cb\<close> schedules this fiber; then the fiber yields (the first component), to
  go on when it is resumed. Without the hook the original sleeps.
\<close>

definition hook_sleep :: "bool \<Rightarrow> int \<Rightarrow> nat \<Rightarrow> sleep_call \<Rightarrow> timer_manager \<Rightarrow> bool \<times> timer_manager" where
  "hook_sleep enable now cb c tm =
     (if \<not> enable then (False, tm)
      else (case addTimer now (unat (sleep_delay c)) cb False tm of (_, _, tm) \<Rightarrow> (True, tm)))"

text \<open>What the caller asks for, in whole milliseconds, and whether the code's arithmetic holds it.\<close>

fun requested_ms :: "sleep_call \<Rightarrow> nat" where
  "requested_ms (Sleep seconds) = 1000 * unat seconds"
| "requested_ms (Usleep usec) = unat usec div 1000"
| "requested_ms (Nanosleep tv_sec tv_nsec) = nat (tv_sec * 1000 + tv_nsec div 1000000)"

fun sleep_in_range :: "sleep_call \<Rightarrow> bool" where
  "sleep_in_range (Sleep seconds) = (unat seconds \<le> 4294967)"
| "sleep_in_range (Usleep usec) = True"
| "sleep_in_range (Nanosleep tv_sec tv_nsec) = (0 \<le> tv_sec \<and> tv_sec < 2147483 \<and> 0 \<le> tv_nsec \<and> tv_nsec < 1000000000)"

lemma sleep_delay_in_range:
  assumes "sleep_in_range c"
  shows "unat (sleep_delay c) = requested_ms c \<and> requested_ms c < 2 ^ 32"
proof (cases c)
  case (Sleep s)
  then show ?thesis using assms sleeps_last [of 0 0 s 0] by simp
next
  case (Usleep u)
  have "unat u < 2 ^ 32" by (rule order_less_le_trans [OF unsigned_less]) simp
  then show ?thesis using Usleep sleeps_last [of 0 0 0 u] by simp
next
  case (Nanosleep s n)
  then have "s < 2147483" and n: "0 \<le> n" "n < 1000000000" using assms by simp_all
  moreover have "n div 1000000 < 1000" using n by simp
  ultimately have "s * 1000 + n div 1000000 < 2 ^ 32" by simp
  then show ?thesis using Nanosleep assms sleeps_last [of n s 0 0] by simp
qed


text \<open>
  Beyond that range, a \<open>nanosleep\<close> whose milliseconds overflow an \<open>int\<close> becomes a negative delay: its deadline is in
  the past, and the first look at the timers wakes it.
\<close>

lemma overlong_nanosleep_is_due:
  assumes "2147484 \<le> tv_sec" and "tv_sec < 4294967" and "0 \<le> tv_nsec" and "tv_nsec < 1000000000"
    and "0 \<le> now" and "now < 2 ^ 63"
  shows "after_ms now (unat (sleep_delay (Nanosleep tv_sec tv_nsec))) < now"
proof -
  let ?x = "tv_sec * 1000 + tv_nsec div 1000000"
  have x: "2 ^ 31 \<le> ?x" "?x < 2 ^ 32" using assms by simp_all
  have "uint (nanosleep_ms tv_sec tv_nsec) = (?x - 2 ^ 32) + 2 ^ 64"
    unfolding nanosleep_int [OF assms(3)] int_sign_high [OF x] using x by (intro mod_once) simp_all
  then have "int (unat (nanosleep_ms tv_sec tv_nsec)) = (?x - 2 ^ 32) + 2 ^ 64" by (simp only: uint_nat)
  then have "i64 (int (unat (nanosleep_ms tv_sec tv_nsec))) = ?x - 2 ^ 32"
    using x by (simp only: i64_shift) (simp add: i64_id)
  then have "ms_ns (unat (nanosleep_ms tv_sec tv_nsec)) = (?x - 2 ^ 32) * 1000000"
    unfolding ms_ns_def using x by (simp add: i64_id)
  then show ?thesis using x assms(5,6) by (simp add: after_ms_def i64_id)
qed

definition demo_two_sleepers :: timer_manager where
  "demo_two_sleepers = snd (hook_sleep True 0 5 (Sleep 1) (TimerManager_init 0))"


end
