(* ===== verification/Idle_Loop.thy ===== *)
theory Idle_Loop
  imports Io_Manager
begin

text \<open>
  The loop of the idle fiber of \<open>src/CoroutineLibrary/ioscheduler.cpp\<close>: whether to stop, sleeping in
  \<open>epoll_wait\<close>, the expired timers, the reported events, yielding; with the pipe that wakes a sleeping
  thread, and setting the manager up.
\<close>

section \<open>Setting up and waking\<close>

text \<open>The bytes in the pipe.\<close>

type_synonym wake_pipe = nat

text \<open>\<open>epfd\<close> and \<open>rts\<close>: what \<open>epoll_create\<close>, \<open>pipe\<close>, \<open>fcntl\<close> and \<open>epoll_ctl\<close> return.\<close>

definition IOManager_setup :: "int \<Rightarrow> int \<times> int \<times> int \<Rightarrow> fault + io_manager \<times> wake_pipe" where
  "IOManager_setup epfd rts =
     (case rts of (rt_pipe, rt_fcntl, rt_ctl) \<Rightarrow>
        if \<not> 0 < epfd then Inl Assertion_failed
        else if rt_pipe \<noteq> 0 then Inl Assertion_failed
        else if rt_fcntl \<noteq> 0 then Inl Assertion_failed
        else if rt_ctl \<noteq> 0 then Inl Assertion_failed
        else Inr (IOManager_init, 0))"

text \<open>\<open>tickle\<close>; \<open>rt\<close>: what \<open>write\<close> returns.\<close>

definition tickle :: "nat \<Rightarrow> int \<Rightarrow> wake_pipe \<Rightarrow> fault + wake_pipe" where
  "tickle idle_threads rt p =
     (if idle_threads = 0 then Inr p else if rt = 1 then Inr (p + 1) else Inl Assertion_failed)"

definition onTimerInsertedAtFront :: "nat \<Rightarrow> int \<Rightarrow> wake_pipe \<Rightarrow> fault + wake_pipe" where
  "onTimerInsertedAtFront idle_threads rt p = tickle idle_threads rt p"

text \<open>\<open>while (read(m_tickleFds[0], dummy, sizeof(dummy)) > 0);\<close> gives the number of reads and the pipe.\<close>

function drain :: "wake_pipe \<Rightarrow> nat \<times> wake_pipe" where
  "drain p = (let n = min 256 p in if n > 0 then apfst Suc (drain (p - n)) else (1, p))"
  by auto
termination by (relation "measure id") auto

declare drain.simps [simp del]

section \<open>A turn of the loop\<close>

datatype ready_event = Tickled | Ready bool nat u32

text \<open>
  The other threads go on while the idle fiber does its turn. What they do between two of its steps is a function on the
  managers and the pipe: \<open>others\<close>.
\<close>

type_synonym idle_state = "io_manager \<times> timer_manager \<times> wake_pipe"
type_synonym others = "idle_state \<Rightarrow> idle_state"

text \<open>
  The inner loop: each call of \<open>epoll_wait\<close> with the clock before it, what the others do until it returns, and its
  answer, \<open>None\<close> for \<open>EINTR\<close>. The timeouts that were asked for, and the result; \<open>None\<close> while it still waits.
\<close>

fun idle_wait :: "(int \<times> others \<times> int option) list \<Rightarrow> idle_state \<Rightarrow> (u64 list \<times> int \<times> idle_state) option" where
  "idle_wait [] s = None"
| "idle_wait ((now, others, answer) # as) (m, tm, p) =
     (case epoll_timeout now tm of
        (next_timeout, tm) \<Rightarrow>
          (case answer of
             None \<Rightarrow> map_option (apfst (Cons next_timeout)) (idle_wait as (others (m, tm, p)))
           | Some rt \<Rightarrow> Some ([next_timeout], rt, others (m, tm, p))))"

text \<open>The reported events, each with what the others do before it is handled.\<close>

fun idle_ready :: "(others \<times> ready_event) list \<Rightarrow> idle_state \<Rightarrow> fault + idle_state" where
  "idle_ready [] s = Inr s"
| "idle_ready ((others, ev) # evs) s =
     (case others s of
        (m, tm, p) \<Rightarrow>
          (case ev of
             Tickled \<Rightarrow> idle_ready evs (m, tm, snd (drain p))
           | Ready fails fd bits \<Rightarrow>
               (case idle_event fails fd bits m of Inl e \<Rightarrow> Inl e | Inr m \<Rightarrow> idle_ready evs (m, tm, p))))"

datatype idle_end = Idle_exits | Idle_yields

record idle_answers =
  ia_stop_now :: int
  ia_stop_others :: "io_manager \<times> timer_manager \<Rightarrow> io_manager \<times> timer_manager"
  ia_sched_stopping :: bool
  ia_waits :: "(int \<times> others \<times> int option) list"
  ia_now :: int
  ia_rollover_now :: int
  ia_events :: "(others \<times> ready_event) list"

definition idle_turn ::
  "idle_answers \<Rightarrow> nat \<Rightarrow> idle_state \<Rightarrow> (fault + (idle_end \<times> u64 list) \<times> idle_state) option" where
  "idle_turn ia self s =
     (case s of (m, tm, p) \<Rightarrow>
       (case iom_stopping (ia_stop_now ia) (ia_stop_others ia) (ia_sched_stopping ia) (m, tm) of
          (True, m, tm) \<Rightarrow> Some (Inr ((Idle_exits, []), m, tm, p))
        | (False, m, tm) \<Rightarrow>
            (case idle_wait (ia_waits ia) (m, tm, p) of
               None \<Rightarrow> None
             | Some (asked, rt, m, tm, p) \<Rightarrow>
                 (case listExpiredCb (ia_now ia) (ia_rollover_now ia) tm of
                    None \<Rightarrow> None
                  | Some (cbs, tm) \<Rightarrow>
                      (case idle_ready (take (nat rt) (ia_events ia)) (schedule_expired self cbs m, tm, p) of
                         Inl e \<Rightarrow> Some (Inl e)
                       | Inr s \<Rightarrow> Some (Inr ((Idle_yields, asked), s)))))))"

section \<open>What a turn does\<close>

lemma drain_empties: "snd (drain p) = 0"
proof (induction p rule: drain.induct)
  case (1 p)
  then show ?case by (subst drain.simps) (auto simp: Let_def)
qed

lemma trigger_counted_frame:
  "trigger_counted wanted event fm = Inr fm' \<Longrightarrow> m_fdContexts (snd fm') = m_fdContexts (snd fm)"
  by (auto simp: trigger_counted_def split: if_splits sum.splits prod.splits)

lemma idle_event_frame:
  assumes "idle_event fails fd bits m = Inr m'"
  shows "\<exists>fc. m_fdContexts m' = (m_fdContexts m)[fd := fc]"
proof -
  have same: "\<exists>fc. m_fdContexts m = (m_fdContexts m)[fd := fc]" by (rule exI [of _ "m_fdContexts m ! fd"]) simp
  show ?thesis
    using assms same
    by (auto simp: idle_event_def Let_def put_context_def ctl_done_def dest!: trigger_counted_frame
        split: if_splits sum.splits prod.splits)
qed

text \<open>The reports are fresh: each one when its turn comes.\<close>

fun reports_fresh :: "(others \<times> ready_event) list \<Rightarrow> idle_state \<Rightarrow> bool" where
  "reports_fresh [] s = True"
| "reports_fresh ((others, ev) # evs) s =
     (case others s of
        (m, tm, p) \<Rightarrow>
          (case ev of
             Tickled \<Rightarrow> reports_fresh evs (m, tm, 0)
           | Ready fails fd bits \<Rightarrow>
               fd < length (m_fdContexts m) \<and> fresh_report bits (fc_events (m_fdContexts m ! fd)) \<and>
               (case idle_event fails fd bits m of Inl e \<Rightarrow> True | Inr m \<Rightarrow> reports_fresh evs (m, tm, p))))"

text \<open>
  What should become of the reports: one after the other, a report of a descriptor hands exactly the waiters of the
  reported events to their schedulers, takes them from those that wait and leaves the other descriptors as they are, and a
  wake-up through the pipe empties it.
\<close>

inductive reports_served :: "(others \<times> ready_event) list \<Rightarrow> idle_state \<Rightarrow> idle_state \<Rightarrow> bool" where
  all: "reports_served [] s s"
| woken: "others s = (m, tm, p) \<Longrightarrow> reports_served evs (m, tm, 0) s' \<Longrightarrow> reports_served ((others, Tickled) # evs) s s'"
| report: "others s = (m, tm, p) \<Longrightarrow> io_tasks m' = io_tasks m @ released fails fd bits m \<Longrightarrow>
    mset (waiting m) = mset (released fails fd bits m) + mset (waiting m') \<Longrightarrow>
    m_fdContexts m' = (m_fdContexts m)[fd := fc] \<Longrightarrow>
    reports_served evs (m', tm, p) s' \<Longrightarrow> reports_served ((others, Ready fails fd bits) # evs) s s'"

definition keeps_books :: "others \<Rightarrow> bool" where
  "keeps_books others \<longleftrightarrow> (\<forall>m tm p. iom_inv m \<longrightarrow> iom_inv (fst (others (m, tm, p))))"

lemma idle_ready_done:
  "iom_inv (fst s) \<Longrightarrow> \<forall>e \<in> set evs. keeps_books (fst e) \<Longrightarrow> reports_fresh evs s \<Longrightarrow>
     \<exists>s'. idle_ready evs s = Inr s' \<and> reports_served evs s s' \<and> iom_inv (fst s')"
proof (induction evs arbitrary: s)
  case Nil
  then show ?case by (auto intro: reports_served.all)
next
  case (Cons e evs)
  obtain others ev where e: "e = (others, ev)" by fastforce
  obtain m tm p where o: "others s = (m, tm, p)" by (rule prod_cases3)
  have inv: "iom_inv m"
    using Cons.prems(1,2) e o by (cases s) (auto simp: keeps_books_def, metis fst_conv)
  note IH = Cons.IH [OF _ ballI [OF bspec [OF Cons.prems(2)]]]
  show ?case
  proof (cases ev)
    case Tickled
    with IH [of "(m, tm, 0)"] Cons.prems(3) e o inv show ?thesis
      by (auto simp: drain_empties intro: reports_served.woken)
  next
    case (Ready fails fd bits)
    have ok: "fd < length (m_fdContexts m)" "fresh_report bits (fc_events (m_fdContexts m ! fd))"
      using Cons.prems(3) e o Ready by simp_all
    obtain m' where m': "idle_event fails fd bits m = Inr m'" "iom_inv m'"
        "mset (waiting m) = mset (released fails fd bits m) + mset (waiting m')"
        "io_tasks m' = io_tasks m @ released fails fd bits m"
      by (rule idle_event_released [OF inv ok])
    moreover obtain fc where "m_fdContexts m' = (m_fdContexts m)[fd := fc]" using idle_event_frame [OF m'(1)] by blast
    ultimately show ?thesis
      using IH [of "(m', tm, p)"] Cons.prems(3) e o Ready by (auto intro: reports_served.report)
  qed
qed

lemma getNextTimer_tickled:
  "snd (getNextTimer now tm) = tm\<lparr>m_tickled := False\<rparr>"
  "fst (getNextTimer now (tm\<lparr>m_tickled := b\<rparr>)) = fst (getNextTimer now tm)"
  by (simp_all add: getNextTimer_def Let_def)

lemma epoll_timeout_eq: "epoll_timeout now tm = (min (fst (getNextTimer now tm)) 5000, tm\<lparr>m_tickled := False\<rparr>)"
  by (simp add: epoll_timeout_def getNextTimer_tickled split: prod.split)
    (metis fst_conv getNextTimer_tickled(1) snd_conv)

text \<open>
  The states in which the idle fiber asks how long to sleep, each with the clock then, and the one in which it goes
  on: it has only reset \<open>m_tickled\<close> itself.
\<close>

fun looked :: "idle_state \<Rightarrow> idle_state" where
  "looked (m, tm, p) = (m, tm\<lparr>m_tickled := False\<rparr>, p)"

fun wait_states :: "(int \<times> others \<times> int option) list \<Rightarrow> idle_state \<Rightarrow> (int \<times> timer_manager) list" where
  "wait_states [] s = []"
| "wait_states ((now, others, answer) # as) s = (now, fst (snd s)) # wait_states as (others (looked s))"

definition after_waits :: "(int \<times> others \<times> int option) list \<Rightarrow> idle_state \<Rightarrow> idle_state" where
  "after_waits as s = foldl (\<lambda>s a. fst (snd a) (looked s)) s as"

lemma idle_wait_answered:
  "\<forall>a \<in> set eintr. snd (snd a) = None \<Longrightarrow>
   idle_wait (eintr @ [(now, others, Some rt)]) s =
     Some (map (\<lambda>(now, tm). min (fst (getNextTimer now tm)) 5000) (wait_states (eintr @ [(now, others, Some rt)]) s), rt,
       after_waits (eintr @ [(now, others, Some rt)]) s)"
proof (induction eintr arbitrary: s)
  case Nil
  then show ?case by (cases s) (simp add: epoll_timeout_eq after_waits_def)
next
  case (Cons a eintr)
  then show ?case by (cases s; cases a) (simp add: epoll_timeout_eq after_waits_def)
qed

lemma iom_stopping_eq:
  "iom_stopping now others stop (m, tm) =
     (fst (getNextTimer now tm) = not 0 \<and> m_pendingEventCount (fst (others (m, tm\<lparr>m_tickled := False\<rparr>))) = 0 \<and> stop,
      others (m, tm\<lparr>m_tickled := False\<rparr>))"
  by (simp add: iom_stopping_def split: prod.split) (metis fst_conv getNextTimer_tickled(1) snd_conv)



section \<open>Sample turns\<close>

definition demo_turn :: "int \<Rightarrow> idle_answers" where
  "demo_turn now =
     \<lparr>ia_stop_now = now, ia_stop_others = id, ia_sched_stopping = True, ia_waits = [(now, id, None), (now, id, Some 2)],
      ia_now = now, ia_rollover_now = now, ia_events = [(id, Tickled), (id, Ready False 3 1)]\<rparr>"

lemma sample_report:
  assumes "addEvent (sample_caller 1) False 3 EV_READ None IOManager_init = Inr (0, m)"
    and "fc_events (m_fdContexts m ! 3) = EV_READ"
  shows "released False 3 1 (m\<lparr>io_tasks := ts\<rparr>) = [(7, Task_fiber 1)]" "fresh_report 1 EV_READ"
proof -
  have real: "real_events 1 EV_READ = EV_READ" by (simp add: real_events_def Let_def ev_defs epoll_defs)
  have "awaited False (int 3) EV_READ m = [(7, Task_fiber 1)]"
    using addEvent_awaited [OF assms(1) sample_caller_ok] by (simp add: waiter_def sample_caller_def)
  moreover have "awaited False (int 3) EV_READ (m\<lparr>io_tasks := ts\<rparr>) = awaited False (int 3) EV_READ m"
    by (simp add: awaited_def)
  moreover have "EV_READ AND EV_READ \<noteq> 0" "EV_READ AND EV_WRITE = 0" by (simp_all add: ev_defs)
  ultimately show "released False 3 1 (m\<lparr>io_tasks := ts\<rparr>) = [(7, Task_fiber 1)]"
    using assms(2) real by (simp add: released_def)
  show "fresh_report 1 EV_READ" using real by (simp add: fresh_report_def)
qed



text \<open>
  What the condition on the first two looks guards against: a task that sets a timer after the first look and ends before the
  third is not seen, and the fiber exits while its timer is set.
\<close>

lemma idle_exit_leaves_new_timer:
  "\<exists>ia tm'. idle_turn ia 7 (IOManager_init, TimerManager_init 0, 0) =
     Some (Inr ((Idle_exits, []), IOManager_init, tm', 0)) \<and> m_timers tm' \<noteq> []"
proof -
  let ?ia = "demo_turn 0\<lparr>ia_stop_others := \<lambda>s. (fst s, sample_timers)\<rparr>"
  have "idle_turn ?ia 7 (IOManager_init, TimerManager_init 0, 0) =
      Some (Inr ((Idle_exits, []), IOManager_init, sample_timers, 0))"
    using iom_reach_books [OF iom_reach.start]
    by (simp add: idle_turn_def demo_turn_def iom_stopping_eq getNextTimer_def TimerManager_init_def iom_inv_def IOManager_init_idle Let_def)
  moreover have "m_timers sample_timers \<noteq> []" by (simp add: sample_timers_list)
  ultimately show ?thesis by blast
qed

end
