(* ===== verification/Fibers.thy ===== *)
theory Fibers
  imports Gw_Prelude
begin

text \<open>
  \<open>src/CoroutineLibrary/fiber.cpp\<close>: the fibers, and the three thread-local pointers to them. A fiber is
  a number. A \<open>ucontext_t\<close> is modelled by the code it continues: the start of \<open>MainFunc\<close>, or the call
  that is suspended on the stack of a fiber; what runs on a thread is the stack it is on. A thread's
  own stack is that of its main fiber. \<open>getcontext\<close> and \<open>swapcontext\<close> succeed.
\<close>

section \<open>State\<close>

datatype fiber_state = READY | RUNNING | TERMINATED

datatype ucontext = Main_func | On_stack nat

datatype fiber_fault = Assertion_fails | Null_pointer | Empty_function

record fiber =
  f_id :: u64
  f_stacksize :: u32
  f_state :: fiber_state
  f_ctx :: ucontext
  f_stack :: bool
  f_cb :: "nat option"
  f_runInScheduler :: bool
  f_mutex :: "nat option"

text \<open>All fibers; \<open>h_fresh\<close> is the next address. The two counters are those of the file.\<close>

record fiber_heap =
  h_fiber :: "nat \<Rightarrow> fiber"
  h_fresh :: nat
  s_fiber_id :: u64
  s_fiber_count :: u64

record thread_locals =
  t_fiber :: "nat option"
  t_thread_fiber :: "nat option"
  t_scheduler_fiber :: "nat option"
  t_stack :: nat

type_synonym fiber_world = "fiber_heap \<times> thread_locals"

definition put_fiber :: "nat \<Rightarrow> (fiber \<Rightarrow> fiber) \<Rightarrow> fiber_heap \<Rightarrow> fiber_heap" where
  "put_fiber f upd h = h\<lparr>h_fiber := (h_fiber h)(f := upd (h_fiber h f))\<rparr>"

definition alloc_fiber :: "fiber \<Rightarrow> fiber_heap \<Rightarrow> nat \<times> fiber_heap" where
  "alloc_fiber fb h =
     (h_fresh h, h\<lparr>h_fiber := (h_fiber h)(h_fresh h := fb\<lparr>f_id := s_fiber_id h\<rparr>), h_fresh := h_fresh h + 1,
                   s_fiber_id := s_fiber_id h + 1, s_fiber_count := s_fiber_count h + 1\<rparr>)"

section \<open>Operations\<close>

definition SetThis :: "nat option \<Rightarrow> thread_locals \<Rightarrow> thread_locals" where
  "SetThis f tls = tls\<lparr>t_fiber := f\<rparr>"

definition SetSchedulerFiber :: "nat option \<Rightarrow> thread_locals \<Rightarrow> thread_locals" where
  "SetSchedulerFiber f tls = tls\<lparr>t_scheduler_fiber := f\<rparr>"

text \<open>\<open>GetFiberId\<close>; 2 ^ 64 - 1 outside of fibers.\<close>

definition GetFiberId :: "fiber_world \<Rightarrow> u64" where
  "GetFiberId w = (case t_fiber (snd w) of Some f \<Rightarrow> f_id (h_fiber (fst w) f) | None \<Rightarrow> not 0)"

text \<open>
  The main fiber of a thread. Its context is the current one, on the thread's own stack. The
  constructor does not initialise \<open>m_runInScheduler\<close>: \<open>junk\<close> is what the memory held.
\<close>

definition Fiber_main :: "bool \<Rightarrow> fiber_world \<Rightarrow> nat \<times> fiber_world" where
  "Fiber_main junk w =
     (case alloc_fiber \<lparr>f_id = 0, f_stacksize = 0, f_state = RUNNING, f_ctx = On_stack (h_fresh (fst w)), f_stack = False,
                        f_cb = None, f_runInScheduler = junk, f_mutex = None\<rparr> (fst w) of
        (f, h) \<Rightarrow> (f, h, (SetThis (Some f) (snd w))\<lparr>t_stack := f\<rparr>))"

definition GetThis :: "bool \<Rightarrow> fiber_world \<Rightarrow> nat \<times> fiber_world" where
  "GetThis junk w =
     (case t_fiber (snd w) of
        Some f \<Rightarrow> (f, w)
      | None \<Rightarrow>
          (case Fiber_main junk w of
             (f, h, tls) \<Rightarrow> (f, h, tls\<lparr>t_thread_fiber := Some f, t_scheduler_fiber := Some f\<rparr>)))"

definition Fiber_new :: "nat option \<Rightarrow> u32 \<Rightarrow> bool \<Rightarrow> fiber_heap \<Rightarrow> nat \<times> fiber_heap" where
  "Fiber_new cb stacksize run_in_scheduler h =
     alloc_fiber \<lparr>f_id = 0, f_stacksize = (if stacksize \<noteq> 0 then stacksize else 128000), f_state = READY,
                  f_ctx = Main_func, f_stack = True, f_cb = cb, f_runInScheduler = run_in_scheduler, f_mutex = None\<rparr> h"

definition Fiber_reset :: "nat option \<Rightarrow> nat \<Rightarrow> fiber_heap \<Rightarrow> fiber_fault + fiber_heap" where
  "Fiber_reset cb f h =
     (if \<not> (f_stack (h_fiber h f) \<and> f_state (h_fiber h f) = TERMINATED) then Inl Assertion_fails
      else Inr (put_fiber f (\<lambda>fb. fb\<lparr>f_state := READY, f_cb := cb, f_ctx := Main_func\<rparr>) h))"

text \<open>The current execution is saved in the context of \<open>old\<close>, the one saved in \<open>new\<close> continues.\<close>

definition swapcontext :: "nat \<Rightarrow> nat \<Rightarrow> fiber_world \<Rightarrow> fiber_world" where
  "swapcontext old new w =
     (let h = put_fiber old (\<lambda>fb. fb\<lparr>f_ctx := On_stack (t_stack (snd w))\<rparr>) (fst w)
      in (h, (snd w)\<lparr>t_stack := (case f_ctx (h_fiber h new) of Main_func \<Rightarrow> new | On_stack k \<Rightarrow> k)\<rparr>))"

text \<open>The fiber to which \<open>f\<close> gives control back.\<close>

definition partner :: "nat \<Rightarrow> fiber_world \<Rightarrow> nat option" where
  "partner f w =
     (if f_runInScheduler (h_fiber (fst w) f) then t_scheduler_fiber (snd w) else t_thread_fiber (snd w))"

definition Fiber_resume :: "nat \<Rightarrow> fiber_world \<Rightarrow> fiber_fault + fiber_world" where
  "Fiber_resume f w =
     (if f_state (h_fiber (fst w) f) \<noteq> READY then Inl Assertion_fails
      else
       (let w = (put_fiber f (\<lambda>fb. fb\<lparr>f_state := RUNNING\<rparr>) (fst w), SetThis (Some f) (snd w))
        in case partner f w of
             None \<Rightarrow> Inl Null_pointer
           | Some s \<Rightarrow> Inr (swapcontext s f w)))"

definition Fiber_yield :: "nat \<Rightarrow> fiber_world \<Rightarrow> fiber_fault + fiber_world" where
  "Fiber_yield f w =
     (if f_state (h_fiber (fst w) f) \<notin> {RUNNING, TERMINATED} then Inl Assertion_fails
      else
       (let h = (if f_state (h_fiber (fst w) f) \<noteq> TERMINATED then put_fiber f (\<lambda>fb. fb\<lparr>f_state := READY\<rparr>) (fst w) else fst w);
            w = (h, SetThis (partner f (h, snd w)) (snd w))
        in case partner f w of
             None \<Rightarrow> Inl Null_pointer
           | Some s \<Rightarrow> Inr (swapcontext f s w)))"

text \<open>\<open>MainFunc\<close> up to the call of the fiber's function, which is the result, and from its return on.\<close>

definition MainFunc_call :: "bool \<Rightarrow> fiber_world \<Rightarrow> fiber_fault + nat \<times> nat \<times> fiber_world" where
  "MainFunc_call junk w =
     (case GetThis junk w of
        (f, w) \<Rightarrow> (case f_cb (h_fiber (fst w) f) of None \<Rightarrow> Inl Empty_function | Some cb \<Rightarrow> Inr (cb, f, w)))"

definition MainFunc_return :: "nat \<Rightarrow> fiber_world \<Rightarrow> fiber_fault + fiber_world" where
  "MainFunc_return f w =
     Fiber_yield f (put_fiber f (\<lambda>fb. fb\<lparr>f_cb := None, f_state := TERMINATED\<rparr>) (fst w), snd w)"

section \<open>Switching back and forth\<close>

lemma put_fiber_simps [simp]:
  "h_fiber (put_fiber f upd h) g = (if g = f then upd (h_fiber h f) else h_fiber h g)"
  "h_fresh (put_fiber f upd h) = h_fresh h" "s_fiber_id (put_fiber f upd h) = s_fiber_id h"
  "s_fiber_count (put_fiber f upd h) = s_fiber_count h"
  by (simp_all add: put_fiber_def)

lemma SetThis_simps [simp]:
  "t_fiber (SetThis f tls) = f" "t_thread_fiber (SetThis f tls) = t_thread_fiber tls"
  "t_scheduler_fiber (SetThis f tls) = t_scheduler_fiber tls" "t_stack (SetThis f tls) = t_stack tls"
  by (simp_all add: SetThis_def)

text \<open>The context of a suspended fiber continues this fiber and nothing else.\<close>

definition own_ctx :: "nat \<Rightarrow> fiber_heap \<Rightarrow> bool" where
  "own_ctx f h \<longleftrightarrow> f_ctx (h_fiber h f) = On_stack f \<or> f_ctx (h_fiber h f) = Main_func"

definition at_home :: "nat \<Rightarrow> thread_locals \<Rightarrow> bool" where
  "at_home s tls \<longleftrightarrow> t_scheduler_fiber tls = Some s \<and> t_fiber tls = Some s \<and> t_stack tls = s"

definition running_on :: "nat \<Rightarrow> nat \<Rightarrow> thread_locals \<Rightarrow> bool" where
  "running_on s f tls \<longleftrightarrow> t_scheduler_fiber tls = Some s \<and> t_fiber tls = Some f \<and> t_stack tls = f"

text \<open>What a switch into and out of a fiber of the scheduler leaves alone.\<close>

definition others_kept :: "nat set \<Rightarrow> fiber_heap \<Rightarrow> fiber_heap \<Rightarrow> bool" where
  "others_kept F h h' \<longleftrightarrow> h_fresh h' = h_fresh h \<and> (\<forall>g. g \<notin> F \<longrightarrow> h_fiber h' g = h_fiber h g) \<and>
     (\<forall>g. f_stack (h_fiber h' g) = f_stack (h_fiber h g) \<and>
       f_runInScheduler (h_fiber h' g) = f_runInScheduler (h_fiber h g) \<and> f_mutex (h_fiber h' g) = f_mutex (h_fiber h g))"

lemma resume_switches:
  assumes "at_home s tls" and "f \<noteq> s" and "f_runInScheduler (h_fiber h f)" and "f_state (h_fiber h f) = READY" and "own_ctx f h"
  obtains h' tls' where "Fiber_resume f (h, tls) = Inr (h', tls')" and "running_on s f tls'" and "others_kept {s, f} h h'"
    and "f_state (h_fiber h' f) = RUNNING" and "f_ctx (h_fiber h' s) = On_stack s"
    and "f_state (h_fiber h' s) = f_state (h_fiber h s)" and "own_ctx f h'" and "f_cb (h_fiber h' f) = f_cb (h_fiber h f)"
    and "t_thread_fiber tls' = t_thread_fiber tls"
proof -
  obtain h' tls' where w: "swapcontext s f (put_fiber f (\<lambda>fb. fb\<lparr>f_state := RUNNING\<rparr>) h, SetThis (Some f) tls) = (h', tls')"
    by fastforce
  have "Fiber_resume f (h, tls) = Inr (h', tls')" unfolding w [symmetric]
    using assms by (simp add: Fiber_resume_def Let_def partner_def at_home_def)
  then show thesis
    by (rule that [of h' tls'])
      (use assms w in \<open>auto simp: swapcontext_def Let_def running_on_def at_home_def others_kept_def own_ctx_def split: if_splits\<close>)
qed

lemma yield_switches:
  assumes "running_on s f tls" and "f \<noteq> s" and "f_runInScheduler (h_fiber h f)"
    and "f_state (h_fiber h f) \<in> {RUNNING, TERMINATED}" and "f_ctx (h_fiber h s) = On_stack s"
  obtains h' tls' where "Fiber_yield f (h, tls) = Inr (h', tls')" and "at_home s tls'" and "others_kept {f} h h'"
    and "f_state (h_fiber h' f) = (if f_state (h_fiber h f) = TERMINATED then TERMINATED else READY)" and "f_ctx (h_fiber h' f) = On_stack f"
    and "f_cb (h_fiber h' f) = f_cb (h_fiber h f)" and "t_thread_fiber tls' = t_thread_fiber tls"
proof -
  define h1 where "h1 = (if f_state (h_fiber h f) \<noteq> TERMINATED then put_fiber f (\<lambda>fb. fb\<lparr>f_state := READY\<rparr>) h else h)"
  obtain h' tls' where w: "swapcontext f s (h1, SetThis (Some s) tls) = (h', tls')" by fastforce
  have "Fiber_yield f (h, tls) = Inr (h', tls')" unfolding w [symmetric]
    using assms by (auto simp: Fiber_yield_def Let_def partner_def running_on_def h1_def)
  then show thesis
    by (rule that [of h' tls'])
      (use assms w in \<open>auto simp: swapcontext_def Let_def running_on_def at_home_def others_kept_def h1_def split: if_splits\<close>)
qed

text \<open>
  Control goes back and forth: a ready fiber resumed by the scheduler runs; when it yields, or its
  function returns, the scheduler goes on where it was, and no other fiber has changed. After a yield
  the fiber can be resumed again, on its own stack; after its function has returned it has given up its
  function, and resuming it fails.
\<close>

theorem resume_then_yield:
  assumes "at_home s tls" and "f \<noteq> s" and "f_runInScheduler (h_fiber h f)" and "f_state (h_fiber h f) = READY" and "own_ctx f h"
  shows "\<exists>w. Fiber_resume f (h, tls) = Inr w \<and> running_on s f (snd w) \<and> f_state (h_fiber (fst w) f) = RUNNING \<and>
    (\<exists>w'. Fiber_yield f w = Inr w' \<and> at_home s (snd w') \<and> own_ctx f (fst w') \<and>
      f_state (h_fiber (fst w') f) = READY \<and> others_kept {s, f} h (fst w')) \<and>
    (\<exists>w'. MainFunc_return f w = Inr w' \<and> at_home s (snd w') \<and> f_cb (h_fiber (fst w') f) = None \<and>
      f_state (h_fiber (fst w') f) = TERMINATED \<and> others_kept {s, f} h (fst w') \<and> Fiber_resume f w' = Inl Assertion_fails)"
proof -
  obtain h1 tls1 where r: "Fiber_resume f (h, tls) = Inr (h1, tls1)" "running_on s f tls1" "others_kept {s, f} h h1"
    "f_state (h_fiber h1 f) = RUNNING" "f_ctx (h_fiber h1 s) = On_stack s"
    by (rule resume_switches [OF assms])
  have sched: "f_runInScheduler (h_fiber h1 f)" using r(3) assms(3) by (simp add: others_kept_def)
  obtain h2 tls2 where y: "Fiber_yield f (h1, tls1) = Inr (h2, tls2)" "at_home s tls2" "others_kept {f} h1 h2"
    "f_state (h_fiber h2 f) = READY" "f_ctx (h_fiber h2 f) = On_stack f"
    by (rule yield_switches [OF r(2) assms(2) sched _ r(5)]) (use r(4) in auto)
  let ?h = "put_fiber f (\<lambda>fb. fb\<lparr>f_cb := None, f_state := TERMINATED\<rparr>) h1"
  obtain h3 tls3 where m: "Fiber_yield f (?h, tls1) = Inr (h3, tls3)" "at_home s tls3" "others_kept {f} ?h h3"
    "f_state (h_fiber h3 f) = TERMINATED" "f_cb (h_fiber h3 f) = None"
    by (rule yield_switches [OF r(2) assms(2), of ?h]) (use sched r(5) assms(2) in auto)
  have "others_kept {s, f} h h2" "others_kept {s, f} h h3"
    using r(3) y(3) m(3) by (simp_all add: others_kept_def split: if_splits)
  moreover have "Fiber_resume f (h3, tls3) = Inl Assertion_fails" using m(4) by (simp add: Fiber_resume_def)
  ultimately show ?thesis using r y m by (auto simp: MainFunc_return_def own_ctx_def)
qed

text \<open>
  A fiber that resumes another one itself, both run by the scheduler, destroys the scheduler: its
  context is overwritten with the fiber's own. The inner fiber still comes back, but \<open>GetThis\<close> is then
  the scheduler's fiber, and when the outer one yields it goes on itself: nothing continues the
  scheduler's loop any more.
\<close>

theorem nested_resume_loses_scheduler:
  assumes "at_home s tls" and "distinct [s, f, g]"
    and "\<forall>k \<in> {f, g}. f_runInScheduler (h_fiber h k) \<and> f_state (h_fiber h k) = READY \<and> own_ctx k h"
    and "\<forall>k. k \<noteq> s \<longrightarrow> f_ctx (h_fiber h k) \<noteq> On_stack s"
  shows "\<exists>w1 w2 w3 w4. Fiber_resume f (h, tls) = Inr w1 \<and> Fiber_resume g w1 = Inr w2 \<and> Fiber_yield g w2 = Inr w3 \<and>
    t_stack (snd w3) = f \<and> t_fiber (snd w3) = Some s \<and> Fiber_yield f w3 = Inr w4 \<and> t_stack (snd w4) = f \<and>
    (\<forall>k. f_ctx (h_fiber (fst w4) k) \<noteq> On_stack s)"
  using assms
  by (auto simp: Fiber_resume_def Fiber_yield_def Let_def partner_def at_home_def swapcontext_def own_ctx_def)

section \<open>Examples\<close>

definition sample_heap :: fiber_heap where
  "sample_heap = snd (Fiber_new (Some 9) 0 True (snd (Fiber_new (Some 8) 0 True (fst (snd (GetThis False
     (\<lparr>h_fiber = \<lambda>_. \<lparr>f_id = 0, f_stacksize = 0, f_state = TERMINATED, f_ctx = Main_func, f_stack = False, f_cb = None,
        f_runInScheduler = False, f_mutex = None\<rparr>, h_fresh = 0, s_fiber_id = 0, s_fiber_count = 0\<rparr>,
      \<lparr>t_fiber = None, t_thread_fiber = None, t_scheduler_fiber = None, t_stack = 0\<rparr>)))))))"

definition sample_locals :: thread_locals where
  "sample_locals = \<lparr>t_fiber = Some 0, t_thread_fiber = Some 0, t_scheduler_fiber = Some 0, t_stack = 0\<rparr>"

lemma sample_fibers:
  "at_home 0 sample_locals"
  "f \<in> {1, 2} \<Longrightarrow> f_runInScheduler (h_fiber sample_heap f) \<and> f_state (h_fiber sample_heap f) = READY \<and> own_ctx f sample_heap"
  by (auto simp: sample_locals_def sample_heap_def at_home_def own_ctx_def Fiber_new_def alloc_fiber_def GetThis_def Fiber_main_def SetThis_def)

theorem resume_then_yield_witness:
  "\<exists>w w'. Fiber_resume 1 (sample_heap, sample_locals) = Inr w \<and> Fiber_yield 1 w = Inr w' \<and> at_home 0 (snd w')"
  using resume_then_yield [OF sample_fibers(1), of 1 sample_heap] sample_fibers(2) [of 1] by auto

theorem nested_resume_loses_scheduler_witness:
  "\<exists>w1 w2 w3. Fiber_resume 1 (sample_heap, sample_locals) = Inr w1 \<and> Fiber_resume 2 w1 = Inr w2 \<and>
     Fiber_yield 2 w2 = Inr w3 \<and> t_stack (snd w3) = 1 \<and> t_fiber (snd w3) = Some 0"
proof -
  have "\<forall>k. k \<noteq> 0 \<longrightarrow> f_ctx (h_fiber sample_heap k) \<noteq> On_stack 0"
    by (auto simp: sample_heap_def Fiber_new_def alloc_fiber_def GetThis_def Fiber_main_def SetThis_def)
  from nested_resume_loses_scheduler [OF sample_fibers(1), of 1 2 sample_heap, OF _ _ this] sample_fibers(2)
  show ?thesis by auto
qed

end
