(* ===== verification/Task_Scheduler.thy ===== *)
theory Task_Scheduler
  imports Fibers "HOL-Library.Multiset"
begin

text \<open>
  \<open>src/CoroutineLibrary/scheduler.cpp\<close>: the queue of tasks and the threads that work on it. What
  happens under one lock is one step; the state of the whole is the scheduler, the fibers and the
  list of working threads, each at a point of the loop in \<open>run\<close>. A lock of a fiber's mutex that another
  thread holds is a step that is not possible yet (\<open>None\<close>). Callbacks are numbers; those of the
  scheduler's own fibers, \<open>run\<close> and \<open>idle\<close>, are 0 and 1.
\<close>

section \<open>The queue\<close>

record sched_task =
  st_fiber :: "nat option"
  st_cb :: "nat option"
  st_thread :: int

record scheduler =
  m_tasks :: "sched_task list"
  m_threads :: "int list"
  m_threadIds :: "int list"
  m_threadCount :: nat
  m_activeThreadCount :: u64
  m_idleThreadCount :: u64
  m_useCaller :: bool
  m_schedulerFiber :: "nat option"
  m_rootThread :: int
  m_stopping :: bool

text \<open>The result says whether \<open>tickle\<close> is called.\<close>

definition scheduleLock :: "sched_task \<Rightarrow> scheduler \<Rightarrow> bool \<times> scheduler" where
  "scheduleLock t s =
     (m_tasks s = [], if st_fiber t \<noteq> None \<or> st_cb t \<noteq> None then s\<lparr>m_tasks := m_tasks s @ [t]\<rparr> else s)"

text \<open>The tasks that are passed over, the one that is found, and those behind it.\<close>

fun scan_tasks :: "int \<Rightarrow> sched_task list \<Rightarrow> sched_task list \<times> sched_task option \<times> sched_task list" where
  "scan_tasks thread_id [] = ([], None, [])"
| "scan_tasks thread_id (t # ts) =
     (if st_thread t \<noteq> -1 \<and> st_thread t \<noteq> thread_id
      then (case scan_tasks thread_id ts of (skipped, r, behind) \<Rightarrow> (t # skipped, r, behind))
      else ([], Some t, ts))"

text \<open>
  The part of \<open>run\<close> under the lock; the second result says whether \<open>tickle\<close> is called. The code looks at
  the iterator of the erased task, which is at the next one where iterators are pointers.
\<close>

definition take_task :: "int \<Rightarrow> scheduler \<Rightarrow> fiber_fault + sched_task option \<times> bool \<times> scheduler" where
  "take_task thread_id s =
     (case scan_tasks thread_id (m_tasks s) of
        (skipped, None, _) \<Rightarrow> Inr (None, skipped \<noteq> [], s)
      | (skipped, Some t, behind) \<Rightarrow>
          if st_fiber t = None \<and> st_cb t = None then Inl Assertion_fails
          else Inr (Some t, skipped \<noteq> [] \<or> behind \<noteq> [],
                    s\<lparr>m_tasks := skipped @ behind, m_activeThreadCount := m_activeThreadCount s + 1\<rparr>))"

definition sched_stopping :: "scheduler \<Rightarrow> bool" where
  "sched_stopping s \<longleftrightarrow> m_stopping s \<and> m_tasks s = [] \<and> m_activeThreadCount s = 0"

definition Scheduler_new ::
  "nat \<Rightarrow> bool \<Rightarrow> bool \<Rightarrow> int \<Rightarrow> fiber_world \<Rightarrow> fiber_fault + scheduler \<times> fiber_world" where
  "Scheduler_new threads use_caller junk thread_id w =
     (let s = \<lparr>m_tasks = [], m_threads = [], m_threadIds = [], m_threadCount = threads, m_activeThreadCount = 0,
               m_idleThreadCount = 0, m_useCaller = use_caller, m_schedulerFiber = None, m_rootThread = -1,
               m_stopping = False\<rparr>
      in if threads = 0 then Inl Assertion_fails
         else if \<not> use_caller then Inr (s, w)
         else case GetThis junk w of
                (_, h, tls) \<Rightarrow>
                  (case Fiber_new (Some 0) 0 False h of
                     (sf, h) \<Rightarrow>
                       Inr (s\<lparr>m_threadCount := threads - 1, m_schedulerFiber := Some sf, m_rootThread := thread_id,
                              m_threadIds := [thread_id]\<rparr>, h, SetSchedulerFiber (Some sf) tls)))"

text \<open>\<open>ids\<close>: the numbers the system gives to the new threads.\<close>

definition Scheduler_start :: "int list \<Rightarrow> scheduler \<Rightarrow> fiber_fault + scheduler" where
  "Scheduler_start ids s =
     (if m_stopping s then Inr s
      else if m_threads s \<noteq> [] then Inl Assertion_fails
      else Inr (s\<lparr>m_threads := take (m_threadCount s) ids, m_threadIds := m_threadIds s @ take (m_threadCount s) ids\<rparr>))"

section \<open>The working threads\<close>

text \<open>Where a thread is in the loop of \<open>run\<close>.\<close>

datatype worker_phase =
    Looking
  | Taken sched_task
  | Found_none
  | In_task sched_task nat
  | In_idle
  | Ended

record worker =
  wk_id :: int
  wk_locals :: thread_locals
  wk_idle :: nat
  wk_phase :: worker_phase

text \<open>\<open>sw_caller\<close>: the thread that made the scheduler, when it is to work and does not yet.\<close>

record sched_world =
  sw_sched :: scheduler
  sw_heap :: fiber_heap
  sw_workers :: "worker list"
  sw_caller :: "thread_locals option"

type_synonym outcome = "(fiber_fault + sched_world) option"

text \<open>\<open>run\<close> up to the loop, on the thread with these locals.\<close>

definition run_begin :: "bool \<Rightarrow> int \<Rightarrow> thread_locals \<Rightarrow> sched_world \<Rightarrow> sched_world" where
  "run_begin junk thread_id tls W =
     (let (h, tls) = (if thread_id \<noteq> m_rootThread (sw_sched W) then snd (GetThis junk (sw_heap W, tls)) else (sw_heap W, tls));
          (idle, h) = Fiber_new (Some 1) 0 True h
      in W\<lparr>sw_heap := h,
           sw_workers := sw_workers W @ [\<lparr>wk_id = thread_id, wk_locals = tls, wk_idle = idle, wk_phase = Looking\<rparr>]\<rparr>)"

text \<open>
  \<open>stop\<close> up to the point where the other threads are joined: the calling thread, when it is used, runs
  the scheduler's fiber. \<open>mine\<close>: the calling thread's scheduler is this one. A scheduler's fiber that was resumed
  before never yields, so it runs or has ended, and the assertion of \<open>resume\<close> fails.
\<close>

definition Scheduler_stop :: "bool \<Rightarrow> bool \<Rightarrow> sched_world \<Rightarrow> fiber_fault + sched_world" where
  "Scheduler_stop junk mine W =
     (if sched_stopping (sw_sched W) then Inr W
      else if mine \<noteq> m_useCaller (sw_sched W) then Inl Assertion_fails
      else
       (let W = W\<lparr>sw_sched := (sw_sched W)\<lparr>m_stopping := True\<rparr>\<rparr>
        in case (m_schedulerFiber (sw_sched W), sw_caller W) of
             (Some sf, Some tls) \<Rightarrow>
               (case Fiber_resume sf (sw_heap W, tls) of
                  Inl e \<Rightarrow> Inl e
                | Inr (h, tls) \<Rightarrow>
                    Inr (run_begin junk (m_rootThread (sw_sched W)) tls (W\<lparr>sw_heap := h, sw_caller := None\<rparr>)))
           | (Some _, None) \<Rightarrow> Inl Assertion_fails
           | (None, _) \<Rightarrow> Inr W))"

abbreviation worker_at :: "nat \<Rightarrow> sched_world \<Rightarrow> worker" where
  "worker_at i W \<equiv> sw_workers W ! i"

definition set_worker :: "nat \<Rightarrow> thread_locals \<Rightarrow> worker_phase \<Rightarrow> sched_world \<Rightarrow> sched_world" where
  "set_worker i tls ph W =
     W\<lparr>sw_workers := (sw_workers W)[i := (worker_at i W)\<lparr>wk_locals := tls, wk_phase := ph\<rparr>]\<rparr>"

text \<open>The first half of a round: a task is looked for.\<close>

definition run_take :: "nat \<Rightarrow> sched_world \<Rightarrow> outcome" where
  "run_take i W =
     (if wk_phase (worker_at i W) \<noteq> Looking then None
      else case take_task (wk_id (worker_at i W)) (sw_sched W) of
             Inl e \<Rightarrow> Some (Inl e)
           | Inr (t, _, s) \<Rightarrow>
               Some (Inr (set_worker i (wk_locals (worker_at i W))
                            (case t of Some t \<Rightarrow> Taken t | None \<Rightarrow> Found_none) (W\<lparr>sw_sched := s\<rparr>))))"

text \<open>With the fiber's mutex, into the fiber.\<close>

definition run_enter :: "nat \<Rightarrow> nat \<Rightarrow> worker_phase \<Rightarrow> sched_world \<Rightarrow> outcome" where
  "run_enter i f ph W =
     (case Fiber_resume f (sw_heap W, wk_locals (worker_at i W)) of
        Inl e \<Rightarrow> Some (Inl e)
      | Inr (h, tls) \<Rightarrow> Some (Inr (set_worker i tls ph (W\<lparr>sw_heap := h\<rparr>))))"

definition lock_fiber :: "nat option \<Rightarrow> nat \<Rightarrow> sched_world \<Rightarrow> sched_world" where
  "lock_fiber holder f W = W\<lparr>sw_heap := put_fiber f (\<lambda>fb. fb\<lparr>f_mutex := holder\<rparr>) (sw_heap W)\<rparr>"

definition add_active :: "u64 \<Rightarrow> sched_world \<Rightarrow> sched_world" where
  "add_active k W = W\<lparr>sw_sched := (sw_sched W)\<lparr>m_activeThreadCount := m_activeThreadCount (sw_sched W) + k\<rparr>\<rparr>"

definition add_idle :: "u64 \<Rightarrow> sched_world \<Rightarrow> sched_world" where
  "add_idle k W = W\<lparr>sw_sched := (sw_sched W)\<lparr>m_idleThreadCount := m_idleThreadCount (sw_sched W) + k\<rparr>\<rparr>"

definition run_execute :: "nat \<Rightarrow> sched_world \<Rightarrow> outcome" where
  "run_execute i W =
     (let w = worker_at i W in
      case wk_phase w of
        Taken t \<Rightarrow>
          (case st_fiber t of
             Some f \<Rightarrow>
               if f_mutex (h_fiber (sw_heap W) f) \<noteq> None then None
               else if f_state (h_fiber (sw_heap W) f) \<noteq> TERMINATED then run_enter i f (In_task t f) (lock_fiber (Some i) f W)
               else Some (Inr (set_worker i (wk_locals w) Looking (add_active (-1) W)))
           | None \<Rightarrow>
               (case Fiber_new (st_cb t) 0 True (sw_heap W) of
                  (f, h) \<Rightarrow> run_enter i f (In_task t f) (lock_fiber (Some i) f (W\<lparr>sw_heap := h\<rparr>))))
      | Found_none \<Rightarrow>
          if f_state (h_fiber (sw_heap W) (wk_idle w)) = TERMINATED
          then Some (Inr (set_worker i (wk_locals w) Ended W))
          else run_enter i (wk_idle w) In_idle (add_idle 1 W)
      | _ \<Rightarrow> None)"

text \<open>The fiber that \<open>f\<close> gives control back to is the scheduler's.\<close>

definition is_home :: "thread_locals \<Rightarrow> bool" where
  "is_home tls \<longleftrightarrow> Some (t_stack tls) = t_scheduler_fiber tls"

text \<open>What the running fiber does in the end: it yields, or its function returns.\<close>

definition run_leave :: "bool \<Rightarrow> nat \<Rightarrow> sched_world \<Rightarrow> outcome" where
  "run_leave returns i W =
     (let tls = wk_locals (worker_at i W) in
      if is_home tls then None
      else case t_fiber tls of
        None \<Rightarrow> None
      | Some f \<Rightarrow>
          (case (if returns then MainFunc_return f else Fiber_yield f) (sw_heap W, tls) of
             Inl e \<Rightarrow> Some (Inl e)
           | Inr (h, tls) \<Rightarrow> Some (Inr (set_worker i tls (wk_phase (worker_at i W)) (W\<lparr>sw_heap := h\<rparr>)))))"

text \<open>The second half of a round, when \<open>resume\<close> has returned.\<close>

definition run_return :: "nat \<Rightarrow> sched_world \<Rightarrow> outcome" where
  "run_return i W =
     (let tls = wk_locals (worker_at i W) in
      if \<not> is_home tls then None
      else case wk_phase (worker_at i W) of
        In_task t f \<Rightarrow> Some (Inr (set_worker i tls Looking (add_active (-1) (lock_fiber None f W))))
      | In_idle \<Rightarrow> Some (Inr (set_worker i tls Looking (add_idle (-1) W)))
      | _ \<Rightarrow> None)"

section \<open>What is reached\<close>

text \<open>The fibers that are run by schedulers, those of tasks and the idle ones.\<close>

definition coroutine :: "fiber_heap \<Rightarrow> nat \<Rightarrow> bool" where
  "coroutine h f \<longleftrightarrow> f < h_fresh h \<and> f_stack (h_fiber h f) \<and> f_runInScheduler (h_fiber h f)"

definition idle_fibers :: "sched_world \<Rightarrow> nat set" where
  "idle_fibers W = wk_idle ` set (sw_workers W)"

text \<open>A task that may be given to \<open>scheduleLock\<close>: its fiber is one that is run by schedulers.\<close>

definition task_ok :: "sched_world \<Rightarrow> sched_task \<Rightarrow> bool" where
  "task_ok W t \<longleftrightarrow> (\<forall>f. st_fiber t = Some f \<longrightarrow> coroutine (sw_heap W) f \<and> f \<notin> idle_fibers W)"

text \<open>
  The worlds reached from a new scheduler, with the tasks that were scheduled and those that are done:
  threads begin, tasks are scheduled, fibers are made, the threads do their steps in any order, the
  running fibers yield or return when they like, an idle fiber returns only when the scheduler is to
  stop.
\<close>

inductive sched_reach :: "sched_world \<Rightarrow> sched_task multiset \<Rightarrow> sched_task multiset \<Rightarrow> bool" where
  new: "Scheduler_new threads use_caller junk tid (h0, tls0) = Inr (s, h, tls) \<Longrightarrow> h_fresh h0 = 0 \<Longrightarrow>
    t_fiber tls0 = None \<Longrightarrow> sched_reach \<lparr>sw_sched = s, sw_heap = h, sw_workers = [],
      sw_caller = (if use_caller then Some tls else None)\<rparr> {#} {#}"
| start: "sched_reach W A D \<Longrightarrow> Scheduler_start ids (sw_sched W) = Inr s \<Longrightarrow> sched_reach (W\<lparr>sw_sched := s\<rparr>) A D"
| begin_thread: "sched_reach W A D \<Longrightarrow> tid \<noteq> m_rootThread (sw_sched W) \<Longrightarrow> t_fiber tls = None \<Longrightarrow>
    sched_reach (run_begin junk tid tls W) A D"
| stop: "sched_reach W A D \<Longrightarrow> Scheduler_stop junk mine W = Inr W' \<Longrightarrow> sched_reach W' A D"
| schedule: "sched_reach W A D \<Longrightarrow> task_ok W t \<Longrightarrow> scheduleLock t (sw_sched W) = (tickle, s) \<Longrightarrow>
    sched_reach (W\<lparr>sw_sched := s\<rparr>) ((if m_tasks s = m_tasks (sw_sched W) then {#} else {#t#}) + A) D"
| make_fiber: "sched_reach W A D \<Longrightarrow> Fiber_new cb stacksize True (sw_heap W) = (f, h) \<Longrightarrow>
    sched_reach (W\<lparr>sw_heap := h\<rparr>) A D"
| take: "sched_reach W A D \<Longrightarrow> i < length (sw_workers W) \<Longrightarrow> run_take i W = Some (Inr W') \<Longrightarrow> sched_reach W' A D"
| execute: "sched_reach W A D \<Longrightarrow> i < length (sw_workers W) \<Longrightarrow> run_execute i W = Some (Inr W') \<Longrightarrow>
    sched_reach W' A (D + (case (wk_phase (worker_at i W), wk_phase (worker_at i W')) of (Taken t, Looking) \<Rightarrow> {#t#} | _ \<Rightarrow> {#}))"
| leave: "sched_reach W A D \<Longrightarrow> i < length (sw_workers W) \<Longrightarrow> run_leave returns i W = Some (Inr W') \<Longrightarrow>
    returns \<and> wk_phase (worker_at i W) = In_idle \<longrightarrow> sched_stopping (sw_sched W) \<Longrightarrow> sched_reach W' A D"
| return: "sched_reach W A D \<Longrightarrow> i < length (sw_workers W) \<Longrightarrow> run_return i W = Some (Inr W') \<Longrightarrow>
    sched_reach W' A (D + (case wk_phase (worker_at i W) of In_task t f \<Rightarrow> {#t#} | _ \<Rightarrow> {#}))"

section \<open>The invariant\<close>

definition occupant :: "worker \<Rightarrow> nat option" where
  "occupant w = (case wk_phase w of In_task t f \<Rightarrow> Some f | In_idle \<Rightarrow> Some (wk_idle w) | _ \<Rightarrow> None)"

definition home_of :: "worker \<Rightarrow> nat" where
  "home_of w = the (t_scheduler_fiber (wk_locals w))"

definition held_tasks :: "worker \<Rightarrow> sched_task list" where
  "held_tasks w = (case wk_phase w of Taken t \<Rightarrow> [t] | In_task t f \<Rightarrow> [t] | _ \<Rightarrow> [])"

definition idling :: "worker \<Rightarrow> nat list" where
  "idling w = (case wk_phase w of In_idle \<Rightarrow> [wk_idle w] | _ \<Rightarrow> [])"

text \<open>A thread inside \<open>resume\<close> of \<open>f\<close>: the fiber runs, or it has given control back.\<close>

definition inside :: "fiber_heap \<Rightarrow> worker \<Rightarrow> nat \<Rightarrow> bool" where
  "inside h w f \<longleftrightarrow>
     running_on (home_of w) f (wk_locals w) \<and> f_state (h_fiber h f) = RUNNING \<and> f_ctx (h_fiber h (home_of w)) = On_stack (home_of w) \<or>
     at_home (home_of w) (wk_locals w) \<and> f_state (h_fiber h f) \<noteq> RUNNING"

definition worker_ok :: "fiber_heap \<Rightarrow> nat set \<Rightarrow> nat \<Rightarrow> worker \<Rightarrow> bool" where
  "worker_ok h I i w \<longleftrightarrow>
     home_of w < h_fresh h \<and> \<not> coroutine h (home_of w) \<and> coroutine h (wk_idle w) \<and>
     (case wk_phase w of
        In_task t f \<Rightarrow> coroutine h f \<and> f \<notin> I \<and> f_mutex (h_fiber h f) = Some i \<and> inside h w f
      | In_idle \<Rightarrow> inside h w (wk_idle w)
      | _ \<Rightarrow> at_home (home_of w) (wk_locals w) \<and> (\<forall>t. wk_phase w = Taken t \<longrightarrow> st_fiber t \<noteq> None \<or> st_cb t \<noteq> None))"

definition fiber_ok :: "fiber_heap \<Rightarrow> worker list \<Rightarrow> nat \<Rightarrow> bool" where
  "fiber_ok h ws f \<longleftrightarrow>
     (f_state (h_fiber h f) \<noteq> RUNNING \<longrightarrow> own_ctx f h) \<and>
     (f_state (h_fiber h f) = RUNNING \<longrightarrow> (\<exists>w \<in> set ws. occupant w = Some f)) \<and>
     (\<forall>i. f_mutex (h_fiber h f) = Some i \<longrightarrow> i < length ws \<and> (\<exists>t. wk_phase (ws ! i) = In_task t f))"

definition caller_ok :: "sched_world \<Rightarrow> bool" where
  "caller_ok W \<longleftrightarrow>
     (case sw_caller W of
        None \<Rightarrow> True
      | Some tls \<Rightarrow>
          (\<exists>sf m. m_schedulerFiber (sw_sched W) = Some sf \<and> t_scheduler_fiber tls = Some sf \<and> t_thread_fiber tls = Some m \<and>
             m \<noteq> sf \<and> sf < h_fresh (sw_heap W) \<and> m < h_fresh (sw_heap W) \<and> \<not> coroutine (sw_heap W) m \<and>
             \<not> f_runInScheduler (h_fiber (sw_heap W) sf) \<and>
             f_state (h_fiber (sw_heap W) sf) = READY \<and> f_ctx (h_fiber (sw_heap W) sf) = Main_func \<and>
             sf \<notin> home_of ` set (sw_workers W) \<and> m \<notin> home_of ` set (sw_workers W)))"

definition tasks_ok :: "sched_world \<Rightarrow> bool" where
  "tasks_ok W \<longleftrightarrow>
     (\<forall>t \<in> set (m_tasks (sw_sched W)). task_ok W t \<and> (st_fiber t \<noteq> None \<or> st_cb t \<noteq> None)) \<and>
     (\<forall>w \<in> set (sw_workers W). \<forall>t \<in> set (held_tasks w). task_ok W t)"

definition counts_ok :: "sched_world \<Rightarrow> bool" where
  "counts_ok W \<longleftrightarrow>
     m_activeThreadCount (sw_sched W) = of_nat (length (concat (map held_tasks (sw_workers W)))) \<and>
     m_idleThreadCount (sw_sched W) = of_nat (length (concat (map idling (sw_workers W))))"

definition sched_inv :: "sched_world \<Rightarrow> bool" where
  "sched_inv W \<longleftrightarrow>
     (\<forall>i < length (sw_workers W). worker_ok (sw_heap W) (idle_fibers W) i (worker_at i W)) \<and>
     distinct (map home_of (sw_workers W)) \<and> distinct (map wk_idle (sw_workers W)) \<and>
     (\<forall>f. coroutine (sw_heap W) f \<longrightarrow> fiber_ok (sw_heap W) (sw_workers W) f) \<and>
     caller_ok W \<and> tasks_ok W \<and> counts_ok W"

text \<open>What most steps leave of the fibers: all but those of \<open>F\<close>, and the kind of every one.\<close>

definition kept :: "nat set \<Rightarrow> fiber_heap \<Rightarrow> fiber_heap \<Rightarrow> bool" where
  "kept F h h' \<longleftrightarrow> h_fresh h \<le> h_fresh h' \<and> (\<forall>g < h_fresh h. g \<notin> F \<longrightarrow> h_fiber h' g = h_fiber h g) \<and>
     (\<forall>g < h_fresh h. f_stack (h_fiber h' g) = f_stack (h_fiber h g) \<and>
        f_runInScheduler (h_fiber h' g) = f_runInScheduler (h_fiber h g))"

lemma kept_trans: "kept F h h' \<Longrightarrow> kept G h' h'' \<Longrightarrow> kept (F \<union> G) h h''"
  by (auto simp: kept_def)

lemma kept_mono: "kept F h h' \<Longrightarrow> F \<subseteq> G \<Longrightarrow> kept G h h'"
  by (auto simp: kept_def)

lemma kept_refl [simp]: "kept F h h"
  by (simp add: kept_def)

lemma kept_coroutine: "kept F h h' \<Longrightarrow> f < h_fresh h \<Longrightarrow> coroutine h' f = coroutine h f"
  by (auto simp: kept_def coroutine_def)

lemma kept_fiber: "kept F h h' \<Longrightarrow> f < h_fresh h \<Longrightarrow> f \<notin> F \<Longrightarrow> h_fiber h' f = h_fiber h f"
  by (auto simp: kept_def)

lemma worker_ok_frame:
  assumes "worker_ok h I i w" and "kept F h h'" and "home_of w \<notin> F" and "\<And>f. occupant w = Some f \<Longrightarrow> f \<notin> F"
    and "\<And>f. f \<in> J \<Longrightarrow> f \<in> I \<or> h_fresh h \<le> f"
  shows "worker_ok h' J i w"
proof -
  have home: "home_of w < h_fresh h" "home_of w < h_fresh h'" "\<not> coroutine h' (home_of w)"
    "h_fiber h' (home_of w) = h_fiber h (home_of w)"
    using assms(1,2,3) kept_coroutine [OF assms(2)] kept_fiber [OF assms(2)] by (auto simp: worker_ok_def kept_def)
  have idle: "coroutine h' (wk_idle w)"
    using assms(1) kept_coroutine [OF assms(2)] by (auto simp: worker_ok_def coroutine_def)
  have occ: "coroutine h' f \<and> h_fiber h' f = h_fiber h f \<and> (f \<notin> I \<longrightarrow> f \<notin> J)" if "occupant w = Some f" "coroutine h f" for f
    using that assms(4) assms(5) [of f] kept_coroutine [OF assms(2), of f] kept_fiber [OF assms(2), of f] by (auto simp: coroutine_def)
  show ?thesis
    using assms(1) home idle occ unfolding worker_ok_def
    by (cases "wk_phase w") (auto simp: occupant_def inside_def)
qed

lemma concat_update_length:
  "i < length xs \<Longrightarrow> length (concat (map f (xs[i := y]))) + length (f (xs ! i)) = length (concat (map f xs)) + length (f y)"
  by (induction xs arbitrary: i) (auto split: nat.splits)

lemma count_update:
  assumes "k = of_nat (length (concat (map f xs)))" and "i < length xs"
    and "k' + of_nat (length (f (xs ! i))) = k + (of_nat (length (f y)) :: u64)"
  shows "k' = of_nat (length (concat (map f (xs[i := y]))))"
proof -
  have "(of_nat (length (concat (map f (xs[i := y]))) + length (f (xs ! i))) :: u64) = k + of_nat (length (f y))"
    unfolding concat_update_length [OF assms(2)] by (simp add: assms(1))
  then have "k' + of_nat (length (f (xs ! i))) = of_nat (length (concat (map f (xs[i := y])))) + of_nat (length (f (xs ! i)))"
    unfolding assms(3) of_nat_add by (rule sym)
  then show ?thesis by (rule add_right_imp_eq)
qed

lemma occupant_unique:
  assumes "sched_inv W" and "i < length (sw_workers W)" and "j < length (sw_workers W)"
    and "occupant (worker_at i W) = Some f" and "occupant (worker_at j W) = Some f"
  shows "i = j"
proof -
  have idle: "wk_idle (worker_at k W) \<in> idle_fibers W" if "k < length (sw_workers W)" for k
    using that by (simp add: idle_fibers_def)
  have ok: "worker_ok (sw_heap W) (idle_fibers W) k (worker_at k W)" if "k < length (sw_workers W)" for k
    using assms(1) that by (simp add: sched_inv_def)
  have d: "wk_idle (worker_at i W) = wk_idle (worker_at j W) \<Longrightarrow> i = j"
    using assms(1-3) by (auto simp: sched_inv_def distinct_conv_nth)
  show ?thesis
    using ok [OF assms(2)] ok [OF assms(3)] idle [OF assms(2)] idle [OF assms(3)] assms(4,5) d
    by (auto simp: worker_ok_def occupant_def split: worker_phase.splits)
qed

lemma not_occupant:
  assumes "sched_inv W" and "j < length (sw_workers W)"
    and "f_mutex (h_fiber (sw_heap W) f) = None" and "f \<notin> idle_fibers W"
  shows "occupant (worker_at j W) \<noteq> Some f"
proof
  assume "occupant (worker_at j W) = Some f"
  moreover have "worker_ok (sw_heap W) (idle_fibers W) j (worker_at j W)" using assms(1,2) by (simp add: sched_inv_def)
  moreover have "wk_idle (worker_at j W) \<in> idle_fibers W" using assms(2) by (simp add: idle_fibers_def)
  ultimately show False using assms(3,4) by (auto simp: worker_ok_def occupant_def split: worker_phase.splits)
qed

text \<open>
  One step of the thread \<open>i\<close>, that changes its scheduler's fiber and the fiber \<open>f\<close> only, and leaves the
  thread as \<open>v\<close>.
\<close>

definition local_step :: "nat \<Rightarrow> nat \<Rightarrow> worker \<Rightarrow> sched_world \<Rightarrow> sched_world \<Rightarrow> bool" where
  "local_step i f v W W' \<longleftrightarrow>
     i < length (sw_workers W) \<and> kept {home_of (worker_at i W), f} (sw_heap W) (sw_heap W') \<and>
     (\<forall>g. coroutine (sw_heap W') g \<longrightarrow> h_fresh (sw_heap W) \<le> g \<longrightarrow> g = f) \<and> coroutine (sw_heap W') f \<and>
     (\<forall>j < length (sw_workers W). j \<noteq> i \<longrightarrow> occupant (worker_at j W) \<noteq> Some f) \<and>
     sw_workers W' = (sw_workers W)[i := v] \<and> home_of v = home_of (worker_at i W) \<and> wk_idle v = wk_idle (worker_at i W) \<and>
     (\<forall>g. occupant (worker_at i W) = Some g \<longrightarrow> g = f \<or> wk_phase v = wk_phase (worker_at i W))"

lemma local_step_same:
  assumes "local_step i f v W W'"
  shows "map home_of (sw_workers W') = map home_of (sw_workers W)" "map wk_idle (sw_workers W') = map wk_idle (sw_workers W)"
    "idle_fibers W' = idle_fibers W"
proof -
  show m: "map home_of (sw_workers W') = map home_of (sw_workers W)" "map wk_idle (sw_workers W') = map wk_idle (sw_workers W)"
    using assms by (auto simp: local_step_def map_update list_update_same_conv)
  show "idle_fibers W' = idle_fibers W" unfolding idle_fibers_def using m(2) by (metis set_map)
qed

lemma local_step_home:
  assumes "local_step i f v W W'" and "g < h_fresh (sw_heap W)" and "\<not> coroutine (sw_heap W) g"
  shows "g \<noteq> f"
proof -
  have "kept {home_of (worker_at i W), f} (sw_heap W) (sw_heap W')" "coroutine (sw_heap W') f"
    using assms(1) by (simp_all add: local_step_def)
  with kept_coroutine [of _ "sw_heap W" "sw_heap W'" g] assms(2,3) show ?thesis by blast
qed

lemma local_step_workers:
  assumes inv: "sched_inv W" and ls: "local_step i f v W W'" and wok: "worker_ok (sw_heap W') (idle_fibers W) i v"
    and j: "j < length (sw_workers W)"
  shows "worker_ok (sw_heap W') (idle_fibers W) j (sw_workers W' ! j)"
proof (cases "j = i")
  case False
  have i: "i < length (sw_workers W)" and heap: "kept {home_of (worker_at i W), f} (sw_heap W) (sw_heap W')"
    using ls by (simp_all add: local_step_def)
  have ok: "worker_ok (sw_heap W) (idle_fibers W) k (worker_at k W)" if "k < length (sw_workers W)" for k
    using inv that by (simp add: sched_inv_def)
  have "worker_ok (sw_heap W') (idle_fibers W) j (worker_at j W)"
  proof (rule worker_ok_frame [OF ok [OF j] heap])
    have "home_of (worker_at j W) \<noteq> home_of (worker_at i W)"
      using inv j i False by (auto simp: sched_inv_def distinct_conv_nth)
    moreover have "home_of (worker_at j W) \<noteq> f"
      by (rule local_step_home [OF ls]) (use ok [OF j] in \<open>auto simp: worker_ok_def\<close>)
    ultimately show "home_of (worker_at j W) \<notin> {home_of (worker_at i W), f}" by simp
  next
    fix g assume g: "occupant (worker_at j W) = Some g"
    then have "coroutine (sw_heap W) g" using ok [OF j] by (auto simp: worker_ok_def occupant_def split: worker_phase.splits)
    then show "g \<notin> {home_of (worker_at i W), f}"
      using g ls j False ok [OF i] by (auto simp: worker_ok_def local_step_def)
  qed simp
  with False ls show ?thesis by (simp add: local_step_def)
qed (use ls wok in \<open>simp add: local_step_def\<close>)

lemma local_step_fibers:
  assumes inv: "sched_inv W" and ls: "local_step i f v W W'" and fok: "fiber_ok (sw_heap W') (sw_workers W') f"
    and g: "coroutine (sw_heap W') g"
  shows "fiber_ok (sw_heap W') (sw_workers W') g"
proof (cases "g = f")
  case False
  have i: "i < length (sw_workers W)" and heap: "kept {home_of (worker_at i W), f} (sw_heap W) (sw_heap W')"
    and ws: "sw_workers W' = (sw_workers W)[i := v]" using ls by (simp_all add: local_step_def)
  have l: "g < h_fresh (sw_heap W)" using ls g False by (force simp: local_step_def)
  then have c: "coroutine (sw_heap W) g" using g kept_coroutine [OF heap l] by simp
  then have fo: "fiber_ok (sw_heap W) (sw_workers W) g" using inv by (simp add: sched_inv_def)
  have "\<not> coroutine (sw_heap W) (home_of (worker_at i W))" using inv i by (simp add: sched_inv_def worker_ok_def)
  then have hg: "h_fiber (sw_heap W') g = h_fiber (sw_heap W) g"
    using kept_fiber [OF heap l] False c by auto
  have phase: "wk_phase (sw_workers W' ! j) = wk_phase (worker_at j W) \<and> wk_idle (sw_workers W' ! j) = wk_idle (worker_at j W)"
    if "j < length (sw_workers W)" "occupant (worker_at j W) = Some g" for j
    using that ls False by (cases "j = i") (auto simp: local_step_def)
  have "\<exists>w \<in> set (sw_workers W'). occupant w = Some g" if "\<exists>w \<in> set (sw_workers W). occupant w = Some g"
  proof -
    from that obtain j where "j < length (sw_workers W)" "occupant (worker_at j W) = Some g" by (auto simp: in_set_conv_nth)
    with phase [of j] ws show ?thesis
      by (intro bexI [of _ "sw_workers W' ! j"]) (auto simp: occupant_def split: worker_phase.splits)
  qed
  moreover have "j < length (sw_workers W') \<and> (\<exists>t. wk_phase (sw_workers W' ! j) = In_task t g)"
    if "j < length (sw_workers W)" "wk_phase (worker_at j W) = In_task t g" for j t
    using that phase [of j] ws by (auto simp: occupant_def)
  ultimately show ?thesis using fo unfolding fiber_ok_def hg own_ctx_def by blast
qed (use fok in simp)

lemma local_step_caller:
  assumes inv: "sched_inv W" and ls: "local_step i f v W W'"
    and cl: "sw_caller W' = sw_caller W" "m_schedulerFiber (sw_sched W') = m_schedulerFiber (sw_sched W)"
  shows "caller_ok W'"
proof (cases "sw_caller W")
  case (Some tls)
  let ?h = "sw_heap W" and ?h' = "sw_heap W'"
  have i: "i < length (sw_workers W)" and heap: "kept {home_of (worker_at i W), f} ?h ?h'" using ls by (simp_all add: local_step_def)
  from Some inv obtain sf m where c: "m_schedulerFiber (sw_sched W) = Some sf" "t_scheduler_fiber tls = Some sf"
    "t_thread_fiber tls = Some m" "m \<noteq> sf" "sf < h_fresh ?h" "m < h_fresh ?h" "\<not> coroutine ?h m"
    "\<not> f_runInScheduler (h_fiber ?h sf)" "f_state (h_fiber ?h sf) = READY" "f_ctx (h_fiber ?h sf) = Main_func"
    "sf \<notin> home_of ` set (sw_workers W)" "m \<notin> home_of ` set (sw_workers W)" by (auto simp: sched_inv_def caller_ok_def)
  have "home_of (worker_at i W) \<in> home_of ` set (sw_workers W)" using i by simp
  with c(11) local_step_home [OF ls c(5)] c(8) have "h_fiber ?h' sf = h_fiber ?h sf"
    by (intro kept_fiber [OF heap c(5)]) (auto simp: coroutine_def)
  moreover have "\<not> coroutine ?h' m" using kept_coroutine [OF heap c(6)] c(7) by simp
  moreover have "home_of ` set (sw_workers W') = home_of ` set (sw_workers W)" using local_step_same(1) [OF ls] by (metis set_map)
  moreover have "h_fresh ?h \<le> h_fresh ?h'" using heap by (simp add: kept_def)
  ultimately show ?thesis using c Some cl by (auto simp: caller_ok_def)
qed (use cl in \<open>simp add: caller_ok_def\<close>)

lemma local_step_tasks:
  assumes inv: "sched_inv W" and ls: "local_step i f v W W'"
    and ts: "set (m_tasks (sw_sched W')) \<subseteq> set (m_tasks (sw_sched W))"
      "set (held_tasks v) \<subseteq> set (m_tasks (sw_sched W)) \<union> set (held_tasks (worker_at i W))"
  shows "tasks_ok W'"
proof -
  have i: "i < length (sw_workers W)" and heap: "kept {home_of (worker_at i W), f} (sw_heap W) (sw_heap W')"
    using ls by (simp_all add: local_step_def)
  have task: "task_ok W' t" if "task_ok W t" for t
    using that kept_coroutine [OF heap] by (auto simp: task_ok_def local_step_same(3) [OF ls] coroutine_def)
  have inv': "tasks_ok W" using inv by (simp add: sched_inv_def)
  then have "\<forall>t \<in> set (held_tasks v). task_ok W t" using ts(2) nth_mem [OF i] unfolding tasks_ok_def by blast
  moreover have "\<forall>w \<in> set (sw_workers W). \<forall>t \<in> set (held_tasks w). task_ok W t" using inv' by (simp add: tasks_ok_def)
  moreover have "set (sw_workers W') \<subseteq> insert v (set (sw_workers W))" using ls by (simp add: local_step_def set_update_subset_insert)
  ultimately have "\<forall>w \<in> set (sw_workers W'). \<forall>t \<in> set (held_tasks w). task_ok W t" by blast
  then show ?thesis using inv' ts(1) task by (auto simp: tasks_ok_def)
qed

lemma sched_inv_step:
  assumes inv: "sched_inv W" and i: "i < length (sw_workers W)"
    and heap: "kept {home_of (worker_at i W), f} (sw_heap W) (sw_heap W')"
    and new: "\<And>g. coroutine (sw_heap W') g \<Longrightarrow> h_fresh (sw_heap W) \<le> g \<Longrightarrow> g = f"
    and cor: "coroutine (sw_heap W') f" and fok: "fiber_ok (sw_heap W') (sw_workers W') f"
    and occ: "\<And>j. j < length (sw_workers W) \<Longrightarrow> j \<noteq> i \<Longrightarrow> occupant (worker_at j W) \<noteq> Some f"
    and ws: "sw_workers W' = (sw_workers W)[i := w']" "home_of w' = home_of (worker_at i W)" "wk_idle w' = wk_idle (worker_at i W)"
    and wok: "worker_ok (sw_heap W') (idle_fibers W) i w'"
    and ph: "\<And>g. occupant (worker_at i W) = Some g \<Longrightarrow> g = f \<or> wk_phase w' = wk_phase (worker_at i W)"
    and cl: "sw_caller W' = sw_caller W" "m_schedulerFiber (sw_sched W') = m_schedulerFiber (sw_sched W)"
    and ts: "set (m_tasks (sw_sched W')) \<subseteq> set (m_tasks (sw_sched W))"
      "set (held_tasks w') \<subseteq> set (m_tasks (sw_sched W)) \<union> set (held_tasks (worker_at i W))"
    and ct: "m_activeThreadCount (sw_sched W') + of_nat (length (held_tasks (worker_at i W))) =
        m_activeThreadCount (sw_sched W) + of_nat (length (held_tasks w'))"
      "m_idleThreadCount (sw_sched W') + of_nat (length (idling (worker_at i W))) =
        m_idleThreadCount (sw_sched W) + of_nat (length (idling w'))"
  shows "sched_inv W'"
proof -
  have ls: "local_step i f w' W W'" using i heap new cor occ ws ph unfolding local_step_def by blast
  have "counts_ok W'"
    using inv count_update [OF _ i ct(1)] count_update [OF _ i ct(2)] ws(1) by (auto simp: sched_inv_def counts_ok_def)
  moreover have "length (sw_workers W') = length (sw_workers W)" using ws(1) by simp
  ultimately show ?thesis
    using inv local_step_workers [OF inv ls wok] local_step_fibers [OF inv ls fok] local_step_caller [OF inv ls cl]
      local_step_tasks [OF inv ls ts] local_step_same [OF ls]
    by (simp add: sched_inv_def)
qed

section \<open>Every step keeps it\<close>

lemma scan_tasks_split:
  "scan_tasks tid ts = (skipped, r, behind) \<Longrightarrow>
     ts = skipped @ (case r of None \<Rightarrow> [] | Some t \<Rightarrow> t # behind) \<and>
     (\<forall>t \<in> set skipped. st_thread t \<noteq> -1 \<and> st_thread t \<noteq> tid) \<and>
     (case r of None \<Rightarrow> behind = [] | Some t \<Rightarrow> st_thread t = -1 \<or> st_thread t = tid)"
  by (induction ts arbitrary: skipped) (auto split: if_splits prod.splits)

lemma worker_okI: "sched_inv W \<Longrightarrow> i < length (sw_workers W) \<Longrightarrow> worker_ok (sw_heap W) (idle_fibers W) i (worker_at i W)"
  by (simp add: sched_inv_def)

lemma fiber_okI: "sched_inv W \<Longrightarrow> coroutine (sw_heap W) f \<Longrightarrow> fiber_ok (sw_heap W) (sw_workers W) f"
  by (simp add: sched_inv_def)

lemma idle_of_worker: "i < length (sw_workers W) \<Longrightarrow> wk_idle (worker_at i W) \<in> idle_fibers W"
  by (simp add: idle_fibers_def)

lemma idle_not_occupied:
  assumes "sched_inv W" and "i < length (sw_workers W)" and "j < length (sw_workers W)" and "j \<noteq> i"
  shows "occupant (worker_at j W) \<noteq> Some (wk_idle (worker_at i W))"
proof -
  have "wk_idle (worker_at i W) \<noteq> wk_idle (worker_at j W)"
    using assms by (auto simp: sched_inv_def distinct_conv_nth)
  with worker_okI [OF assms(1,3)] idle_of_worker [OF assms(2)] show ?thesis
    by (auto simp: worker_ok_def occupant_def split: worker_phase.splits)
qed

lemma fiber_ok_update:
  assumes "fiber_ok h ws f" and "h_fiber h' f = h_fiber h f" and "i < length ws" and "occupant (ws ! i) \<noteq> Some f"
  shows "fiber_ok h' (ws[i := w]) f"
proof -
  have "\<exists>v \<in> set (ws[i := w]). occupant v = Some f" if v: "v \<in> set ws" "occupant v = Some f" for v
  proof -
    obtain j where "j < length ws" "v = ws ! j" using v(1) by (metis in_set_conv_nth)
    moreover from this v(2) assms(4) have "ws[i := w] ! j = v" by (cases "j = i") auto
    ultimately show ?thesis using v(2) by (metis length_list_update nth_mem)
  qed
  moreover have "(\<exists>t. wk_phase (ws[i := w] ! j) = In_task t f)" if "j < length ws" "wk_phase (ws ! j) = In_task t f" for j t
    using that assms(3,4) by (cases "j = i") (auto simp: occupant_def)
  ultimately show ?thesis using assms(1) by (auto simp: fiber_ok_def assms(2) own_ctx_def)
qed

lemma set_worker_simps [simp]:
  "sw_workers (set_worker i tls ph W) = (sw_workers W)[i := (worker_at i W)\<lparr>wk_locals := tls, wk_phase := ph\<rparr>]"
  "sw_sched (set_worker i tls ph W) = sw_sched W" "sw_heap (set_worker i tls ph W) = sw_heap W"
  "sw_caller (set_worker i tls ph W) = sw_caller W"
  by (simp_all add: set_worker_def)

lemma lock_fiber_simps [simp]:
  "sw_workers (lock_fiber m f W) = sw_workers W" "sw_sched (lock_fiber m f W) = sw_sched W"
  "sw_heap (lock_fiber m f W) = put_fiber f (\<lambda>fb. fb\<lparr>f_mutex := m\<rparr>) (sw_heap W)" "sw_caller (lock_fiber m f W) = sw_caller W"
  by (simp_all add: lock_fiber_def)

lemma add_active_simps [simp]:
  "sw_workers (add_active k W) = sw_workers W" "sw_heap (add_active k W) = sw_heap W" "sw_caller (add_active k W) = sw_caller W"
  "sw_sched (add_active k W) = (sw_sched W)\<lparr>m_activeThreadCount := m_activeThreadCount (sw_sched W) + k\<rparr>"
  by (simp_all add: add_active_def)

lemma add_idle_simps [simp]:
  "sw_workers (add_idle k W) = sw_workers W" "sw_heap (add_idle k W) = sw_heap W" "sw_caller (add_idle k W) = sw_caller W"
  "sw_sched (add_idle k W) = (sw_sched W)\<lparr>m_idleThreadCount := m_idleThreadCount (sw_sched W) + k\<rparr>"
  by (simp_all add: add_idle_def)

text \<open>A step that leaves the fibers alone.\<close>

lemma sched_inv_quiet_step:
  assumes inv: "sched_inv W" and i: "i < length (sw_workers W)" and heap: "sw_heap W' = sw_heap W"
    and ws: "sw_workers W' = (sw_workers W)[i := (worker_at i W)\<lparr>wk_locals := wk_locals (worker_at i W), wk_phase := ph\<rparr>]"
    and old: "occupant (worker_at i W) = None"
    and ph: "\<And>t f. ph \<noteq> In_task t f" "ph \<noteq> In_idle" "\<And>t. ph = Taken t \<Longrightarrow> st_fiber t \<noteq> None \<or> st_cb t \<noteq> None"
    and cl: "sw_caller W' = sw_caller W" "m_schedulerFiber (sw_sched W') = m_schedulerFiber (sw_sched W)"
    and ts: "set (m_tasks (sw_sched W')) \<subseteq> set (m_tasks (sw_sched W))"
      "\<And>t. ph = Taken t \<Longrightarrow> t \<in> set (m_tasks (sw_sched W)) \<union> set (held_tasks (worker_at i W))"
    and ct: "m_activeThreadCount (sw_sched W') + of_nat (length (held_tasks (worker_at i W))) =
        m_activeThreadCount (sw_sched W) + (case ph of Taken t \<Rightarrow> 1 | _ \<Rightarrow> 0)"
      "m_idleThreadCount (sw_sched W') = m_idleThreadCount (sw_sched W)"
  shows "sched_inv W'"
proof -
  let ?w = "worker_at i W"
  have ok: "worker_ok (sw_heap W) (idle_fibers W) i ?w" by (rule worker_okI [OF inv i])
  then have home: "at_home (home_of ?w) (wk_locals ?w)"
    using old by (auto simp: worker_ok_def occupant_def split: worker_phase.splits)
  have c: "coroutine (sw_heap W) (wk_idle ?w)" using ok by (simp add: worker_ok_def)
  have idle: "idling ?w = []" using old by (auto simp: idling_def occupant_def split: worker_phase.splits)
  let ?v = "?w\<lparr>wk_locals := wk_locals ?w, wk_phase := ph\<rparr>"
  have "home_of ?v = home_of ?w" by (simp add: home_of_def)
  moreover have "worker_ok (sw_heap W') (idle_fibers W) i ?v"
    using ok home ph unfolding heap worker_ok_def by (cases ph) (auto simp: home_of_def)
  moreover have "fiber_ok (sw_heap W') (sw_workers W') (wk_idle ?w)"
    unfolding ws heap by (rule fiber_ok_update [OF fiber_okI [OF inv c] refl i]) (use old in simp)
  moreover have "held_tasks ?v = (case ph of Taken t \<Rightarrow> [t] | _ \<Rightarrow> [])" "idling ?v = []"
    using ph(1,2) by (auto simp: held_tasks_def idling_def split: worker_phase.splits)
  moreover have "held_tasks ?v = (case ph of Taken t \<Rightarrow> [t] | _ \<Rightarrow> [])" "idling ?v = []"
    using ph(1,2) by (auto simp: held_tasks_def idling_def split: worker_phase.splits)
  ultimately show ?thesis
    by (intro sched_inv_step [OF inv i, where f = "wk_idle ?w" and w' = ?v])
      (use idle_not_occupied [OF inv i] old c heap ws cl ts ct idle in
        \<open>auto simp: coroutine_def split: worker_phase.splits\<close>)
qed

lemma take_task_cases [consumes 2]:
  assumes "take_task tid s = r" and "\<forall>t \<in> set (m_tasks s). st_fiber t \<noteq> None \<or> st_cb t \<noteq> None"
  obtains (none) tk where "r = Inr (None, tk, s)" and "\<forall>t \<in> set (m_tasks s). st_thread t \<noteq> -1 \<and> st_thread t \<noteq> tid"
  | (found) t tk skipped behind where "m_tasks s = skipped @ t # behind"
      and "r = Inr (Some t, tk, s\<lparr>m_tasks := skipped @ behind, m_activeThreadCount := m_activeThreadCount s + 1\<rparr>)"
      and "\<forall>t \<in> set skipped. st_thread t \<noteq> -1 \<and> st_thread t \<noteq> tid" and "st_thread t = -1 \<or> st_thread t = tid"
proof (cases "scan_tasks tid (m_tasks s)")
  case (fields skipped r' behind)
  note split = scan_tasks_split [OF fields]
  show thesis
  proof (cases r')
    case None
    with assms(1) fields split that(1) show thesis by (auto simp: take_task_def)
  next
    case (Some t)
    then have "m_tasks s = skipped @ t # behind" using split by simp
    moreover from this have "st_fiber t \<noteq> None \<or> st_cb t \<noteq> None" using assms(2) by simp
    ultimately show thesis using assms(1) fields split Some that(2) by (auto simp: take_task_def)
  qed
qed

lemma queue_filled: "sched_inv W \<Longrightarrow> \<forall>t \<in> set (m_tasks (sw_sched W)). st_fiber t \<noteq> None \<or> st_cb t \<noteq> None"
  by (auto simp: sched_inv_def tasks_ok_def)

lemma run_take_keeps:
  assumes inv: "sched_inv W" and i: "i < length (sw_workers W)" and "run_take i W = Some r"
  obtains W' where "r = Inr W'" and "sched_inv W'" and "sw_heap W' = sw_heap W"
    and "mset (m_tasks (sw_sched W)) + mset (concat (map held_tasks (sw_workers W))) =
      mset (m_tasks (sw_sched W')) + mset (concat (map held_tasks (sw_workers W')))"
proof -
  let ?w = "worker_at i W" and ?s = "sw_sched W"
  have look: "wk_phase ?w = Looking" using assms(3) by (auto simp: run_take_def split: if_splits)
  then have old: "occupant ?w = None" "held_tasks ?w = []" by (simp_all add: occupant_def held_tasks_def)
  obtain q where q: "take_task (wk_id ?w) ?s = q" by simp
  from q queue_filled [OF inv] show thesis
  proof (cases rule: take_task_cases)
    case (none tk)
    let ?W = "set_worker i (wk_locals ?w) Found_none (W\<lparr>sw_sched := ?s\<rparr>)"
    have r: "r = Inr ?W" using assms(3) look q none(1) by (simp add: run_take_def)
    have "sched_inv ?W"
      by (rule sched_inv_quiet_step [OF inv i _ _ old(1), where ph = Found_none]) (simp_all add: old)
    moreover have "mset (concat (map held_tasks ((sw_workers W)[i := ?w\<lparr>wk_phase := Found_none\<rparr>]))) =
        mset (concat (map held_tasks (sw_workers W)))"
      using mset_concat_update [OF i, of held_tasks "?w\<lparr>wk_phase := Found_none\<rparr>"] old(2) by (simp add: held_tasks_def)
    ultimately show thesis using that [OF r] by simp
  next
    case (found t tk skipped behind)
    let ?s' = "?s\<lparr>m_tasks := skipped @ behind, m_activeThreadCount := m_activeThreadCount ?s + 1\<rparr>"
    let ?W = "set_worker i (wk_locals ?w) (Taken t) (W\<lparr>sw_sched := ?s'\<rparr>)"
    have r: "r = Inr ?W" using assms(3) look q found(2) by (simp add: run_take_def)
    have "sched_inv ?W"
      by (rule sched_inv_quiet_step [OF inv i _ _ old(1), where ph = "Taken t"])
        (use queue_filled [OF inv] found(1) old in auto)
    moreover have "mset (concat (map held_tasks ((sw_workers W)[i := ?w\<lparr>wk_phase := Taken t\<rparr>]))) =
        add_mset t (mset (concat (map held_tasks (sw_workers W))))"
      using mset_concat_update [OF i, of held_tasks "?w\<lparr>wk_phase := Taken t\<rparr>"] old(2) by (simp add: held_tasks_def)
    ultimately show thesis using that [OF r] found(1) by simp
  qed
qed

lemma others_kept_kept: "others_kept F h h' \<Longrightarrow> kept F h h'"
  by (auto simp: others_kept_def kept_def)

lemma free_worker_home:
  "worker_ok h I i w \<Longrightarrow> occupant w = None \<Longrightarrow> at_home (home_of w) (wk_locals w)"
  by (auto simp: worker_ok_def occupant_def split: worker_phase.splits)

text \<open>Into the fiber \<open>f\<close>: a ready one that no thread is in.\<close>

lemma run_enter_keeps:
  assumes inv: "sched_inv W" and i: "i < length (sw_workers W)" and free: "occupant (worker_at i W) = None"
    and ws: "sw_workers W1 = sw_workers W" and cl: "sw_caller W1 = sw_caller W"
    and sch: "m_schedulerFiber (sw_sched W1) = m_schedulerFiber (sw_sched W)" "m_tasks (sw_sched W1) = m_tasks (sw_sched W)"
    and heap: "kept {f} (sw_heap W) (sw_heap W1)" and new: "\<And>g. coroutine (sw_heap W1) g \<Longrightarrow> h_fresh (sw_heap W) \<le> g \<Longrightarrow> g = f"
    and f: "coroutine (sw_heap W1) f" "f_state (h_fiber (sw_heap W1) f) = READY" "own_ctx f (sw_heap W1)"
    and others: "\<And>j. j < length (sw_workers W) \<Longrightarrow> j \<noteq> i \<Longrightarrow> occupant (worker_at j W) \<noteq> Some f"
    and ph: "(\<exists>t. ph = In_task t f \<and> f \<notin> idle_fibers W \<and> f_mutex (h_fiber (sw_heap W1) f) = Some i \<and>
        held_tasks (worker_at i W) = [t]) \<or>
      ph = In_idle \<and> f = wk_idle (worker_at i W) \<and> f_mutex (h_fiber (sw_heap W1) f) = None \<and> held_tasks (worker_at i W) = []"
    and ct: "m_activeThreadCount (sw_sched W1) = m_activeThreadCount (sw_sched W)"
      "m_idleThreadCount (sw_sched W1) = m_idleThreadCount (sw_sched W) + (if ph = In_idle then 1 else 0)"
  obtains W' where "run_enter i f ph W1 = Some (Inr W')" and "sched_inv W'" and "sw_sched W' = sw_sched W1"
    and "running_on (home_of (worker_at i W)) f (wk_locals (worker_at i W'))" and "wk_phase (worker_at i W') = ph"
    and "map held_tasks (sw_workers W') = map held_tasks (sw_workers W)"
proof -
  let ?w = "worker_at i W" and ?h = "sw_heap W" and ?h1 = "sw_heap W1"
  have ok: "worker_ok ?h (idle_fibers W) i ?w" by (rule worker_okI [OF inv i])
  then have home: "home_of ?w < h_fresh ?h" "\<not> coroutine ?h (home_of ?w)" by (simp_all add: worker_ok_def)
  have nf: "f \<noteq> home_of ?w" using f(1) home kept_coroutine [OF heap home(1)] by auto
  have sched: "f_runInScheduler (h_fiber ?h1 f)" using f(1) by (simp add: coroutine_def)
  obtain h' tls' where r: "Fiber_resume f (?h1, wk_locals ?w) = Inr (h', tls')" "running_on (home_of ?w) f tls'"
      "others_kept {home_of ?w, f} ?h1 h'" "f_state (h_fiber h' f) = RUNNING" "f_ctx (h_fiber h' (home_of ?w)) = On_stack (home_of ?w)"
    by (rule resume_switches [OF free_worker_home [OF ok free] nf sched f(2,3)])
  let ?v = "?w\<lparr>wk_locals := tls', wk_phase := ph\<rparr>" and ?W = "set_worker i tls' ph (W1\<lparr>sw_heap := h'\<rparr>)"
  have enter: "run_enter i f ph W1 = Some (Inr ?W)" using r(1) ws by (simp add: run_enter_def)
  have kept1: "kept {home_of ?w, f} ?h h'"
    using kept_trans [OF heap others_kept_kept [OF r(3)]] by (simp add: insert_commute)
  have mut: "f_mutex (h_fiber h' f) = f_mutex (h_fiber ?h1 f)" using r(3) by (simp add: others_kept_def)
  have cor: "coroutine h' g \<longleftrightarrow> coroutine ?h1 g" for g using r(3) by (simp add: coroutine_def others_kept_def)
  have hv: "home_of (?w\<lparr>wk_locals := tls', wk_phase := p\<rparr>) = home_of ?w" for p
    using r(2) by (simp add: home_of_def running_on_def)
  have occ: "occupant ?v = Some f" using ph by (auto simp: occupant_def)
  have cidle: "coroutine h' (wk_idle ?w)"
    using ok kept_coroutine [OF kept1] by (auto simp: worker_ok_def coroutine_def)
  have "\<not> coroutine h' (home_of ?w)" using kept_coroutine [OF kept1 home(1)] home(2) by simp
  moreover have "home_of ?w < h_fresh h'" using home(1) kept1 by (simp add: kept_def)
  ultimately have wok: "worker_ok h' (idle_fibers W) i ?v"
    using ph f(1) r(2,4,5) mut cor [of f] cidle by (auto simp: worker_ok_def hv inside_def)
  have "?v \<in> set ((sw_workers W)[i := ?v])" using i by (metis length_list_update nth_list_update_eq nth_mem)
  then have fok: "fiber_ok h' ((sw_workers W)[i := ?v]) f"
    using r(4) occ mut ph i by (auto simp: fiber_ok_def)
  have hold: "held_tasks ?v = held_tasks ?w" "length (idling ?v) = (if ph = In_idle then 1 else 0)" "idling ?w = []"
    using ph free by (auto simp: held_tasks_def idling_def occupant_def split: worker_phase.splits)
  have "sched_inv ?W"
    by (rule sched_inv_step [OF inv i, where f = f and w' = ?v])
      (use kept1 new cor f(1) fok others ws hv wok free cl sch hold ct in auto)
  moreover have "map held_tasks (sw_workers ?W) = map held_tasks (sw_workers W)"
    using ws hold(1) i by (simp add: map_update list_update_same_conv)
  ultimately show thesis by (intro that [OF enter]) (use r(2) ws i in auto)
qed

lemma unoccupied_ready:
  assumes "sched_inv W" and "coroutine (sw_heap W) f" and "\<And>j. j < length (sw_workers W) \<Longrightarrow> occupant (worker_at j W) \<noteq> Some f"
    and "f_state (h_fiber (sw_heap W) f) \<noteq> TERMINATED"
  shows "f_state (h_fiber (sw_heap W) f) = READY" and "own_ctx f (sw_heap W)"
proof -
  have "fiber_ok (sw_heap W) (sw_workers W) f" by (rule fiber_okI [OF assms(1,2)])
  moreover have "\<not> (\<exists>w \<in> set (sw_workers W). occupant w = Some f)" using assms(3) by (auto simp: in_set_conv_nth)
  ultimately show "f_state (h_fiber (sw_heap W) f) = READY" "own_ctx f (sw_heap W)"
    using assms(4) by (cases "f_state (h_fiber (sw_heap W) f)"; auto simp: fiber_ok_def)+
qed

lemma held_task_ok:
  "sched_inv W \<Longrightarrow> i < length (sw_workers W) \<Longrightarrow> t \<in> set (held_tasks (worker_at i W)) \<Longrightarrow> task_ok W t"
  using nth_mem by (auto simp: sched_inv_def tasks_ok_def)

lemma Fiber_new_spec:
  "Fiber_new cb sz True h = (f, h') \<Longrightarrow>
     f = h_fresh h \<and> kept {} h h' \<and> coroutine h' f \<and> f_state (h_fiber h' f) = READY \<and> own_ctx f h' \<and>
     f_mutex (h_fiber h' f) = None \<and> (\<forall>g. coroutine h' g \<longrightarrow> h_fresh h \<le> g \<longrightarrow> g = f) \<and> h_fresh h' = h_fresh h + 1"
  by (auto simp: Fiber_new_def alloc_fiber_def kept_def coroutine_def own_ctx_def)

definition dropped :: "worker_phase \<Rightarrow> worker_phase \<Rightarrow> sched_task multiset" where
  "dropped ph ph' = (case (ph, ph') of (Taken t, Looking) \<Rightarrow> {#t#} | _ \<Rightarrow> {#})"

text \<open>The steps of \<open>run_execute\<close> that leave the fibers alone.\<close>

lemma run_execute_quiet:
  assumes inv: "sched_inv W" and i: "i < length (sw_workers W)"
    and ph: "wk_phase (worker_at i W) = Taken t \<and> ph = Looking \<and> k = -1 \<or> wk_phase (worker_at i W) = Found_none \<and> ph = Ended \<and> k = 0"
    and W': "W' = set_worker i (wk_locals (worker_at i W)) ph (add_active k W)"
  shows "sched_inv W'" and "m_tasks (sw_sched W') = m_tasks (sw_sched W)"
    and "mset (concat (map held_tasks (sw_workers W))) =
      mset (concat (map held_tasks (sw_workers W'))) + dropped (wk_phase (worker_at i W)) (wk_phase (worker_at i W'))"
proof -
  let ?w = "worker_at i W"
  have free: "occupant ?w = None" using ph by (auto simp: occupant_def)
  show "sched_inv W'"
    by (rule sched_inv_quiet_step [OF inv i _ _ free, where ph = ph]) (use ph in \<open>auto simp: W' held_tasks_def\<close>)
  show "mset (concat (map held_tasks (sw_workers W))) =
      mset (concat (map held_tasks (sw_workers W'))) + dropped (wk_phase ?w) (wk_phase (worker_at i W'))"
    using mset_concat_update [OF i, of held_tasks "?w\<lparr>wk_phase := ph\<rparr>"] ph i
    by (auto simp: W' held_tasks_def dropped_def)
qed (simp add: W')

lemma occupant_coroutine: "worker_ok h I i w \<Longrightarrow> occupant w = Some f \<Longrightarrow> coroutine h f"
  by (auto simp: worker_ok_def occupant_def split: worker_phase.splits)

lemma idle_coroutine: "sched_inv W \<Longrightarrow> f \<in> idle_fibers W \<Longrightarrow> coroutine (sw_heap W) f"
  using worker_okI [of W] by (auto simp: idle_fibers_def in_set_conv_nth worker_ok_def)

lemma idle_mutex: "sched_inv W \<Longrightarrow> f \<in> idle_fibers W \<Longrightarrow> f_mutex (h_fiber (sw_heap W) f) = None"
proof (rule ccontr)
  assume inv: "sched_inv W" and f: "f \<in> idle_fibers W" and m: "f_mutex (h_fiber (sw_heap W) f) \<noteq> None"
  then obtain j t where "j < length (sw_workers W)" "wk_phase (worker_at j W) = In_task t f"
    using fiber_okI [OF inv idle_coroutine [OF inv f]] by (auto simp: fiber_ok_def)
  with worker_okI [OF inv, of j] f show False by (simp add: worker_ok_def)
qed

lemma run_execute_cases:
  assumes "run_execute i W = Some r"
  obtains (fiber) t f where "wk_phase (worker_at i W) = Taken t" "st_fiber t = Some f" "f_mutex (h_fiber (sw_heap W) f) = None"
      "f_state (h_fiber (sw_heap W) f) \<noteq> TERMINATED" "run_enter i f (In_task t f) (lock_fiber (Some i) f W) = Some r"
    | (over) t where "wk_phase (worker_at i W) = Taken t"
      "r = Inr (set_worker i (wk_locals (worker_at i W)) Looking (add_active (-1) W))"
    | (call) t f h where "wk_phase (worker_at i W) = Taken t" "Fiber_new (st_cb t) 0 True (sw_heap W) = (f, h)"
      "run_enter i f (In_task t f) (lock_fiber (Some i) f (W\<lparr>sw_heap := h\<rparr>)) = Some r"
    | (idle) "wk_phase (worker_at i W) = Found_none" "f_state (h_fiber (sw_heap W) (wk_idle (worker_at i W))) \<noteq> TERMINATED"
      "run_enter i (wk_idle (worker_at i W)) In_idle (add_idle 1 W) = Some r"
    | (ended) "wk_phase (worker_at i W) = Found_none" "r = Inr (set_worker i (wk_locals (worker_at i W)) Ended (add_active 0 W))"
  using assms
  by (auto simp: run_execute_def Let_def add_active_def split: worker_phase.splits option.splits if_splits prod.splits)

text \<open>Going into a scheduled fiber, into a new fiber for a callback, and into the idle fiber.\<close>

lemma enter_fiber_keeps:
  assumes inv: "sched_inv W" and i: "i < length (sw_workers W)" and ph: "wk_phase (worker_at i W) = Taken t"
    and fiber: "st_fiber t = Some f" "f_mutex (h_fiber (sw_heap W) f) = None" "f_state (h_fiber (sw_heap W) f) \<noteq> TERMINATED"
  obtains W' where "run_enter i f (In_task t f) (lock_fiber (Some i) f W) = Some (Inr W')" "sched_inv W'"
    "sw_sched W' = sw_sched W" "wk_phase (worker_at i W') = In_task t f" "t_stack (wk_locals (worker_at i W')) = f"
    "map held_tasks (sw_workers W') = map held_tasks (sw_workers W)"
proof -
  have free: "occupant (worker_at i W) = None" "held_tasks (worker_at i W) = [t]"
    using ph by (simp_all add: occupant_def held_tasks_def)
  have f: "coroutine (sw_heap W) f" "f \<notin> idle_fibers W"
    using held_task_ok [OF inv i, of t] free(2) fiber(1) by (auto simp: task_ok_def)
  have no: "occupant (worker_at j W) \<noteq> Some f" if "j < length (sw_workers W)" for j
    by (rule not_occupant [OF inv that fiber(2) f(2)])
  obtain W' where "run_enter i f (In_task t f) (lock_fiber (Some i) f W) = Some (Inr W')" "sched_inv W'"
      "sw_sched W' = sw_sched (lock_fiber (Some i) f W)" "wk_phase (worker_at i W') = In_task t f"
      "running_on (home_of (worker_at i W)) f (wk_locals (worker_at i W'))"
      "map held_tasks (sw_workers W') = map held_tasks (sw_workers W)"
    by (rule run_enter_keeps [OF inv i free(1), of "lock_fiber (Some i) f W" f "In_task t f"])
      (use f no free(2) unoccupied_ready [OF inv f(1) no fiber(3)] in \<open>auto simp: kept_def coroutine_def own_ctx_def\<close>)
  with that [of W'] show thesis by (simp add: running_on_def)
qed

lemma enter_callback_keeps:
  assumes inv: "sched_inv W" and i: "i < length (sw_workers W)" and ph: "wk_phase (worker_at i W) = Taken t"
    and new: "Fiber_new (st_cb t) 0 True (sw_heap W) = (f, h)"
  obtains W' where "run_enter i f (In_task t f) (lock_fiber (Some i) f (W\<lparr>sw_heap := h\<rparr>)) = Some (Inr W')" "sched_inv W'"
    "sw_sched W' = sw_sched W" "wk_phase (worker_at i W') = In_task t f" "t_stack (wk_locals (worker_at i W')) = f"
    "map held_tasks (sw_workers W') = map held_tasks (sw_workers W)"
proof -
  let ?W1 = "lock_fiber (Some i) f (W\<lparr>sw_heap := h\<rparr>)"
  have free: "occupant (worker_at i W) = None" "held_tasks (worker_at i W) = [t]"
    using ph by (simp_all add: occupant_def held_tasks_def)
  note f = Fiber_new_spec [OF new]
  have old: "g < h_fresh (sw_heap W)"
    if "g \<in> idle_fibers W \<or> (\<exists>j < length (sw_workers W). occupant (worker_at j W) = Some g)" for g
    using that idle_coroutine [OF inv] occupant_coroutine [OF worker_okI [OF inv]] by (auto simp: coroutine_def)
  have "kept {f} (sw_heap W) (sw_heap ?W1)"
    using f by (auto simp: kept_def)
  then obtain W' where "run_enter i f (In_task t f) ?W1 = Some (Inr W')" "sched_inv W'"
      "sw_sched W' = sw_sched ?W1" "wk_phase (worker_at i W') = In_task t f"
      "running_on (home_of (worker_at i W)) f (wk_locals (worker_at i W'))"
      "map held_tasks (sw_workers W') = map held_tasks (sw_workers W)"
    by (rule run_enter_keeps [OF inv i free(1), rotated 4, where ph = "In_task t f"])
      (use f old free(2) in \<open>auto simp: coroutine_def own_ctx_def\<close>)
  with that [of W'] show thesis by (simp add: running_on_def)
qed

lemma enter_idle_keeps:
  assumes inv: "sched_inv W" and i: "i < length (sw_workers W)" and ph: "wk_phase (worker_at i W) = Found_none"
    and idle: "f_state (h_fiber (sw_heap W) (wk_idle (worker_at i W))) \<noteq> TERMINATED"
  obtains W' where "run_enter i (wk_idle (worker_at i W)) In_idle (add_idle 1 W) = Some (Inr W')" "sched_inv W'"
    "sw_sched W' = sw_sched (add_idle 1 W)" "wk_phase (worker_at i W') = In_idle"
    "map held_tasks (sw_workers W') = map held_tasks (sw_workers W)"
proof -
  let ?w = "worker_at i W"
  have free: "occupant ?w = None" "held_tasks ?w = []" using ph by (simp_all add: occupant_def held_tasks_def)
  have f: "coroutine (sw_heap W) (wk_idle ?w)" using worker_okI [OF inv i] by (simp add: worker_ok_def)
  have no: "occupant (worker_at j W) \<noteq> Some (wk_idle ?w)" if "j < length (sw_workers W)" for j
    using idle_not_occupied [OF inv i that] free(1) by (cases "j = i") auto
  have mut: "f_mutex (h_fiber (sw_heap W) (wk_idle ?w)) = None" by (rule idle_mutex [OF inv idle_of_worker [OF i]])
  obtain W' where "run_enter i (wk_idle ?w) In_idle (add_idle 1 W) = Some (Inr W')" "sched_inv W'"
      "sw_sched W' = sw_sched (add_idle 1 W)" "wk_phase (worker_at i W') = In_idle"
      "map held_tasks (sw_workers W') = map held_tasks (sw_workers W)"
    by (rule run_enter_keeps [OF inv i free(1), of "add_idle 1 W" "wk_idle ?w" In_idle])
      (use f no free(2) mut unoccupied_ready [OF inv f no idle] in \<open>auto simp: coroutine_def\<close>)
  with that [of W'] show thesis by simp
qed

lemma run_execute_keeps:
  assumes inv: "sched_inv W" and i: "i < length (sw_workers W)" and ex: "run_execute i W = Some r"
  obtains W' where "r = Inr W'" and "sched_inv W'" and "m_tasks (sw_sched W') = m_tasks (sw_sched W)"
    and "mset (concat (map held_tasks (sw_workers W))) =
      mset (concat (map held_tasks (sw_workers W'))) + dropped (wk_phase (worker_at i W)) (wk_phase (worker_at i W'))"
    and "\<And>t f. wk_phase (worker_at i W') = In_task t f \<Longrightarrow> t_stack (wk_locals (worker_at i W')) = f"
  using ex
proof (cases rule: run_execute_cases)
  case (fiber t f)
  obtain W' where "run_enter i f (In_task t f) (lock_fiber (Some i) f W) = Some (Inr W')" "sched_inv W'"
      "sw_sched W' = sw_sched W" "wk_phase (worker_at i W') = In_task t f" "t_stack (wk_locals (worker_at i W')) = f"
      "map held_tasks (sw_workers W') = map held_tasks (sw_workers W)"
    by (rule enter_fiber_keeps [OF inv i fiber(1-4)])
  with that [of W'] fiber(1,5) show thesis by (simp add: dropped_def)
next
  case (over t)
  show thesis
    by (rule that [OF over(2)]) (use run_execute_quiet [OF inv i _ refl, of t Looking "-1"] over(1) i in simp_all)
next
  case (call t f h)
  obtain W' where "run_enter i f (In_task t f) (lock_fiber (Some i) f (W\<lparr>sw_heap := h\<rparr>)) = Some (Inr W')" "sched_inv W'"
      "sw_sched W' = sw_sched W" "wk_phase (worker_at i W') = In_task t f" "t_stack (wk_locals (worker_at i W')) = f"
      "map held_tasks (sw_workers W') = map held_tasks (sw_workers W)"
    by (rule enter_callback_keeps [OF inv i call(1,2)])
  with that [of W'] call(1,3) show thesis by (simp add: dropped_def)
next
  case idle
  obtain W' where "run_enter i (wk_idle (worker_at i W)) In_idle (add_idle 1 W) = Some (Inr W')" "sched_inv W'"
      "sw_sched W' = sw_sched (add_idle 1 W)" "wk_phase (worker_at i W') = In_idle"
      "map held_tasks (sw_workers W') = map held_tasks (sw_workers W)"
    by (rule enter_idle_keeps [OF inv i idle(1,2)])
  with that [of W'] idle(1,3) show thesis by (simp add: dropped_def)
next
  case ended
  show thesis
    by (rule that [OF ended(2)]) (use run_execute_quiet [OF inv i _ refl, of undefined Ended 0] ended(1) i in simp_all)
qed

lemma inside_running:
  assumes "worker_ok h I i w" and "\<not> is_home (wk_locals w)"
  obtains f where "occupant w = Some f" and "running_on (home_of w) f (wk_locals w)" and "coroutine h f"
    and "f_state (h_fiber h f) = RUNNING" and "f_ctx (h_fiber h (home_of w)) = On_stack (home_of w)" and "f \<noteq> home_of w"
proof -
  have "\<not> at_home (home_of w) (wk_locals w)" using assms(2) by (auto simp: at_home_def is_home_def)
  with assms(1) obtain f where "occupant w = Some f" "running_on (home_of w) f (wk_locals w)"
      "f_state (h_fiber h f) = RUNNING" "f_ctx (h_fiber h (home_of w)) = On_stack (home_of w)"
    by (auto simp: worker_ok_def inside_def occupant_def split: worker_phase.splits)
  with occupant_coroutine [OF assms(1)] assms(1) that show thesis by (auto simp: worker_ok_def)
qed

text \<open>What the end of \<open>MainFunc\<close> changes before it yields.\<close>

definition ended_heap :: "bool \<Rightarrow> nat \<Rightarrow> fiber_heap \<Rightarrow> fiber_heap" where
  "ended_heap returns f h = (if returns then put_fiber f (\<lambda>fb. fb\<lparr>f_cb := None, f_state := TERMINATED\<rparr>) h else h)"

lemma leave_eq:
  "(if returns then MainFunc_return f else Fiber_yield f) (h, tls) = Fiber_yield f (ended_heap returns f h, tls)"
  by (simp add: ended_heap_def MainFunc_return_def)

lemma run_leave_keeps:
  assumes inv: "sched_inv W" and i: "i < length (sw_workers W)" and lv: "run_leave returns i W = Some r"
  obtains W' f where "r = Inr W'" and "sched_inv W'" and "sw_sched W' = sw_sched W" and "occupant (worker_at i W) = Some f"
    and "wk_phase (worker_at i W') = wk_phase (worker_at i W)" and "at_home (home_of (worker_at i W)) (wk_locals (worker_at i W'))"
    and "f_state (h_fiber (sw_heap W') f) = (if returns then TERMINATED else READY)"
    and "map held_tasks (sw_workers W') = map held_tasks (sw_workers W)" and "kept {f} (sw_heap W) (sw_heap W')"
    and "sw_workers W' = (sw_workers W)[i := (worker_at i W)\<lparr>wk_locals := wk_locals (worker_at i W')\<rparr>]"
    and "f_mutex (h_fiber (sw_heap W') f) = f_mutex (h_fiber (sw_heap W) f)"
proof -
  let ?w = "worker_at i W" and ?h = "sw_heap W"
  have away: "\<not> is_home (wk_locals ?w)" using lv by (auto simp: run_leave_def Let_def split: if_splits)
  have ok: "worker_ok ?h (idle_fibers W) i ?w" by (rule worker_okI [OF inv i])
  obtain f where f: "occupant ?w = Some f" "running_on (home_of ?w) f (wk_locals ?w)" "coroutine ?h f"
      "f_state (h_fiber ?h f) = RUNNING" "f_ctx (h_fiber ?h (home_of ?w)) = On_stack (home_of ?w)" "f \<noteq> home_of ?w"
    by (rule inside_running [OF ok away])
  let ?before = "ended_heap returns f ?h"
  obtain h' tls' where y: "Fiber_yield f (?before, wk_locals ?w) = Inr (h', tls')" "at_home (home_of ?w) tls'" "others_kept {f} ?before h'"
      "f_state (h_fiber h' f) = (if f_state (h_fiber ?before f) = TERMINATED then TERMINATED else READY)" "f_ctx (h_fiber h' f) = On_stack f"
    by (rule yield_switches [OF f(2,6), of ?before]) (use f in \<open>auto simp: ended_heap_def coroutine_def\<close>)
  have "t_fiber (wk_locals ?w) = Some f" using f(2) by (simp add: running_on_def)
  then have r: "r = Inr (set_worker i tls' (wk_phase ?w) (W\<lparr>sw_heap := h'\<rparr>))"
    using lv away y(1) by (simp add: run_leave_def Let_def leave_eq)
  let ?v = "?w\<lparr>wk_locals := tls'\<rparr>" and ?W = "set_worker i tls' (wk_phase ?w) (W\<lparr>sw_heap := h'\<rparr>)"
  have k0: "kept {f} ?h ?before" "f_mutex (h_fiber ?before f) = f_mutex (h_fiber ?h f)" "coroutine ?before = coroutine ?h" "h_fresh ?before = h_fresh ?h"
    by (auto simp: ended_heap_def kept_def coroutine_def fun_eq_iff)
  have k: "kept {f} ?h h'" using kept_trans [OF k0(1) others_kept_kept [OF y(3)]] by simp
  have fr: "h_fresh ?h \<le> h_fresh h'" using k by (simp add: kept_def)
  have cor: "coroutine h' = coroutine ?h" using y(3) k0(3) by (auto simp: coroutine_def others_kept_def fun_eq_iff)
  have mut: "f_mutex (h_fiber h' f) = f_mutex (h_fiber ?h f)" using y(3) k0(2) by (simp add: others_kept_def)
  have st: "f_state (h_fiber h' f) = (if returns then TERMINATED else READY)" using y(4) f(4) by (simp add: ended_heap_def)
  have hv: "home_of ?v = home_of ?w" using y(2) by (simp add: home_of_def at_home_def)
  have wok: "worker_ok h' (idle_fibers W) i ?v"
    using ok f(1) y(2) st fr mut by (auto simp: worker_ok_def hv cor inside_def occupant_def split: worker_phase.splits)
  have "wk_phase ((sw_workers W)[i := ?v] ! j) = wk_phase (worker_at j W)" for j by (cases "j = i") (use i in auto)
  then have fok: "fiber_ok h' ((sw_workers W)[i := ?v]) f"
    using st y(5) fiber_okI [OF inv f(3)] by (auto simp: fiber_ok_def mut own_ctx_def)
  have "sched_inv ?W"
    by (rule sched_inv_step [OF inv i, where f = f and w' = ?v])
      (use kept_mono [OF k] cor f(1,3) fok wok hv occupant_unique [OF inv i] in
        \<open>auto simp: coroutine_def held_tasks_def idling_def split: worker_phase.split\<close>)
  moreover have "map held_tasks (sw_workers ?W) = map held_tasks (sw_workers W)"
    using i by (simp add: map_update list_update_same_conv held_tasks_def)
  ultimately show thesis by (intro that [OF r _ _ f(1)]) (use y(2) st k mut i in auto)
qed

lemma run_return_keeps:
  assumes inv: "sched_inv W" and i: "i < length (sw_workers W)" and ret: "run_return i W = Some r"
  obtains W' where "r = Inr W'" and "sched_inv W'" and "m_tasks (sw_sched W') = m_tasks (sw_sched W)"
    and "mset (concat (map held_tasks (sw_workers W))) = mset (concat (map held_tasks (sw_workers W'))) +
      (case wk_phase (worker_at i W) of In_task t f \<Rightarrow> {#t#} | _ \<Rightarrow> {#})"
proof -
  let ?w = "worker_at i W" and ?h = "sw_heap W"
  let ?v = "?w\<lparr>wk_phase := Looking\<rparr>"
  have home: "is_home (wk_locals ?w)" using ret by (auto simp: run_return_def Let_def split: if_splits)
  have ok: "worker_ok ?h (idle_fibers W) i ?w" by (rule worker_okI [OF inv i])
  have hv: "home_of ?v = home_of ?w" by (simp add: home_of_def)
  have conc: "mset (concat (map held_tasks ((sw_workers W)[i := ?v]))) + mset (held_tasks ?w) = mset (concat (map held_tasks (sw_workers W)))"
    using mset_concat_update [OF i, of held_tasks ?v] by (simp add: held_tasks_def)
  consider (task) t f where "wk_phase ?w = In_task t f" "r = Inr (set_worker i (wk_locals ?w) Looking (add_active (-1) (lock_fiber None f W)))"
    | (idle) "wk_phase ?w = In_idle" "r = Inr (set_worker i (wk_locals ?w) Looking (add_idle (-1) W))"
    using ret by (auto simp: run_return_def Let_def split: if_splits worker_phase.splits)
  then show thesis
  proof cases
    case (task t f)
    let ?W = "set_worker i (wk_locals ?w) Looking (add_active (-1) (lock_fiber None f W))"
    have f: "coroutine ?h f" "inside ?h ?w f" "f \<noteq> home_of ?w" using ok task(1) by (auto simp: worker_ok_def)
    then have st: "at_home (home_of ?w) (wk_locals ?w)" "f_state (h_fiber ?h f) \<noteq> RUNNING"
      using home by (auto simp: inside_def running_on_def is_home_def)
    have fo: "fiber_ok ?h (sw_workers W) f" by (rule fiber_okI [OF inv f(1)])
    have "sched_inv ?W"
      by (rule sched_inv_step [OF inv i, where f = f and w' = ?v])
        (use ok hv st f fo task(1) occupant_unique [OF inv i] in
          \<open>auto simp: kept_def coroutine_def fiber_ok_def own_ctx_def occupant_def worker_ok_def held_tasks_def idling_def\<close>)
    with that [OF task(2)] conc task(1) show thesis by (simp add: held_tasks_def)
  next
    case idle
    let ?W = "set_worker i (wk_locals ?w) Looking (add_idle (-1) W)"
    have f: "coroutine ?h (wk_idle ?w)" "inside ?h ?w (wk_idle ?w)" "wk_idle ?w \<noteq> home_of ?w"
      using ok idle(1) by (auto simp: worker_ok_def)
    then have st: "at_home (home_of ?w) (wk_locals ?w)" "f_state (h_fiber ?h (wk_idle ?w)) \<noteq> RUNNING"
      using home by (auto simp: inside_def running_on_def is_home_def)
    have fo: "fiber_ok ?h (sw_workers W) (wk_idle ?w)" by (rule fiber_okI [OF inv f(1)])
    have "fiber_ok ?h ((sw_workers W)[i := ?v]) (wk_idle ?w)"
      using fo st(2) idle_mutex [OF inv idle_of_worker [OF i]] by (simp add: fiber_ok_def)
    then have "sched_inv ?W"
      by (intro sched_inv_step [OF inv i, where f = "wk_idle ?w" and w' = ?v])
        (use ok hv st f idle(1) occupant_unique [OF inv i] in
          \<open>auto simp: coroutine_def occupant_def worker_ok_def held_tasks_def idling_def\<close>)
    with that [OF idle(2)] conc idle(1) show thesis by (simp add: held_tasks_def)
  qed
qed

lemma fiber_ok_fresh:
  "f_state (h_fiber h f) = READY \<Longrightarrow> own_ctx f h \<Longrightarrow> f_mutex (h_fiber h f) = None \<Longrightarrow> fiber_ok h ws f"
  by (simp add: fiber_ok_def)

lemma caller_ok_frame:
  assumes "caller_ok W" and "kept {} (sw_heap W) (sw_heap W')" and "sw_caller W' = sw_caller W"
    and "m_schedulerFiber (sw_sched W') = m_schedulerFiber (sw_sched W)"
    and "\<And>g. g < h_fresh (sw_heap W) \<Longrightarrow> g \<in> home_of ` set (sw_workers W') \<Longrightarrow> g \<in> home_of ` set (sw_workers W)"
  shows "caller_ok W'"
proof (cases "sw_caller W")
  case (Some tls)
  with assms(1) obtain sf m where c: "m_schedulerFiber (sw_sched W) = Some sf" "t_scheduler_fiber tls = Some sf"
    "t_thread_fiber tls = Some m" "m \<noteq> sf" "sf < h_fresh (sw_heap W)" "m < h_fresh (sw_heap W)" "\<not> coroutine (sw_heap W) m"
    "\<not> f_runInScheduler (h_fiber (sw_heap W) sf)" "f_state (h_fiber (sw_heap W) sf) = READY"
    "f_ctx (h_fiber (sw_heap W) sf) = Main_func" "sf \<notin> home_of ` set (sw_workers W)" "m \<notin> home_of ` set (sw_workers W)"
    by (auto simp: caller_ok_def)
  moreover have "h_fiber (sw_heap W') sf = h_fiber (sw_heap W) sf" by (rule kept_fiber [OF assms(2) c(5)]) simp
  moreover have "\<not> coroutine (sw_heap W') m" using kept_coroutine [OF assms(2) c(6)] c(7) by simp
  moreover have "h_fresh (sw_heap W) \<le> h_fresh (sw_heap W')" using assms(2) by (simp add: kept_def)
  ultimately show ?thesis using Some assms(3,4,5) by (auto simp: caller_ok_def)
qed (use assms(3) in \<open>simp add: caller_ok_def\<close>)

text \<open>A step that leaves the threads alone.\<close>

lemma sched_inv_outer_step:
  assumes inv: "sched_inv W" and heap: "kept {} (sw_heap W) (sw_heap W')" and ws: "sw_workers W' = sw_workers W"
    and new: "\<And>g. coroutine (sw_heap W') g \<Longrightarrow> h_fresh (sw_heap W) \<le> g \<Longrightarrow>
      f_state (h_fiber (sw_heap W') g) = READY \<and> own_ctx g (sw_heap W') \<and> f_mutex (h_fiber (sw_heap W') g) = None"
    and cl: "sw_caller W' = sw_caller W" "m_schedulerFiber (sw_sched W') = m_schedulerFiber (sw_sched W)"
    and ts: "\<And>t. t \<in> set (m_tasks (sw_sched W')) \<Longrightarrow> t \<in> set (m_tasks (sw_sched W)) \<or> task_ok W t \<and> (st_fiber t \<noteq> None \<or> st_cb t \<noteq> None)"
    and ct: "m_activeThreadCount (sw_sched W') = m_activeThreadCount (sw_sched W)"
      "m_idleThreadCount (sw_sched W') = m_idleThreadCount (sw_sched W)"
  shows "sched_inv W'"
proof -
  have idle: "idle_fibers W' = idle_fibers W" by (simp add: idle_fibers_def ws)
  have "worker_ok (sw_heap W') (idle_fibers W) i (worker_at i W)" if "i < length (sw_workers W)" for i
    by (rule worker_ok_frame [OF worker_okI [OF inv that] heap]) auto
  moreover have "fiber_ok (sw_heap W') (sw_workers W) f" if c: "coroutine (sw_heap W') f" for f
  proof (cases "f < h_fresh (sw_heap W)")
    case True
    with c have "coroutine (sw_heap W) f" using kept_coroutine [OF heap] by simp
    then show ?thesis using fiber_okI [OF inv] kept_fiber [OF heap True] by (auto simp: fiber_ok_def own_ctx_def)
  qed (use new [OF c] in \<open>auto intro: fiber_ok_fresh\<close>)
  moreover have "task_ok W' t" if "task_ok W t" for t
    using that kept_coroutine [OF heap] by (auto simp: task_ok_def idle coroutine_def)
  then have "tasks_ok W'" using inv ts by (fastforce simp: sched_inv_def tasks_ok_def ws)
  moreover have "caller_ok W'" by (rule caller_ok_frame [OF _ heap cl]) (use inv ws in \<open>simp_all add: sched_inv_def\<close>)
  ultimately show ?thesis using inv ct by (simp add: sched_inv_def counts_ok_def ws idle)
qed

text \<open>A thread that begins to work: its idle fiber is made on the heap \<open>h1\<close>.\<close>

lemma sched_inv_begin:
  assumes inv: "sched_inv W" and heap: "kept F (sw_heap W) h1" and F: "\<forall>g \<in> F. \<not> coroutine (sw_heap W) g \<and> g \<notin> home_of ` set (sw_workers W)"
    and new: "\<And>g. coroutine h1 g \<Longrightarrow> g < h_fresh (sw_heap W)"
    and home: "at_home s tls" "s < h_fresh h1" "\<not> coroutine h1 s" "s \<notin> home_of ` set (sw_workers W)"
    and idle: "Fiber_new (Some 1) 0 True h1 = (idle, h2)"
    and W': "sw_heap W' = h2" "sw_workers W' = sw_workers W @ [\<lparr>wk_id = tid, wk_locals = tls, wk_idle = idle, wk_phase = Looking\<rparr>]"
    and caller: "caller_ok W'" and ts: "m_tasks (sw_sched W') = m_tasks (sw_sched W)"
    and ct: "m_activeThreadCount (sw_sched W') = m_activeThreadCount (sw_sched W)"
      "m_idleThreadCount (sw_sched W') = m_idleThreadCount (sw_sched W)"
  shows "sched_inv W'"
proof -
  let ?h = "sw_heap W" and ?w = "\<lparr>wk_id = tid, wk_locals = tls, wk_idle = idle, wk_phase = Looking\<rparr>"
  note f = Fiber_new_spec [OF idle]
  have k: "kept F ?h h2" using kept_trans [OF heap, of "{}" h2] f by simp
  have le: "h_fresh ?h \<le> idle" using heap f by (simp add: kept_def)
  have cor: "g < h_fresh ?h" if "coroutine h2 g" "g \<noteq> idle" for g
  proof -
    have "g < h_fresh h1" using that f by force
    with that new [of g] show ?thesis using f kept_coroutine [of "{}" h1 h2 g] by auto
  qed
  have old: "idle_fibers W \<subseteq> {..<h_fresh ?h}" using idle_coroutine [OF inv] by (auto simp: coroutine_def)
  have idles: "idle_fibers W' = insert idle (idle_fibers W)" by (simp add: idle_fibers_def W'(2))
  have hw: "home_of \<lparr>wk_id = tid, wk_locals = tls, wk_idle = x, wk_phase = Looking\<rparr> = s" for x using home(1) by (simp add: home_of_def at_home_def)
  have "worker_ok h2 (idle_fibers W') i (worker_at i W)" if "i < length (sw_workers W)" for i
    by (rule worker_ok_frame [OF worker_okI [OF inv that] k])
      (use F that occupant_coroutine [OF worker_okI [OF inv that]] idles le in auto)
  moreover have "worker_ok h2 (idle_fibers W') (length (sw_workers W)) ?w"
    using home f kept_coroutine [of "{}" h1 h2 s] by (auto simp: worker_ok_def hw)
  ultimately have "\<forall>i < length (sw_workers W'). worker_ok h2 (idle_fibers W') i (worker_at i W')"
    by (auto simp: W'(2) nth_append less_Suc_eq)
  moreover have "distinct (map home_of (sw_workers W'))" "distinct (map wk_idle (sw_workers W'))"
    using inv home(4) hw old le by (auto simp: sched_inv_def W'(2) idle_fibers_def)
  moreover have "fiber_ok h2 (sw_workers W') g" if c: "coroutine h2 g" for g
  proof (cases "g = idle")
    case False
    note l = cor [OF c False]
    then have c': "coroutine ?h g" using c kept_coroutine [OF k] by simp
    then have "h_fiber h2 g = h_fiber ?h g" using F by (intro kept_fiber [OF k l]) auto
    with fiber_okI [OF inv c'] show ?thesis by (fastforce simp: fiber_ok_def own_ctx_def W'(2) nth_append)
  qed (use f in \<open>auto intro: fiber_ok_fresh\<close>)
  moreover have "task_ok W' t" if "task_ok W t" for t
    using that kept_coroutine [OF k] le by (auto simp: task_ok_def idles coroutine_def W'(1))
  then have "tasks_ok W'" using inv ts by (auto simp: sched_inv_def tasks_ok_def W'(2) held_tasks_def)
  moreover have "counts_ok W'" using inv ct by (simp add: sched_inv_def counts_ok_def W'(2) held_tasks_def idling_def)
  ultimately show ?thesis using caller W'(1) by (simp add: sched_inv_def)
qed

lemma begin_thread_sched [simp]: "sw_sched (run_begin junk tid tls W) = sw_sched W"
  by (simp add: run_begin_def Let_def split: prod.split)

lemma begin_thread_inv:
  assumes inv: "sched_inv W" and tid: "tid \<noteq> m_rootThread (sw_sched W)" and none: "t_fiber tls = None"
  shows "sched_inv (run_begin junk tid tls W)" and "sw_sched (run_begin junk tid tls W) = sw_sched W"
    and "map held_tasks (sw_workers (run_begin junk tid tls W)) = map held_tasks (sw_workers W) @ [[]]"
proof -
  let ?h = "sw_heap W"
  obtain s h1 tls1 where g: "GetThis junk (?h, tls) = (s, h1, tls1)" by (rule prod_cases3)
  obtain idle h2 where n: "Fiber_new (Some 1) 0 True h1 = (idle, h2)" by fastforce
  let ?w = "\<lparr>wk_id = tid, wk_locals = tls1, wk_idle = idle, wk_phase = Looking\<rparr>"
  have W': "run_begin junk tid tls W = W\<lparr>sw_heap := h2, sw_workers := sw_workers W @ [?w]\<rparr>"
    using tid g n by (simp add: run_begin_def Let_def)
  have s: "s = h_fresh ?h" "at_home s tls1" "h_fresh h1 = h_fresh ?h + 1" "kept {} ?h h1" "\<not> coroutine h1 s"
    using g none by (auto simp: GetThis_def Fiber_main_def alloc_fiber_def at_home_def kept_def coroutine_def)
  have new: "g < h_fresh ?h" if "coroutine h1 g" for g
    using that s by (cases "g = s") (auto simp: coroutine_def)
  have "home_of w < h_fresh ?h" if "w \<in> set (sw_workers W)" for w
    using that worker_okI [OF inv] by (auto simp: in_set_conv_nth worker_ok_def)
  then have fresh: "s \<notin> home_of ` set (sw_workers W)" using s(1) by fastforce
  have hw: "home_of ?w = s" using s(2) by (simp add: home_of_def at_home_def)
  have "caller_ok (W\<lparr>sw_heap := h2, sw_workers := sw_workers W @ [?w]\<rparr>)"
    by (rule caller_ok_frame [of W]) (use inv kept_trans [OF s(4), of "{}" h2] Fiber_new_spec [OF n] hw s(1) in
        \<open>auto simp: sched_inv_def\<close>)
  then show "sched_inv (run_begin junk tid tls W)" unfolding W'
    by (intro sched_inv_begin [OF inv s(4) _ new s(2) _ s(5) fresh n]) (use s in simp_all)
  show "sw_sched (run_begin junk tid tls W) = sw_sched W"
    "map held_tasks (sw_workers (run_begin junk tid tls W)) = map held_tasks (sw_workers W) @ [[]]"
    unfolding W' by (simp_all add: held_tasks_def)
qed

lemma flagged_inv: "sched_inv W \<Longrightarrow> sched_inv (W\<lparr>sw_sched := (sw_sched W)\<lparr>m_stopping := True\<rparr>\<rparr>)"
  by (rule sched_inv_outer_step [of W]) (auto simp: coroutine_def)

text \<open>What \<open>stop\<close> comes to: nothing, the flag, or the flag and the caller's thread going to work.\<close>

lemma Scheduler_stop_cases:
  assumes st: "Scheduler_stop junk mine W = Inr W'"
  obtains (unchanged) "W' = W" | (flagged) "W' = W\<lparr>sw_sched := (sw_sched W)\<lparr>m_stopping := True\<rparr>\<rparr>"
    | (caller) sf tls h tls' where "m_schedulerFiber (sw_sched W) = Some sf" "sw_caller W = Some tls"
      "Fiber_resume sf (sw_heap W, tls) = Inr (h, tls')"
      "W' = run_begin junk (m_rootThread (sw_sched W)) tls'
        (W\<lparr>sw_sched := (sw_sched W)\<lparr>m_stopping := True\<rparr>, sw_heap := h, sw_caller := None\<rparr>)"
proof (cases "sched_stopping (sw_sched W) \<or> mine \<noteq> m_useCaller (sw_sched W)")
  case True
  with st unchanged show thesis by (cases "sched_stopping (sw_sched W)") (simp_all only: Scheduler_stop_def if_True if_False sum.simps simp_thms)
next
  case False
  then have c: "\<not> sched_stopping (sw_sched W)" "mine = m_useCaller (sw_sched W)" by auto
  note go = st [unfolded Scheduler_stop_def Let_def]
  show thesis
  proof (cases "m_schedulerFiber (sw_sched W) = None")
    case True
    then have "Inr (W\<lparr>sw_sched := (sw_sched W)\<lparr>m_stopping := True\<rparr>\<rparr>) = (Inr W' :: fiber_fault + sched_world)" using go c by (auto split: option.splits)
    with flagged show thesis by (simp only: sum.inject)
  next
    case False
    then obtain sf tls where s: "m_schedulerFiber (sw_sched W) = Some sf" "sw_caller W = Some tls"
      using go c by (auto split: option.splits)
    obtain h tls' where r: "Fiber_resume sf (sw_heap W, tls) = Inr (h, tls')"
      using go c s by (cases "Fiber_resume sf (sw_heap W, tls)") auto
    have "Inr (run_begin junk (m_rootThread (sw_sched W)) tls' (W\<lparr>sw_sched := (sw_sched W)\<lparr>m_stopping := True\<rparr>, sw_heap := h, sw_caller := None\<rparr>)) =
        (Inr W' :: fiber_fault + sched_world)" using go c s r by simp
    then show thesis using caller [OF s r] by (simp only: sum.inject)
  qed
qed

lemma Scheduler_stop_keeps:
  assumes inv: "sched_inv W" and st: "Scheduler_stop junk mine W = Inr W'"
  shows "sched_inv W' \<and> m_tasks (sw_sched W') = m_tasks (sw_sched W) \<and>
    concat (map held_tasks (sw_workers W')) = concat (map held_tasks (sw_workers W))"
proof -
  let ?V = "W\<lparr>sw_sched := (sw_sched W)\<lparr>m_stopping := True\<rparr>\<rparr>" and ?h = "sw_heap W"
  from st show ?thesis
  proof (cases rule: Scheduler_stop_cases)
    case (caller sf tls h tls')
    then obtain m where c: "t_scheduler_fiber tls = Some sf" "t_thread_fiber tls = Some m" "m \<noteq> sf" "sf < h_fresh ?h"
      "m < h_fresh ?h" "\<not> coroutine ?h m" "\<not> f_runInScheduler (h_fiber ?h sf)" "f_state (h_fiber ?h sf) = READY"
      "f_ctx (h_fiber ?h sf) = Main_func" "sf \<notin> home_of ` set (sw_workers W)" "m \<notin> home_of ` set (sw_workers W)"
      using inv by (auto simp: sched_inv_def caller_ok_def)
    obtain idle h2 where n: "Fiber_new (Some 1) 0 True h = (idle, h2)" by fastforce
    let ?w = "\<lparr>wk_id = m_rootThread (sw_sched W), wk_locals = tls', wk_idle = idle, wk_phase = Looking\<rparr>"
    have W': "W' = ?V\<lparr>sw_heap := h2, sw_caller := None, sw_workers := sw_workers W @ [?w]\<rparr>"
      using caller(4) n by (simp add: run_begin_def Let_def)
    have r: "kept {m, sf} ?h h" "at_home sf tls'" "h_fresh h = h_fresh ?h" "\<And>g. coroutine h g = coroutine ?h g"
      using caller(3) c
      by (auto simp: Fiber_resume_def Let_def partner_def swapcontext_def kept_def at_home_def coroutine_def split: if_splits)
    have nsf: "\<not> coroutine ?h sf" using c(7) by (simp add: coroutine_def)
    have "sched_inv W'"
      by (rule sched_inv_begin [OF flagged_inv [OF inv] _ _ _ r(2) _ _ _ n])
        (use r c nsf W' in \<open>auto simp: caller_ok_def coroutine_def\<close>)
    then show ?thesis using W' by (simp add: held_tasks_def)
  qed (use inv flagged_inv [OF inv] in simp_all)
qed

lemma Scheduler_new_inv:
  assumes "Scheduler_new threads use_caller junk tid (h0, tls0) = Inr (s, h, tls)" and "h_fresh h0 = 0" and "t_fiber tls0 = None"
  shows "sched_inv \<lparr>sw_sched = s, sw_heap = h, sw_workers = [], sw_caller = (if use_caller then Some tls else None)\<rparr>"
    and "m_tasks s = []"
  using assms
  by (auto simp: Scheduler_new_def Let_def GetThis_def Fiber_main_def Fiber_new_def alloc_fiber_def SetSchedulerFiber_def
      sched_inv_def idle_fibers_def caller_ok_def tasks_ok_def counts_ok_def coroutine_def less_Suc_eq
      split: if_splits prod.splits)

lemma sched_reach_books:
  "sched_reach W A D \<Longrightarrow> sched_inv W \<and> A = mset (m_tasks (sw_sched W)) + mset (concat (map held_tasks (sw_workers W))) + D"
proof (induction rule: sched_reach.induct)
  case (new threads use_caller junk tid h0 tls0 s h tls)
  with Scheduler_new_inv [OF new(1-3)] show ?case by simp
next
  case (start W A D ids s)
  then have "m_tasks s = m_tasks (sw_sched W)" "sched_inv (W\<lparr>sw_sched := s\<rparr>)"
    by (auto simp: Scheduler_start_def coroutine_def split: if_splits intro!: sched_inv_outer_step [of W])
  with start.IH show ?case by simp
next
  case (begin_thread W A D tid tls junk)
  with begin_thread_inv [OF _ begin_thread.hyps(2,3)] show ?case by simp
next
  case (stop W A D junk mine W')
  with Scheduler_stop_keeps [OF _ stop.hyps(2)] show ?case by simp
next
  case (schedule W A D t tickle s)
  have "sched_inv (W\<lparr>sw_sched := s\<rparr>)"
    by (rule sched_inv_outer_step [of W])
      (use schedule in \<open>auto simp: scheduleLock_def coroutine_def split: if_splits\<close>)
  with schedule show ?case by (auto simp: scheduleLock_def split: if_splits)
next
  case (make_fiber W A D cb stacksize f h)
  have "sched_inv (W\<lparr>sw_heap := h\<rparr>)"
    by (rule sched_inv_outer_step [of W]) (use make_fiber Fiber_new_spec [OF make_fiber.hyps(2)] in auto)
  with make_fiber show ?case by simp
next
  case (take W A D i W')
  then have inv: "sched_inv W" by simp
  show ?case by (rule run_take_keeps [OF inv take.hyps(2,3)]) (use take.IH in simp)
next
  case (execute W A D i W')
  then have inv: "sched_inv W" by simp
  show ?case by (rule run_execute_keeps [OF inv execute.hyps(2,3)]) (use execute.IH in \<open>simp add: dropped_def union_ac\<close>)
next
  case (leave W A D i returns W')
  then have inv: "sched_inv W" by simp
  show ?case by (rule run_leave_keeps [OF inv leave.hyps(2,3)]) (use leave.IH in simp)
next
  case (return W A D i W')
  then have inv: "sched_inv W" by simp
  show ?case by (rule run_return_keeps [OF inv return.hyps(2,3)]) (use return.IH in \<open>simp add: union_ac\<close>)
qed

lemma stacks_distinct:
  assumes inv: "sched_inv W" and "k < length (sw_workers W)" and "j < length (sw_workers W)"
    and "t_stack (wk_locals (worker_at k W)) = t_stack (wk_locals (worker_at j W))"
  shows "k = j"
proof -
  have on: "t_stack (wk_locals (worker_at i W)) = home_of (worker_at i W) \<and> \<not> coroutine (sw_heap W) (home_of (worker_at i W)) \<or>
      occupant (worker_at i W) = Some (t_stack (wk_locals (worker_at i W))) \<and>
      coroutine (sw_heap W) (t_stack (wk_locals (worker_at i W)))"
    if "i < length (sw_workers W)" for i
    using worker_okI [OF inv that]
    by (auto simp: worker_ok_def inside_def occupant_def at_home_def running_on_def split: worker_phase.splits)
  have "home_of (worker_at k W) = home_of (worker_at j W) \<Longrightarrow> k = j"
    using inv assms(2,3) by (auto simp: sched_inv_def distinct_conv_nth)
  then show ?thesis
    using on [OF assms(2)] on [OF assms(3)] occupant_unique [OF inv assms(2,3)] assms(4) by auto
qed

lemma running_iff_on_stack:
  assumes inv: "sched_inv W" and f: "coroutine (sw_heap W) f"
  shows "f_state (h_fiber (sw_heap W) f) = RUNNING \<longleftrightarrow> (\<exists>j < length (sw_workers W). t_stack (wk_locals (worker_at j W)) = f)"
proof
  assume run: "f_state (h_fiber (sw_heap W) f) = RUNNING"
  then obtain j where j: "j < length (sw_workers W)" "occupant (worker_at j W) = Some f"
    using fiber_okI [OF inv f] by (auto simp: fiber_ok_def in_set_conv_nth)
  with worker_okI [OF inv j(1)] run have "t_stack (wk_locals (worker_at j W)) = f"
    by (auto simp: worker_ok_def inside_def occupant_def running_on_def split: worker_phase.splits)
  with j(1) show "\<exists>j < length (sw_workers W). t_stack (wk_locals (worker_at j W)) = f" by blast
next
  assume "\<exists>j < length (sw_workers W). t_stack (wk_locals (worker_at j W)) = f"
  then obtain j where "j < length (sw_workers W)" "t_stack (wk_locals (worker_at j W)) = f" by blast
  with worker_okI [OF inv, of j] f show "f_state (h_fiber (sw_heap W) f) = RUNNING"
    by (auto simp: worker_ok_def inside_def at_home_def running_on_def split: worker_phase.splits)
qed

section \<open>What holds of the scheduler\<close>

text \<open>
  C16: Whatever the threads do and in whatever order, no assertion of the scheduler or of the fibers
  fails and no null pointer is used; no two threads are on the same stack; and a fiber that schedulers
  run is in the state \<open>RUNNING\<close> exactly while some thread is on its stack.
\<close>

theorem workers_never_fault:
  assumes "sched_reach W A D" and "i < length (sw_workers W)"
  shows "run_take i W \<noteq> Some (Inl e) \<and> run_execute i W \<noteq> Some (Inl e) \<and> run_leave returns i W \<noteq> Some (Inl e) \<and>
    run_return i W \<noteq> Some (Inl e) \<and>
    (\<forall>j < length (sw_workers W). t_stack (wk_locals (worker_at j W)) = t_stack (wk_locals (worker_at i W)) \<longrightarrow> j = i) \<and>
    (\<forall>f. coroutine (sw_heap W) f \<longrightarrow>
      (f_state (h_fiber (sw_heap W) f) = RUNNING \<longleftrightarrow> (\<exists>j < length (sw_workers W). t_stack (wk_locals (worker_at j W)) = f)))"
proof -
  have inv: "sched_inv W" using sched_reach_books [OF assms(1)] by simp
  note faults = run_take_keeps [OF inv assms(2)] run_execute_keeps [OF inv assms(2)] run_leave_keeps [OF inv assms(2)]
    run_return_keeps [OF inv assms(2)]
  have "run_take i W \<noteq> Some (Inl e) \<and> run_execute i W \<noteq> Some (Inl e) \<and> run_leave returns i W \<noteq> Some (Inl e) \<and>
      run_return i W \<noteq> Some (Inl e)"
    by (intro conjI notI; (erule faults, simp))
  moreover have "k = j"
    if "j < length (sw_workers W)" "k < length (sw_workers W)"
      "t_stack (wk_locals (worker_at k W)) = t_stack (wk_locals (worker_at j W))" for j k
    by (rule stacks_distinct [OF inv that(2,1,3)])
  moreover have "f_state (h_fiber (sw_heap W) f) = RUNNING \<longleftrightarrow> (\<exists>j < length (sw_workers W). t_stack (wk_locals (worker_at j W)) = f)"
    if "coroutine (sw_heap W) f" for f
    by (rule running_iff_on_stack [OF inv that])
  ultimately show ?thesis using assms(2) by blast
qed

lemma concat_short: "(\<And>x. length (f x) \<le> 1) \<Longrightarrow> length (concat (map f xs)) \<le> length xs"
proof (induction xs)
  case (Cons x xs)
  then have "length (concat (map f xs)) \<le> length xs" "length (f x) \<le> 1" by blast+
  then show ?case by simp
qed simp

text \<open>
  C17: Every task that was scheduled is in the queue, is held by the thread that took it, or is done,
  exactly once; the two counters are the numbers of threads that hold a task and of threads in their
  idle fiber. When the scheduler says that it is stopping, every scheduled task is done and no thread
  holds one.
\<close>

theorem tasks_conserved:
  assumes "sched_reach W A D" and "length (sw_workers W) < 2 ^ 64"
  shows "A = mset (m_tasks (sw_sched W)) + mset (concat (map held_tasks (sw_workers W))) + D \<and>
    unat (m_activeThreadCount (sw_sched W)) = length (concat (map held_tasks (sw_workers W))) \<and>
    unat (m_idleThreadCount (sw_sched W)) = length (concat (map idling (sw_workers W))) \<and>
    (sched_stopping (sw_sched W) \<longrightarrow> A = D \<and> (\<forall>w \<in> set (sw_workers W). held_tasks w = []))"
proof -
  have inv: "sched_inv W" and A: "A = mset (m_tasks (sw_sched W)) + mset (concat (map held_tasks (sw_workers W))) + D"
    using sched_reach_books [OF assms(1)] by simp_all
  have "length (concat (map held_tasks ws)) \<le> length ws" "length (concat (map idling ws)) \<le> length ws" for ws
    by (rule concat_short; simp add: held_tasks_def idling_def split: worker_phase.split)+
  then have l: "length (concat (map held_tasks (sw_workers W))) < 2 ^ 64" "length (concat (map idling (sw_workers W))) < 2 ^ 64"
    using assms(2) by (meson order_le_less_trans)+
  have counts: "unat (m_activeThreadCount (sw_sched W)) = length (concat (map held_tasks (sw_workers W)))"
    "unat (m_idleThreadCount (sw_sched W)) = length (concat (map idling (sw_workers W)))"
    using inv l by (simp_all add: sched_inv_def counts_ok_def unsigned_of_nat take_bit_nat_eq_self)
  have "concat (map held_tasks (sw_workers W)) = []" if "sched_stopping (sw_sched W)"
    using counts(1) that by (simp add: sched_stopping_def del: concat_eq_Nil_conv)
  with A counts show ?thesis by (auto simp: sched_stopping_def)
qed

lemma find_behind: "\<forall>x \<in> set a. \<not> P x \<Longrightarrow> P t \<Longrightarrow> find P (a @ t # b) = Some t"
  by (induction a) auto

text \<open>
  A thread takes the first task of the queue that is for every thread or for it, counts it and
  leaves the others in their order; it finds none exactly when all of them are for other threads, and
  then changes nothing.
\<close>

theorem take_task_first:
  assumes "\<forall>t \<in> set (m_tasks s). st_fiber t \<noteq> None \<or> st_cb t \<noteq> None"
  shows "case find (\<lambda>t. st_thread t = -1 \<or> st_thread t = tid) (m_tasks s) of
      None \<Rightarrow> take_task tid s = Inr (None, m_tasks s \<noteq> [], s)
    | Some t \<Rightarrow> \<exists>a b. m_tasks s = a @ t # b \<and> (\<forall>u \<in> set a. st_thread u \<noteq> -1 \<and> st_thread u \<noteq> tid) \<and>
        take_task tid s = Inr (Some t, length (m_tasks s) \<noteq> 1,
          s\<lparr>m_tasks := a @ b, m_activeThreadCount := m_activeThreadCount s + 1\<rparr>)"
proof (cases "scan_tasks tid (m_tasks s)")
  case (fields a r b)
  note split = scan_tasks_split [OF fields]
  show ?thesis
  proof (cases r)
    case None
    with fields split have "find (\<lambda>t. st_thread t = -1 \<or> st_thread t = tid) (m_tasks s) = None" by (auto simp: find_None_iff)
    with None fields split show ?thesis by (auto simp: take_task_def)
  next
    case (Some t)
    with split have q: "m_tasks s = a @ t # b" by simp
    have "find (\<lambda>t. st_thread t = -1 \<or> st_thread t = tid) (a @ t # b) = Some t"
      by (rule find_behind) (use split Some in auto)
    moreover have "st_fiber t \<noteq> None \<or> st_cb t \<noteq> None" using assms q by simp
    ultimately show ?thesis using Some fields split by (auto simp: take_task_def q)
  qed
qed

lemma run_enter_some:
  obtains r where "run_enter i f ph W = Some r"
    and "\<And>W'. r = Inr W' \<Longrightarrow> i < length (sw_workers W) \<Longrightarrow> wk_phase (worker_at i W') = ph"
proof (cases "Fiber_resume f (sw_heap W, wk_locals (worker_at i W))")
  case (Inl e)
  then show thesis by (intro that [of "Inl e"]) (simp_all add: run_enter_def)
next
  case (Inr r)
  obtain h tls where "r = (h, tls)" by fastforce
  with Inr show thesis
    by (intro that [of "Inr (set_worker i tls ph (W\<lparr>sw_heap := h\<rparr>))"]) (auto simp: run_enter_def)
qed

text \<open>
  C18: A fiber that is scheduled again before it has yielded is not lost and not run twice: the thread
  that took the task waits for the fiber's mutex until the thread that runs the fiber is back in its
  loop, and then goes into the fiber.
\<close>

theorem wakeup_not_lost:
  assumes "sched_reach W A D" and "i < length (sw_workers W)" and "j < length (sw_workers W)"
    and "wk_phase (worker_at j W) = Taken t" and "st_fiber t = Some f"
    and "wk_phase (worker_at i W) = In_task t' f" and "\<not> is_home (wk_locals (worker_at i W))"
  shows "run_execute j W = None \<and> (\<exists>W1 W2 W3. run_leave False i W = Some (Inr W1) \<and> run_execute j W1 = None \<and>
    run_return i W1 = Some (Inr W2) \<and> run_execute j W2 = Some (Inr W3) \<and>
    wk_phase (worker_at j W3) = In_task t f \<and> t_stack (wk_locals (worker_at j W3)) = f)"
proof -
  have inv: "sched_inv W" using sched_reach_books [OF assms(1)] by simp
  have ok: "worker_ok (sw_heap W) (idle_fibers W) i (worker_at i W)" by (rule worker_okI [OF inv assms(2)])
  have ij: "i \<noteq> j" using assms(4,6) by auto
  have mut: "f_mutex (h_fiber (sw_heap W) f) = Some i" using ok assms(6) by (simp add: worker_ok_def)
  obtain g where "t_fiber (wk_locals (worker_at i W)) = Some g"
    using inside_running [OF ok assms(7)] by (metis running_on_def)
  then obtain r where "run_leave False i W = Some r" using assms(7)
    by (cases "Fiber_yield g (sw_heap W, wk_locals (worker_at i W))") (auto simp: run_leave_def Let_def split: prod.splits)
  then obtain W1 where W1: "run_leave False i W = Some (Inr W1)" "sched_inv W1" "wk_phase (worker_at i W1) = In_task t' f"
      "at_home (home_of (worker_at i W)) (wk_locals (worker_at i W1))" "f_state (h_fiber (sw_heap W1) f) = READY"
      "sw_workers W1 = (sw_workers W)[i := (worker_at i W)\<lparr>wk_locals := wk_locals (worker_at i W1)\<rparr>]"
      "f_mutex (h_fiber (sw_heap W1) f) = Some i"
    using assms(6) mut by (auto simp: occupant_def elim!: run_leave_keeps [OF inv assms(2)])
  have j1: "worker_at j W1 = worker_at j W" "i < length (sw_workers W1)" "j < length (sw_workers W1)"
  proof -
    obtain v where "sw_workers W1 = (sw_workers W)[i := v]" using W1(6) by (rule that)
    then show "worker_at j W1 = worker_at j W" "i < length (sw_workers W1)" "j < length (sw_workers W1)"
      using ij assms(2,3) by simp_all
  qed
  let ?W2 = "set_worker i (wk_locals (worker_at i W1)) Looking (add_active (-1) (lock_fiber None f W1))"
  have W2: "run_return i W1 = Some (Inr ?W2)" using W1(3,4) by (simp add: run_return_def Let_def is_home_def at_home_def)
  obtain V where "(Inr ?W2 :: fiber_fault + sched_world) = Inr V" "sched_inv V"
    by (rule run_return_keeps [OF W1(2) j1(2) W2])
  then have inv2: "sched_inv ?W2" by simp
  have j2: "worker_at j ?W2 = worker_at j W" "j < length (sw_workers ?W2)" using j1 ij by simp_all
  have ex2: "run_execute j ?W2 = run_enter j f (In_task t f) (lock_fiber (Some j) f ?W2)"
    using assms(4,5) j2(1) W1(5) by (simp add: run_execute_def Let_def)
  obtain r where r: "run_execute j ?W2 = Some r"
      "\<And>W3. r = Inr W3 \<Longrightarrow> j < length (sw_workers (lock_fiber (Some j) f ?W2)) \<Longrightarrow> wk_phase (worker_at j W3) = In_task t f"
    unfolding ex2 by (rule run_enter_some [of j f "In_task t f" "lock_fiber (Some j) f ?W2"]) blast
  obtain W3 where W3: "r = Inr W3" "\<And>t f. wk_phase (worker_at j W3) = In_task t f \<Longrightarrow> t_stack (wk_locals (worker_at j W3)) = f"
    by (rule run_execute_keeps [OF inv2 j2(2) r(1)]) blast
  have "wk_phase (worker_at j W3) = In_task t f"
    using r(2) [OF W3(1)] j2(2) by simp
  moreover have "run_execute j W = None" "run_execute j W1 = None"
    using assms(4,5) mut W1(7) j1(1) by (simp_all add: run_execute_def)
  ultimately show ?thesis using W1(1) W2 r(1) W3 by blast
qed

section \<open>Examples\<close>

definition no_locals :: thread_locals where
  "no_locals = \<lparr>t_fiber = None, t_thread_fiber = None, t_scheduler_fiber = None, t_stack = 0\<rparr>"

definition empty_heap :: fiber_heap where
  "empty_heap = \<lparr>h_fiber = \<lambda>_. \<lparr>f_id = 0, f_stacksize = 0, f_state = TERMINATED, f_ctx = Main_func, f_stack = False, f_cb = None,
     f_runInScheduler = False, f_mutex = None\<rparr>, h_fresh = 0, s_fiber_id = 0, s_fiber_count = 0\<rparr>"

definition sample_task :: sched_task where
  "sample_task = \<lparr>st_fiber = Some 4, st_cb = None, st_thread = -1\<rparr>"

text \<open>Two threads, and a fiber that was scheduled twice.\<close>

definition sample_begun :: sched_world where
  "sample_begun = run_begin False 102 no_locals (run_begin False 101 no_locals
     \<lparr>sw_sched = \<lparr>m_tasks = [], m_threads = [], m_threadIds = [], m_threadCount = 2, m_activeThreadCount = 0,
        m_idleThreadCount = 0, m_useCaller = False, m_schedulerFiber = None, m_rootThread = -1, m_stopping = False\<rparr>,
      sw_heap = empty_heap, sw_workers = [], sw_caller = None\<rparr>)"

definition sample_queued :: sched_world where
  "sample_queued = sample_begun\<lparr>sw_heap := snd (Fiber_new (Some 7) 0 True (sw_heap sample_begun)),
     sw_sched := (sw_sched sample_begun)\<lparr>m_tasks := [sample_task, sample_task]\<rparr>\<rparr>"

lemma sample_begun_reach: "sched_reach sample_begun {#} {#}"
proof -
  have "Scheduler_new 2 False False 0 (empty_heap, no_locals) =
      Inr (\<lparr>m_tasks = [], m_threads = [], m_threadIds = [], m_threadCount = 2, m_activeThreadCount = 0,
        m_idleThreadCount = 0, m_useCaller = False, m_schedulerFiber = None, m_rootThread = -1, m_stopping = False\<rparr>,
        empty_heap, no_locals)"
    by (simp add: Scheduler_new_def Let_def)
  from sched_reach.new [OF this] have "sched_reach \<lparr>sw_sched = \<lparr>m_tasks = [], m_threads = [], m_threadIds = [],
        m_threadCount = 2, m_activeThreadCount = 0, m_idleThreadCount = 0, m_useCaller = False, m_schedulerFiber = None,
        m_rootThread = -1, m_stopping = False\<rparr>, sw_heap = empty_heap, sw_workers = [], sw_caller = None\<rparr> {#} {#}"
    by (simp add: empty_heap_def no_locals_def)
  from sched_reach.begin_thread [OF sched_reach.begin_thread [OF this, of 101 no_locals False], of 102 no_locals False]
  show ?thesis unfolding sample_begun_def
    by (simp add: no_locals_def begin_thread_sched)
qed

lemma sample_begun_parts:
  "sw_sched sample_begun = \<lparr>m_tasks = [], m_threads = [], m_threadIds = [], m_threadCount = 2, m_activeThreadCount = 0,
     m_idleThreadCount = 0, m_useCaller = False, m_schedulerFiber = None, m_rootThread = -1, m_stopping = False\<rparr>"
  "length (sw_workers sample_begun) = 2" "h_fresh (sw_heap sample_begun) = 4"
  "wk_phase (worker_at 0 sample_begun) = Looking" "wk_phase (worker_at 1 sample_begun) = Looking"
  "idle_fibers sample_begun = {1, 3}" "home_of (worker_at 0 sample_begun) = 0"
  by (simp_all add: sample_begun_def run_begin_def Let_def GetThis_def Fiber_main_def Fiber_new_def alloc_fiber_def no_locals_def
      empty_heap_def idle_fibers_def home_of_def SetThis_def insert_commute numeral_eq_Suc)

lemma sample_queued_reach: "sched_reach sample_queued {#sample_task, sample_task#} {#}"
proof -
  let ?h = "snd (Fiber_new (Some 7) 0 True (sw_heap sample_begun))" and ?W = "sample_begun"
  have n: "Fiber_new (Some 7) 0 True (sw_heap ?W) = (4, ?h)"
    by (simp add: Fiber_new_def alloc_fiber_def sample_begun_parts)
  have r1: "sched_reach (?W\<lparr>sw_heap := ?h\<rparr>) {#} {#}" by (rule sched_reach.make_fiber [OF sample_begun_reach n])
  have ok: "task_ok (?W\<lparr>sw_heap := ?h\<rparr>) sample_task"
    using Fiber_new_spec [OF n] sample_begun_parts(6) by (simp add: task_ok_def sample_task_def idle_fibers_def)
  have r2: "sched_reach (?W\<lparr>sw_heap := ?h, sw_sched := (sw_sched ?W)\<lparr>m_tasks := [sample_task]\<rparr>\<rparr>) {#sample_task#} {#}"
    using sched_reach.schedule [OF r1 ok, of True "(sw_sched ?W)\<lparr>m_tasks := [sample_task]\<rparr>"]
    by (simp add: scheduleLock_def sample_begun_parts sample_task_def)
  have ok2: "task_ok (?W\<lparr>sw_heap := ?h, sw_sched := (sw_sched ?W)\<lparr>m_tasks := [sample_task]\<rparr>\<rparr>) sample_task"
    using ok by (simp add: task_ok_def idle_fibers_def)
  show ?thesis
    using sched_reach.schedule [OF r2 ok2, of False "(sw_sched ?W)\<lparr>m_tasks := [sample_task, sample_task]\<rparr>"]
    by (simp add: scheduleLock_def sample_begun_parts sample_task_def sample_queued_def)
qed

theorem tasks_conserved_witness:
  "{#sample_task, sample_task#} = mset (m_tasks (sw_sched sample_queued)) +
     mset (concat (map held_tasks (sw_workers sample_queued))) + {#}"
  using tasks_conserved [OF sample_queued_reach] sample_begun_parts(2) by (simp add: sample_queued_def)

theorem workers_never_fault_witness:
  "\<forall>e. run_take 0 sample_queued \<noteq> Some (Inl e)"
  using workers_never_fault [OF sample_queued_reach, of 0] sample_begun_parts(2) by (simp add: sample_queued_def)

theorem take_task_first_witness:
  "\<exists>a b. [sample_task, sample_task] = a @ sample_task # b \<and>
     take_task 101 (sw_sched sample_queued) = Inr (Some sample_task, True,
       (sw_sched sample_queued)\<lparr>m_tasks := a @ b, m_activeThreadCount := m_activeThreadCount (sw_sched sample_queued) + 1\<rparr>)"
  using take_task_first [of "sw_sched sample_queued" 101] by (simp add: sample_queued_def sample_task_def) blast

lemma run_enter_frame:
  "run_enter i f ph W = Some (Inr W') \<Longrightarrow> sw_sched W' = sw_sched W \<and>
     (\<exists>v. sw_workers W' = (sw_workers W)[i := v] \<and> wk_phase v = ph \<and> home_of v = home_of (worker_at i W))"
  by (auto simp: run_enter_def home_of_def Fiber_resume_def Let_def swapcontext_def partner_def
      split: sum.splits if_splits option.splits)

text \<open>Two threads and one fiber that is queued twice: the first runs it, the second has taken it.\<close>

lemma sample_contended:
  "\<exists>W. (\<exists>D. sched_reach W {#sample_task, sample_task#} D) \<and> length (sw_workers W) = 2 \<and>
     wk_phase (worker_at 0 W) = In_task sample_task 4 \<and> wk_phase (worker_at 1 W) = Taken sample_task \<and>
     t_stack (wk_locals (worker_at 0 W)) = 4 \<and> \<not> is_home (wk_locals (worker_at 0 W))"
proof -
  let ?Q = sample_queued
  have len: "length (sw_workers ?Q) = 2" "wk_phase (worker_at 0 ?Q) = Looking" "wk_phase (worker_at 1 ?Q) = Looking"
    using sample_begun_parts(2,4,5) by (simp_all add: sample_queued_def)
  let ?s = "(sw_sched ?Q)\<lparr>m_tasks := [sample_task], m_activeThreadCount := 1\<rparr>"
  let ?A = "set_worker 0 (wk_locals (worker_at 0 ?Q)) (Taken sample_task) (?Q\<lparr>sw_sched := ?s\<rparr>)"
  have t0: "run_take 0 ?Q = Some (Inr ?A)"
    using len by (simp add: run_take_def take_task_def sample_queued_def sample_begun_parts(1) sample_task_def)
  have rA: "sched_reach ?A {#sample_task, sample_task#} {#}" by (rule sched_reach.take [OF sample_queued_reach _ t0]) (simp add: len)
  have "h_fiber (sw_heap ?Q) 4 = \<lparr>f_id = s_fiber_id (sw_heap sample_begun), f_stacksize = 128000, f_state = READY, f_ctx = Main_func,
      f_stack = True, f_cb = Some 7, f_runInScheduler = True, f_mutex = None\<rparr>"
    by (simp add: sample_queued_def Fiber_new_def alloc_fiber_def sample_begun_parts(3))
  then have "run_execute 0 ?A = run_enter 0 4 (In_task sample_task 4) (lock_fiber (Some 0) 4 ?A)"
    using len by (simp add: run_execute_def sample_task_def)
  then obtain r where e: "run_execute 0 ?A = Some r" "run_enter 0 4 (In_task sample_task 4) (lock_fiber (Some 0) 4 ?A) = Some r"
    by (metis run_enter_some)
  have lA: "0 < length (sw_workers ?A)" by (simp add: len)
  have iA: "sched_inv ?A" using sched_reach_books [OF rA] by simp
  obtain B where B: "r = Inr B" "sched_inv B" "\<And>t f. wk_phase (worker_at 0 B) = In_task t f \<Longrightarrow> t_stack (wk_locals (worker_at 0 B)) = f"
    by (rule run_execute_keeps [OF iA lA e(1)]) blast
  obtain v where v: "sw_sched B = ?s" "sw_workers B = (sw_workers ?A)[0 := v]" "wk_phase v = In_task sample_task 4"
      "home_of v = home_of (worker_at 0 ?A)"
    using run_enter_frame [OF e(2) [unfolded B(1)]] by auto
  have rB: "\<exists>D. sched_reach B {#sample_task, sample_task#} D"
    using sched_reach.execute [OF rA lA e(1) [unfolded B(1)]] by blast
  have w0: "worker_at 0 B = v" "length (sw_workers B) = 2" "wk_phase (worker_at 1 B) = Looking"
    using v(2) len by simp_all
  let ?C = "set_worker 1 (wk_locals (worker_at 1 B)) (Taken sample_task) (B\<lparr>sw_sched := ?s\<lparr>m_tasks := [], m_activeThreadCount := 2\<rparr>\<rparr>)"
  have t1: "run_take 1 B = Some (Inr ?C)"
    using w0 v(1) by (simp add: run_take_def take_task_def sample_task_def)
  have rC: "\<exists>D. sched_reach ?C {#sample_task, sample_task#} D"
    using rB sched_reach.take [OF _ _ t1] w0(2) by auto
  have st: "t_stack (wk_locals (worker_at 0 ?C)) = 4" using B(3) w0(1) v(3) by simp
  have "\<not> is_home (wk_locals (worker_at 0 ?C))"
  proof
    assume h: "is_home (wk_locals (worker_at 0 ?C))"
    then have "t_scheduler_fiber (wk_locals v) = Some 4" using st w0(1) by (simp add: is_home_def)
    then have "home_of v = 4" by (simp add: home_of_def)
    moreover have "home_of v = 0" using v(4) sample_begun_parts(7) len by (simp add: home_of_def sample_queued_def)
    ultimately show False by simp
  qed
  with rC st w0 v(3) show ?thesis by (intro exI [of _ ?C]) simp
qed

theorem wakeup_not_lost_witness:
  "\<exists>W W1 W2 W3. wk_phase (worker_at 1 W) = Taken sample_task \<and> wk_phase (worker_at 0 W) = In_task sample_task 4 \<and>
     run_execute 1 W = None \<and> run_leave False 0 W = Some (Inr W1) \<and> run_return 0 W1 = Some (Inr W2) \<and>
     run_execute 1 W2 = Some (Inr W3) \<and> t_stack (wk_locals (worker_at 1 W3)) = 4"
proof -
  obtain W D where W: "sched_reach W {#sample_task, sample_task#} D" "length (sw_workers W) = 2"
      "wk_phase (worker_at 0 W) = In_task sample_task 4" "wk_phase (worker_at 1 W) = Taken sample_task"
      "t_stack (wk_locals (worker_at 0 W)) = 4" "\<not> is_home (wk_locals (worker_at 0 W))"
    using sample_contended by blast
  have "run_execute 1 W = None \<and> (\<exists>W1 W2 W3. run_leave False 0 W = Some (Inr W1) \<and> run_execute 1 W1 = None \<and>
      run_return 0 W1 = Some (Inr W2) \<and> run_execute 1 W2 = Some (Inr W3) \<and>
      wk_phase (worker_at 1 W3) = In_task sample_task 4 \<and> t_stack (wk_locals (worker_at 1 W3)) = 4)"
    by (rule wakeup_not_lost [OF W(1) _ _ W(4) _ W(3,6)]) (simp_all add: W(2) sample_task_def)
  with W(3,4) show ?thesis by blast
qed

end
