(* ===== verification/Sched_End.thy ===== *)
theory Sched_End
  imports Task_Scheduler
begin

text \<open>
  The ends of things in \<open>src/CoroutineLibrary\<close>: the destructor of a fiber and the counter of fibers, the idle loop of the
  base class \<open>Scheduler\<close>, and its destructor.
\<close>

section \<open>Fibers come and go\<close>

definition Fiber_destroy :: "nat \<Rightarrow> fiber_heap \<Rightarrow> fiber_heap" where
  "Fiber_destroy f h = (put_fiber f (\<lambda>fb. fb\<lparr>f_stack := False\<rparr>) h)\<lparr>s_fiber_count := s_fiber_count h - 1\<rparr>"

text \<open>The heaps that making, resetting and destroying fibers lead to, with the fibers that live.\<close>

inductive fibers_reach :: "fiber_heap \<Rightarrow> nat set \<Rightarrow> bool" where
  none: "h_fresh h = 0 \<Longrightarrow> s_fiber_id h = 0 \<Longrightarrow> s_fiber_count h = 0 \<Longrightarrow> fibers_reach h {}"
| make: "fibers_reach h L \<Longrightarrow> Fiber_new cb stacksize run_in_scheduler h = (f, h') \<Longrightarrow> fibers_reach h' (insert f L)"
| main: "fibers_reach h L \<Longrightarrow> Fiber_main junk (h, tls) = (f, h', tls') \<Longrightarrow> fibers_reach h' (insert f L)"
| reset: "fibers_reach h L \<Longrightarrow> f \<in> L \<Longrightarrow> Fiber_reset cb f h = Inr h' \<Longrightarrow> fibers_reach h' L"
| destroy: "fibers_reach h L \<Longrightarrow> f \<in> L \<Longrightarrow> fibers_reach (Fiber_destroy f h) (L - {f})"

definition fibers_counted :: "fiber_heap \<Rightarrow> nat set \<Rightarrow> bool" where
  "fibers_counted h L \<longleftrightarrow> finite L \<and> s_fiber_count h = of_nat (card L) \<and> s_fiber_id h = of_nat (h_fresh h) \<and>
     (\<forall>f \<in> L. f < h_fresh h \<and> f_id (h_fiber h f) = of_nat f)"

lemma alloc_counted:
  assumes "fibers_counted h L" and "alloc_fiber fb h = (f, h')"
  shows "fibers_counted h' (insert f L)"
proof -
  have "h_fresh h \<notin> L" using assms(1) by (auto simp: fibers_counted_def)
  then show ?thesis using assms by (auto simp: fibers_counted_def alloc_fiber_def)
qed

text \<open>
  The counter is the number of the fibers that live, and as long as fewer than 2 ^ 64 were made no two of them have
  the same number.
\<close>

theorem fibers_numbered:
  assumes "fibers_reach h L" and "h_fresh h < 2 ^ 64"
  shows "s_fiber_count h = of_nat (card L) \<and> inj_on (\<lambda>f. f_id (h_fiber h f)) L"
proof -
  from assms(1) have c: "fibers_counted h L"
  proof (induction rule: fibers_reach.induct)
    case (make h L cb stacksize run_in_scheduler f h')
    then show ?case using alloc_counted by (simp add: Fiber_new_def)
  next
    case (main h L junk tls f h' tls')
    then obtain fb where "alloc_fiber fb h = (f, h')" by (auto simp: Fiber_main_def split: prod.splits)
    with main.IH show ?case by (rule alloc_counted)
  next
    case (reset h L f cb h')
    then have "h' = put_fiber f (\<lambda>fb. fb\<lparr>f_state := READY, f_cb := cb, f_ctx := Main_func\<rparr>) h"
      by (simp add: Fiber_reset_def split: if_splits)
    then show ?case using reset.IH by (auto simp: fibers_counted_def)
  next
    case (destroy h L f)
    have "0 < card L" using destroy by (auto simp: fibers_counted_def card_gt_0_iff)
    then have "(of_nat (card (L - {f})) :: u64) = of_nat (card L) - 1"
      using destroy by (simp add: fibers_counted_def of_nat_diff Suc_le_eq)
    then show ?case using destroy by (auto simp: fibers_counted_def Fiber_destroy_def)
  qed (simp add: fibers_counted_def)
  have "f = g" if "f \<in> L" "g \<in> L" "f_id (h_fiber h f) = f_id (h_fiber h g)" for f g
  proof -
    have e: "(of_nat f :: u64) = of_nat g" and lt: "f < 2 ^ 64" "g < 2 ^ 64" using c that assms(2) by (auto simp: fibers_counted_def)
    have "unat (of_nat f :: u64) = f" using lt(1) by (simp add: unsigned_of_nat take_bit_nat_eq_self)
    moreover have "unat (of_nat g :: u64) = g" using lt(2) by (simp add: unsigned_of_nat take_bit_nat_eq_self)
    ultimately have "f = g" using e by metis
    then show ?thesis by simp
  qed
  with c show ?thesis by (auto simp: fibers_counted_def inj_on_def)
qed

section \<open>The base class's idle loop\<close>

text \<open>
  One turn of \<open>Scheduler::idle\<close> on worker \<open>i\<close>, between one resumption of the idle fiber and the next: when the scheduler is
  to stop the function returns, else it sleeps a second and yields.
\<close>

definition Scheduler_idle :: "nat \<Rightarrow> sched_world \<Rightarrow> outcome" where
  "Scheduler_idle i W = run_leave (sched_stopping (sw_sched W)) i W"

text \<open>The turn is one of the steps the scheduler's invariant allows.\<close>

lemma Scheduler_idle_reach:
  assumes "sched_reach W A D" and "i < length (sw_workers W)" and "Scheduler_idle i W = Some (Inr W')"
  shows "sched_reach W' A D"
  using sched_reach.leave [OF assms(1,2)] assms(3) unfolding Scheduler_idle_def by blast

section \<open>The destructor\<close>

text \<open>\<open>me\<close> is this scheduler; the result is \<open>t_scheduler\<close> of the calling thread.\<close>

definition Scheduler_destroy :: "nat \<Rightarrow> scheduler \<Rightarrow> nat option \<Rightarrow> fiber_fault + nat option" where
  "Scheduler_destroy me s t_scheduler =
     (if \<not> sched_stopping s then Inl Assertion_fails
      else Inr (if t_scheduler = Some me then None else t_scheduler))"

text \<open>
  A task scheduled when all the threads have ended is never run: no thread can make a step any more, and the
  destructor's assertion fails.
\<close>

theorem late_task_fails_destructor:
  assumes "sched_reach W A D" and "\<forall>w \<in> set (sw_workers W). wk_phase w = Ended" and "sw_caller W = None"
    and "task_ok W t" and "st_fiber t \<noteq> None \<or> st_cb t \<noteq> None" and "scheduleLock t (sw_sched W) = (tickle, s)"
  shows "sched_reach (W\<lparr>sw_sched := s\<rparr>) (add_mset t A) D \<and> t \<in> set (m_tasks s) \<and>
    (\<forall>i < length (sw_workers W). run_take i (W\<lparr>sw_sched := s\<rparr>) = None \<and> run_execute i (W\<lparr>sw_sched := s\<rparr>) = None \<and>
       run_return i (W\<lparr>sw_sched := s\<rparr>) = None \<and> run_leave b i (W\<lparr>sw_sched := s\<rparr>) = None) \<and>
    Scheduler_destroy me s t_scheduler = Inl Assertion_fails"
proof -
  have s: "s = (sw_sched W)\<lparr>m_tasks := m_tasks (sw_sched W) @ [t]\<rparr>" using assms(5,6) by (auto simp: scheduleLock_def)
  have inv: "sched_inv W" using sched_reach_books [OF assms(1)] by simp
  have stuck: "run_take i (W\<lparr>sw_sched := s\<rparr>) = None \<and> run_execute i (W\<lparr>sw_sched := s\<rparr>) = None \<and>
      run_return i (W\<lparr>sw_sched := s\<rparr>) = None \<and> run_leave b i (W\<lparr>sw_sched := s\<rparr>) = None" if i: "i < length (sw_workers W)" for i
  proof -
    have ph: "wk_phase (worker_at i W) = Ended" using assms(2) i by simp
    then have "at_home (home_of (worker_at i W)) (wk_locals (worker_at i W))" using worker_okI [OF inv i] by (simp add: worker_ok_def)
    then have "is_home (wk_locals (worker_at i W))" by (auto simp: is_home_def at_home_def)
    with ph show ?thesis by (simp add: run_take_def run_execute_def run_return_def run_leave_def Let_def)
  qed
  have "sched_reach (W\<lparr>sw_sched := s\<rparr>) ({#t#} + A) D"
    using sched_reach.schedule [OF assms(1,4,6)] s by simp
  with stuck show ?thesis by (simp add: s Scheduler_destroy_def sched_stopping_def)
qed

end
