(* ===== verification/Condition_Timers.thy ===== *)
theory Condition_Timers
  imports Timers
begin

text \<open>
  \<open>src/CoroutineLibrary/timer.cpp\<close>: \<open>addConditionTimer\<close> and \<open>OnTimer\<close>. The callback of such a timer
  is the function object \<open>std::bind(&OnTimer, weak_cond, cb)\<close>; function objects have names, and the table says which
  of them were made by \<open>bind\<close> and with what. \<open>alive\<close> says which objects still live when the callback is called, what
  \<open>weak_cond.lock()\<close> asks.
\<close>

section \<open>Condition timers\<close>

type_synonym bindings = "nat \<Rightarrow> (nat \<times> nat) option"

text \<open>The function that is called, none when the object is gone.\<close>

definition OnTimer :: "(nat \<Rightarrow> bool) \<Rightarrow> nat \<Rightarrow> nat \<Rightarrow> nat option" where
  "OnTimer alive weak_cond cb = (if alive weak_cond then Some cb else None)"

text \<open>\<open>fn\<close>: the name of the new function object.\<close>

definition addConditionTimer ::
  "int \<Rightarrow> nat \<Rightarrow> nat \<Rightarrow> nat \<Rightarrow> bool \<Rightarrow> nat \<Rightarrow> bindings \<times> timer_manager \<Rightarrow> bool \<times> nat \<times> bindings \<times> timer_manager" where
  "addConditionTimer now ms cb weak_cond recurring fn bm =
     (case addTimer now ms fn recurring (snd bm) of
        (front, t, m) \<Rightarrow> (front, t, (fst bm)(fn \<mapsto> (weak_cond, cb)), m))"

text \<open>Calling a function object.\<close>

definition call_object :: "(nat \<Rightarrow> bool) \<Rightarrow> bindings \<Rightarrow> nat \<Rightarrow> nat option" where
  "call_object alive b fn = (case b fn of None \<Rightarrow> Some fn | Some (weak_cond, cb) \<Rightarrow> OnTimer alive weak_cond cb)"

text \<open>
  The callbacks of the expired timers, called one after the other: which functions run.
\<close>

definition call_all :: "(nat \<Rightarrow> bool) \<Rightarrow> bindings \<Rightarrow> nat option list \<Rightarrow> nat list" where
  "call_all alive b cbs = List.map_filter (call_object alive b) (List.map_filter id cbs)"

text \<open>
  A condition timer runs its function by the first look at the timers from its deadline on exactly when the
  object still lives then, unless another timer has the same deadline, in which case it never runs.
\<close>

lemma condition_timer_guarded:
  assumes "timers_inv m" and "no_instant_repeat now' m" and "\<forall>t \<in> set (m_timers m). tm_cb (tm_store m t) \<noteq> Some fn"
    and "addConditionTimer now ms cb weak_cond recurring fn (b, m) = (front, t, b', m1)" and "recurring \<longrightarrow> now' < after_ms now' ms"
    and "m_previouseTime m - ms_ns (60 * 60 * 1000) \<le> now''" 
    and "\<forall>t \<in> set (m_timers m). \<forall>x. tm_cb (tm_store m t) = Some x \<longrightarrow> call_object alive b x \<noteq> Some cb"
  shows "\<exists>cbs m2. listExpiredCb now' now'' m1 = Some (cbs, m2) \<and>
    (cb \<in> set (call_all alive b' cbs) \<longleftrightarrow>
       after_ms now ms \<le> now' \<and> after_ms now ms \<notin> deadline m ` set (m_timers m) \<and> alive weak_cond)"
proof -
  have a: "addTimer now ms fn recurring m = (front, t, m1)" and b': "b' = b(fn \<mapsto> (weak_cond, cb))"
    using assms(4) by (auto simp: addConditionTimer_def split: prod.splits)
  obtain cbs m2 where l: "listExpiredCb now' now'' m1 = Some (cbs, m2)"
      "Some fn \<in> set cbs \<longleftrightarrow> after_ms now ms \<le> now' \<and> after_ms now ms \<notin> deadline m ` set (m_timers m)"
      "set cbs \<subseteq> insert (Some fn) ((\<lambda>t. tm_cb (tm_store m t)) ` set (m_timers m))"
    using timer_collected [OF assms(1-3) a assms(5,6)] by blast
  have "cb \<in> set (call_all alive b' cbs) \<longleftrightarrow> (\<exists>x. Some x \<in> set cbs \<and> call_object alive b' x = Some cb)"
    by (force simp: call_all_def List.map_filter_def)
  also have "\<dots> \<longleftrightarrow> Some fn \<in> set cbs \<and> alive weak_cond"
  proof -
    have fn: "call_object alive b' fn = Some cb \<longleftrightarrow> alive weak_cond" by (simp add: call_object_def OnTimer_def b')
    have "x = fn" if "Some x \<in> set cbs" "call_object alive b' x = Some cb" for x
    proof (rule ccontr)
      assume x: "x \<noteq> fn"
      then have "Some x \<in> (\<lambda>t. tm_cb (tm_store m t)) ` set (m_timers m)" using l(3) that(1) by blast
      then obtain t where "t \<in> set (m_timers m)" "tm_cb (tm_store m t) = Some x" by force
      moreover have "call_object alive b x = Some cb" using that(2) x by (simp add: call_object_def b')
      ultimately show False using assms(7) by blast
    qed
    with fn show ?thesis by blast
  qed
  finally show ?thesis using l by blast
qed

end
