(* ===== verification/Rate_Race.thy ===== *)
theory Rate_Race
  imports Gw_Filters
begin

text \<open>
  \<open>RateLimitFilter::apply\<close> of \<open>src/gateway/gateway_filter_chain.cpp\<close> when several handlers are in it at once.
  There is one filter for the process, its fields are plain, and no lock is taken: a step is one access to a
  field, and the accesses of different handlers come in any order. This is the mildest reading of a data race,
  which C++ leaves undefined. A handler that is left alone computes \<open>rate_apply\<close>.
\<close>

section \<open>Accesses\<close>

text \<open>What a handler does next; \<open>Store_count v\<close> is the second half of \<open>m_count++\<close>.\<close>

datatype rate_point =
    Look_sec | Set_sec | Reset_count | Load_count | Store_count int | Check_count | Answered verdict

definition rate_enter :: "gateway_config \<Rightarrow> rate_point" where
  "rate_enter cfg = (if m_max_qps cfg \<le> 0 then Answered (Inr ()) else Look_sec)"

fun rate_access :: "gateway_config \<Rightarrow> int \<Rightarrow> rate_limit \<times> rate_point \<Rightarrow> rate_limit \<times> rate_point" where
  "rate_access cfg now (r, Look_sec) = (r, if now \<noteq> m_last_sec r then Set_sec else Load_count)"
| "rate_access cfg now (r, Set_sec) = (r\<lparr>m_last_sec := now\<rparr>, Reset_count)"
| "rate_access cfg now (r, Reset_count) = (r\<lparr>m_count := 0\<rparr>, Load_count)"
| "rate_access cfg now (r, Load_count) = (r, Store_count (i32 (m_count r + 1)))"
| "rate_access cfg now (r, Store_count v) = (r\<lparr>m_count := v\<rparr>, Check_count)"
| "rate_access cfg now (r, Check_count) =
     (r, Answered (if m_count r > m_max_qps cfg
                   then Inl (HTTP_TOO_MANY_REQUESTS, ''too many requests'' @ [chr_lf]) else Inr ()))"
| "rate_access cfg now (r, Answered v) = (r, Answered v)"

text \<open>The handlers with what each read from the clock; the list says whose turn it is.\<close>

type_synonym rate_handlers = "rate_limit \<times> (int \<times> rate_point) list"

definition race_step :: "gateway_config \<Rightarrow> rate_handlers \<Rightarrow> nat \<Rightarrow> rate_handlers" where
  "race_step cfg w i =
     (if i < length (snd w)
      then (let now = fst (snd w ! i); (r, p) = rate_access cfg now (fst w, snd (snd w ! i)) in (r, (snd w)[i := (now, p)]))
      else w)"

definition race_run :: "gateway_config \<Rightarrow> rate_handlers \<Rightarrow> nat list \<Rightarrow> rate_handlers" where
  "race_run cfg w turns = foldl (race_step cfg) w turns"

section \<open>A handler left alone\<close>

text \<open>Without interruption the accesses amount to \<open>rate_apply\<close>.\<close>

lemma rate_access_alone:
  "(rate_access cfg now ^^ 6) (r, rate_enter cfg) = (snd (rate_apply cfg now r), Answered (fst (rate_apply cfg now r)))"
  by (simp add: rate_enter_def rate_apply_def numeral_eq_Suc Let_def)

section \<open>Handlers in one second\<close>

fun rate_counted :: "rate_point \<Rightarrow> bool" where
  "rate_counted Check_count = True"
| "rate_counted (Answered v) = True"
| "rate_counted _ = False"

fun rate_point_ok :: "int \<Rightarrow> rate_point \<Rightarrow> bool" where
  "rate_point_ok n Set_sec = False"
| "rate_point_ok n Reset_count = False"
| "rate_point_ok n (Store_count v) = (0 \<le> v \<and> v \<le> n + 1)"
| "rate_point_ok n (Answered v) = (v = Inr ())"
| "rate_point_ok n _ = True"

definition counted :: "(int \<times> rate_point) list \<Rightarrow> int" where
  "counted hs = int (length (filter (rate_counted \<circ> snd) hs))"

text \<open>The counter is not above its first value and the handlers that have counted, and nobody was rejected.\<close>

definition race_inv :: "int \<Rightarrow> int \<Rightarrow> rate_handlers \<Rightarrow> bool" where
  "race_inv now c w \<longleftrightarrow>
     m_last_sec (fst w) = now \<and> 0 \<le> m_count (fst w) \<and> m_count (fst w) \<le> c + counted (snd w) \<and>
     (\<forall>h \<in> set (snd w). fst h = now \<and> rate_point_ok (c + counted (snd w)) (snd h))"

lemma rate_point_ok_mono: "rate_point_ok n p \<Longrightarrow> n \<le> m \<Longrightarrow> rate_point_ok m p"
  by (cases p) auto

lemma counted_le: "counted hs \<le> int (length hs)"
  by (simp add: counted_def)

lemma counted_update:
  assumes "i < length hs"
  shows "counted (hs[i := (t, p)]) = counted hs - of_bool (rate_counted (snd (hs ! i))) + of_bool (rate_counted p)"
  using assms
proof (induction hs arbitrary: i)
  case (Cons h hs)
  then show ?case by (cases i) (auto simp: counted_def)
qed simp

lemma counted_less:
  assumes "i < length hs" and "\<not> rate_counted (snd (hs ! i))"
  shows "counted hs + 1 \<le> int (length hs)"
  using counted_update [OF assms(1), of "fst (hs ! i)" Check_count] assms(2)
    counted_le [of "hs[i := (fst (hs ! i), Check_count)]"] by simp

lemma rate_access_ok:
  assumes "rate_access cfg (m_last_sec r) (r, p) = (r', p')"
    and "m_count r \<le> n" and "n \<le> m_max_qps cfg" and "rate_point_ok n p"
    and "0 \<le> m_count r" and "\<not> rate_counted p \<longrightarrow> n + 1 < 2 ^ 31"
  shows "m_last_sec r' = m_last_sec r \<and> 0 \<le> m_count r' \<and> m_count r' \<le> n - of_bool (rate_counted p) + of_bool (rate_counted p') \<and>
    rate_point_ok (n - of_bool (rate_counted p) + of_bool (rate_counted p')) p' \<and> (rate_counted p \<longrightarrow> rate_counted p')"
  using assms by (cases p) (auto split: if_splits)

lemma race_step_inv:
  assumes "race_inv now c w" and "c + int (length (snd w)) \<le> m_max_qps cfg" and "m_max_qps cfg < 2 ^ 31"
  shows "race_inv now c (race_step cfg w i) \<and> length (snd (race_step cfg w i)) = length (snd w)"
proof (cases "i < length (snd w)")
  case True
  obtain t p where h: "snd w ! i = (t, p)" by fastforce
  let ?n = "c + counted (snd w)"
  have mem: "(t, p) \<in> set (snd w)" using True h by (metis nth_mem)
  with assms(1) have t: "t = m_last_sec (fst w)" "now = t" and p: "rate_point_ok ?n p"
    unfolding race_inv_def by force+
  obtain r' p' where a: "rate_access cfg t (fst w, p) = (r', p')" by fastforce
  have bounds: "m_count (fst w) \<le> ?n" "?n \<le> m_max_qps cfg"
    using assms counted_le [of "snd w"] by (auto simp: race_inv_def)
  have pos: "0 \<le> m_count (fst w)" using assms(1) by (simp add: race_inv_def)
  have room: "\<not> rate_counted p \<longrightarrow> ?n + 1 < 2 ^ 31"
    using counted_less [OF True] h assms(2,3) by auto
  note ok = rate_access_ok [OF a [unfolded t(1)] bounds p pos room]
  have n': "c + counted ((snd w)[i := (t, p')]) = ?n - of_bool (rate_counted p) + of_bool (rate_counted p')"
    using counted_update [OF True, of t p'] h by simp
  have grow: "?n \<le> c + counted ((snd w)[i := (t, p')])" using ok n' by auto
  have "fst h = now \<and> rate_point_ok (c + counted ((snd w)[i := (t, p')])) (snd h)"
    if "h \<in> set ((snd w)[i := (t, p')])" for h
  proof -
    from that set_update_subset_insert [of "snd w" i "(t, p')"] consider "h = (t, p')" | "h \<in> set (snd w)" by blast
    then show ?thesis
    proof cases
      case 1
      have "rate_point_ok (c + counted ((snd w)[i := (t, p')])) p'" using ok unfolding n' by blast
      with 1 t show ?thesis by simp
    next
      case 2
      with assms(1) grow show ?thesis unfolding race_inv_def by (blast intro: rate_point_ok_mono)
    qed
  qed
  moreover have "m_count r' \<le> c + counted ((snd w)[i := (t, p')])" using ok unfolding n' by blast
  ultimately show ?thesis using ok t True h a by (simp add: race_inv_def race_step_def)
qed (use assms in \<open>simp add: race_step_def\<close>)

lemma race_run_inv:
  "race_inv now c w \<Longrightarrow> c + int (length (snd w)) \<le> m_max_qps cfg \<Longrightarrow> m_max_qps cfg < 2 ^ 31 \<Longrightarrow>
     race_inv now c (race_run cfg w turns)"
proof (induction turns arbitrary: w)
  case (Cons i turns)
  then show ?case using race_step_inv [of now c w cfg i] by (simp add: race_run_def)
qed (simp add: race_run_def)

text \<open>
  In one second nobody is rejected while the limit has room for all the handlers, however they interleave: what
  the race loses makes the filter more generous.
\<close>

lemma race_never_rejects_early:
  assumes "m_last_sec r = now" and "m_count r + int k \<le> m_max_qps cfg" and "0 \<le> m_count r" and "m_max_qps cfg < 2 ^ 31"
    and "race_run cfg (r, replicate k (now, Look_sec)) turns = (r', hs)" and "(t, Answered v) \<in> set hs"
  shows "v = Inr ()"
proof -
  have "race_inv now (m_count r) (r, replicate k (now, Look_sec))"
    using assms(1,3) by (simp add: race_inv_def counted_def)
  with race_run_inv [of now "m_count r" _ cfg turns] assms(2,4,5) have "race_inv now (m_count r) (r', hs)" by force
  with assms(6) show ?thesis by (force simp: race_inv_def)
qed

text \<open>
  But an increment can be lost, and then more than the limit pass: here the limit is 1, and both of two requests
  of one second pass.
\<close>

lemma race_exceeds_limit:
  "snd (race_run (GatewayConfig_init\<lparr>m_max_qps := 1\<rparr>) (\<lparr>m_last_sec = 7, m_count = 0\<rparr>, replicate 2 (7, Look_sec))
     [0, 1, 0, 1, 0, 1, 0, 1]) = [(7, Answered (Inr ())), (7, Answered (Inr ()))]"
  by (simp add: race_run_def race_step_def numeral_eq_Suc)

text \<open>The clearing at the turn of a second can come late, too, and wipe out a request that was counted.\<close>

lemma race_reset_late:
  "race_run (GatewayConfig_init\<lparr>m_max_qps := 1\<rparr>) (rate_limit_init, replicate 2 (7, Look_sec))
     [0, 1, 0, 0, 0, 0, 0, 1, 1, 1, 1, 1] =
   (\<lparr>m_last_sec = 7, m_count = 1\<rparr>, [(7, Answered (Inr ())), (7, Answered (Inr ()))])"
  by (simp add: race_run_def race_step_def rate_limit_init_def numeral_eq_Suc)

end
