(* ===== verification/Threads.thy ===== *)
theory Threads
  imports Gw_Prelude
begin

text \<open>
  \<open>src/CoroutineLibrary/thread.h\<close> and \<open>thread.cpp\<close>: the semaphore made of a mutex and a condition variable, and
  the start of a thread, whose constructor waits for it. A step is what a thread does while it holds the
  mutex, or one statement of \<open>run\<close>; the steps of different threads come in any order.
\<close>

section \<open>The semaphore\<close>

text \<open>
  Where a thread in \<open>wait\<close> is: asleep in \<open>cv.wait\<close>, or awake there and about to look at the counter again,
  because it was notified or for no reason.
\<close>

datatype wait_state = Asleep | Awake

record 'w semaphore =
  sem_count :: int
  sem_waits :: "'w \<rightharpoonup> wait_state"

definition Semaphore_new :: "int \<Rightarrow> 'w semaphore" where
  "Semaphore_new n = \<lparr>sem_count = n, sem_waits = Map.empty\<rparr>"

text \<open>The loop of \<open>wait\<close>, when thread \<open>w\<close> has the mutex: whether it returns.\<close>

definition wait_look :: "'w \<Rightarrow> 'w semaphore \<Rightarrow> bool \<times> 'w semaphore" where
  "wait_look w s =
     (if sem_count s = 0 then (False, s\<lparr>sem_waits := (sem_waits s)(w \<mapsto> Asleep)\<rparr>)
      else (True, s\<lparr>sem_count := i32 (sem_count s - 1), sem_waits := (sem_waits s)(w := None)\<rparr>))"

definition wait_wakes :: "'w \<Rightarrow> 'w semaphore \<Rightarrow> 'w semaphore" where
  "wait_wakes w s = s\<lparr>sem_waits := (sem_waits s)(w \<mapsto> Awake)\<rparr>"

text \<open>\<open>signal\<close>; \<open>chosen\<close>: the thread that \<open>notify_one\<close> wakes, if one is asleep.\<close>

definition signal_one :: "'w option \<Rightarrow> 'w semaphore \<Rightarrow> 'w semaphore" where
  "signal_one chosen s =
     (let s = s\<lparr>sem_count := i32 (sem_count s + 1)\<rparr>
      in case chosen of None \<Rightarrow> s | Some w \<Rightarrow> wait_wakes w s)"

definition may_choose :: "'w option \<Rightarrow> 'w semaphore \<Rightarrow> bool" where
  "may_choose chosen s \<longleftrightarrow>
     (case chosen of None \<Rightarrow> (\<forall>w. sem_waits s w \<noteq> Some Asleep) | Some w \<Rightarrow> sem_waits s w = Some Asleep)"

text \<open>The states of a semaphore, with how often \<open>signal\<close> was called and how often \<open>wait\<close> returned.\<close>

inductive sem_reach :: "int \<Rightarrow> 'w semaphore \<Rightarrow> nat \<Rightarrow> nat \<Rightarrow> bool" for n :: int where
  new: "sem_reach n (Semaphore_new n) 0 0"
| enters: "sem_reach n s sig ret \<Longrightarrow> sem_waits s w = None \<Longrightarrow> wait_look w s = (r, s') \<Longrightarrow>
    sem_reach n s' sig (if r then Suc ret else ret)"
| wakes: "sem_reach n s sig ret \<Longrightarrow> sem_waits s w = Some Asleep \<Longrightarrow> sem_reach n (wait_wakes w s) sig ret"
| looks: "sem_reach n s sig ret \<Longrightarrow> sem_waits s w = Some Awake \<Longrightarrow> wait_look w s = (r, s') \<Longrightarrow>
    sem_reach n s' sig (if r then Suc ret else ret)"
| signals: "sem_reach n s sig ret \<Longrightarrow> may_choose chosen s \<Longrightarrow> sem_reach n (signal_one chosen s) (Suc sig) ret"

definition awake :: "'w semaphore \<Rightarrow> 'w set" where
  "awake s = {w. sem_waits s w = Some Awake}"

definition sem_inv :: "int \<Rightarrow> 'w semaphore \<Rightarrow> nat \<Rightarrow> nat \<Rightarrow> bool" where
  "sem_inv n s sig ret \<longleftrightarrow> 0 \<le> sem_count s \<and> sem_count s + int ret = n + int sig \<and> finite (dom (sem_waits s)) \<and>
     ((\<exists>w. sem_waits s w = Some Asleep) \<longrightarrow> sem_count s \<le> int (card (awake s)))"

lemma awake_simps:
  "awake (wait_wakes w s) = insert w (awake s)"
  "awake (s\<lparr>sem_count := c\<rparr>) = awake s"
  "awake (s\<lparr>sem_waits := (sem_waits s)(w \<mapsto> Asleep)\<rparr>) = awake s - {w}"
  "awake (s\<lparr>sem_count := c, sem_waits := (sem_waits s)(w := None)\<rparr>) = awake s - {w}"
  by (auto simp: awake_def wait_wakes_def)

lemma awake_finite: "finite (dom (sem_waits s)) \<Longrightarrow> finite (awake s)"
  by (rule finite_subset [of _ "dom (sem_waits s)"]) (auto simp: awake_def)

lemma look_inv:
  assumes "sem_inv n s sig ret" and "sem_waits s w \<noteq> Some Asleep" and "wait_look w s = (r, s')"
    and "n + int sig < 2 ^ 31"
  shows "sem_inv n s' sig (if r then Suc ret else ret)"
proof (cases "sem_count s = 0")
  case True
  then show ?thesis using assms(1,3) by (auto simp: wait_look_def sem_inv_def)
next
  case False
  with assms(3) have s': "r" "s' = s\<lparr>sem_count := i32 (sem_count s - 1), sem_waits := (sem_waits s)(w := None)\<rparr>"
    by (simp_all add: wait_look_def)
  have c: "i32 (sem_count s - 1) = sem_count s - 1" using assms(1,4) False by (simp add: sem_inv_def)
  have "int (card (awake s)) - 1 \<le> int (card (awake s - {w}))"
    by (cases "w \<in> awake s") (simp_all add: card_Diff_singleton)
  then show ?thesis using assms(1) False by (auto simp: s' c sem_inv_def awake_simps)
qed

lemma wakes_inv:
  assumes "sem_inv n s sig ret"
  shows "sem_inv n (wait_wakes w s) sig ret"
proof -
  have "finite (awake s)" by (rule awake_finite) (use assms in \<open>simp add: sem_inv_def\<close>)
  then have "card (awake s) \<le> card (insert w (awake s))" by (simp add: card_insert_le)
  then show ?thesis using assms by (auto simp: sem_inv_def awake_simps) (auto simp: wait_wakes_def split: if_splits)
qed

lemma signal_inv:
  assumes "sem_inv n s sig ret" and "may_choose chosen s" and "n + int (Suc sig) < 2 ^ 31"
  shows "sem_inv n (signal_one chosen s) (Suc sig) ret"
proof (cases chosen)
  have c: "i32 (sem_count s + 1) = sem_count s + 1" using assms(1,3) by (simp add: sem_inv_def)
  case None
  then show ?thesis using assms c by (auto simp: sem_inv_def signal_one_def may_choose_def)
next
  have c: "i32 (sem_count s + 1) = sem_count s + 1" using assms(1,3) by (simp add: sem_inv_def)
  case (Some w)
  then have "w \<notin> awake s" "sem_waits s w = Some Asleep" using assms(2) by (simp_all add: may_choose_def awake_def)
  moreover have "finite (awake s)" by (rule awake_finite) (use assms(1) in \<open>simp add: sem_inv_def\<close>)
  ultimately have "card (insert w (awake s)) = Suc (card (awake s))" by simp
  then show ?thesis using assms(1) Some \<open>sem_waits s w = Some Asleep\<close>
    by (auto simp: sem_inv_def signal_one_def Let_def awake_simps c) (auto simp: wait_wakes_def)
qed

lemma sem_reach_inv: "sem_reach n s sig ret \<Longrightarrow> 0 \<le> n \<Longrightarrow> n + int sig < 2 ^ 31 \<Longrightarrow> sem_inv n s sig ret"
proof (induction rule: sem_reach.induct)
  case new
  then show ?case by (simp add: sem_inv_def Semaphore_new_def)
next
  case (enters s sig ret w r s')
  then show ?case using look_inv [of n s sig ret w r s'] by simp
next
  case (looks s sig ret w r s')
  then show ?case using look_inv [of n s sig ret w r s'] by simp
qed (simp_all add: wakes_inv signal_inv)

text \<open>
  C30: As long as the counter's first value and the signals together stay below 2 ^ 31, the semaphore counts right and
  loses no wake-up: however the threads interleave and however often they
  wake for no reason, \<open>wait\<close> has returned as often as the counter was given and signalled, less what it
  still holds; and while it holds something and a thread waits, some waiting thread is awake, and when
  it looks it returns.
\<close>

theorem semaphore_sound:
  assumes "sem_reach n s sig ret" and "0 \<le> n" and "n + int sig < 2 ^ 31"
  shows "0 \<le> sem_count s \<and> int ret = n + int sig - sem_count s \<and>
    (0 < sem_count s \<and> dom (sem_waits s) \<noteq> {} \<longrightarrow>
       (\<exists>w. sem_waits s w = Some Awake \<and> fst (wait_look w s)))"
proof -
  have inv: "sem_inv n s sig ret" by (rule sem_reach_inv [OF assms])
  have "\<exists>w. sem_waits s w = Some Awake" if pos: "0 < sem_count s" and ne: "dom (sem_waits s) \<noteq> {}"
  proof (rule ccontr)
    assume none: "\<not> ?thesis"
    with ne obtain w where "sem_waits s w = Some Asleep" by (metis (full_types) domIff ex_in_conv not_None_eq wait_state.exhaust)
    moreover have "awake s = {}" using none by (simp add: awake_def)
    ultimately show False using inv pos by (auto simp: sem_inv_def)
  qed
  then show ?thesis using inv by (auto simp: sem_inv_def wait_look_def)
qed

text \<open>A thread comes first and sleeps, another signals and wakes it.\<close>

definition demo_sem :: "nat semaphore" where
  "demo_sem = signal_one (Some 7) (snd (wait_look 7 (Semaphore_new 0)))"

lemma demo_sem_reach: "sem_reach 0 demo_sem (Suc 0) 0"
proof -
  have "sem_reach 0 (snd (wait_look (7 :: nat) (Semaphore_new 0))) 0 (if False then Suc 0 else 0)"
    by (rule sem_reach.enters [OF sem_reach.new, where w = 7 and r = False]) (simp_all add: wait_look_def Semaphore_new_def)
  then have "sem_reach 0 (snd (wait_look (7 :: nat) (Semaphore_new 0))) 0 0" by simp
  then show ?thesis unfolding demo_sem_def
    by (rule sem_reach.signals) (simp add: may_choose_def wait_look_def Semaphore_new_def)
qed

theorem semaphore_sound_witness:
  "0 = 0 + int (Suc 0) - sem_count demo_sem \<and> (\<exists>w. sem_waits demo_sem w = Some Awake \<and> fst (wait_look w demo_sem))"
proof -
  have "0 < sem_count demo_sem \<and> dom (sem_waits demo_sem) \<noteq> {}"
    by (simp add: demo_sem_def signal_one_def wait_wakes_def wait_look_def Semaphore_new_def)
  then show ?thesis using semaphore_sound [OF demo_sem_reach] by simp
qed

section \<open>Threads\<close>

text \<open>\<open>th_thread\<close>: whether \<open>m_thread\<close> is set; \<open>m_cb\<close> is \<open>None\<close> when it is empty.\<close>

record 'cb thread =
  th_id :: int
  th_thread :: bool
  th_cb :: "'cb option"
  th_name :: string

datatype creator_at = In_create | In_wait | Returned | Threw

datatype run_at =
    Not_run | Set_this | Set_name | Set_id | Set_kernel_name | Take_cb | Signal | Call_cb | Done

text \<open>
  The object, its semaphore, where the constructor and \<open>run\<close> are, the thread-local variables of the new
  thread, its name for the system, its local \<open>cb\<close> and what it has called.
\<close>

record 'cb starting =
  st_obj :: "'cb thread"
  st_sem :: "unit semaphore"
  st_creator :: creator_at
  st_run :: run_at
  st_is_this :: bool
  st_local_name :: string
  st_kernel_name :: string
  st_cb :: "'cb option"
  st_called :: "'cb list"

definition Thread_new :: "'cb \<Rightarrow> string \<Rightarrow> 'cb starting" where
  "Thread_new cb name =
     \<lparr>st_obj = \<lparr>th_id = -1, th_thread = False, th_cb = Some cb, th_name = name\<rparr>, st_sem = Semaphore_new 0,
      st_creator = In_create, st_run = Not_run, st_is_this = False, st_local_name = ''UNKNOWN'',
      st_kernel_name = [], st_cb = None, st_called = []\<rparr>"

text \<open>The statement of \<open>run\<close> the new thread is at; \<open>chosen\<close> as in \<open>signal\<close>.\<close>

definition Thread_run_step :: "int \<Rightarrow> unit option \<Rightarrow> 'cb starting \<Rightarrow> 'cb starting" where
  "Thread_run_step tid chosen s =
     (case st_run s of
        Not_run \<Rightarrow> s
      | Set_this \<Rightarrow> s\<lparr>st_is_this := True, st_run := Set_name\<rparr>
      | Set_name \<Rightarrow> s\<lparr>st_local_name := th_name (st_obj s), st_run := Set_id\<rparr>
      | Set_id \<Rightarrow> s\<lparr>st_obj := st_obj s\<lparr>th_id := tid\<rparr>, st_run := Set_kernel_name\<rparr>
      | Set_kernel_name \<Rightarrow> s\<lparr>st_kernel_name := take 15 (th_name (st_obj s)), st_run := Take_cb\<rparr>
      | Take_cb \<Rightarrow> s\<lparr>st_cb := th_cb (st_obj s), st_obj := st_obj s\<lparr>th_cb := st_cb s\<rparr>, st_run := Signal\<rparr>
      | Signal \<Rightarrow> s\<lparr>st_sem := signal_one chosen (st_sem s), st_run := Call_cb\<rparr>
      | Call_cb \<Rightarrow> s\<lparr>st_called := st_called s @ (case st_cb s of None \<Rightarrow> [] | Some cb \<Rightarrow> [cb]), st_run := Done\<rparr>
      | Done \<Rightarrow> s)"

text \<open>The constructor: \<open>pthread_create\<close> with its result, then \<open>m_semaphore.wait()\<close>.\<close>

definition Thread_create :: "int \<Rightarrow> 'cb starting \<Rightarrow> 'cb starting" where
  "Thread_create rt s =
     (if rt \<noteq> 0 then s\<lparr>st_creator := Threw\<rparr>
      else s\<lparr>st_obj := st_obj s\<lparr>th_thread := True\<rparr>, st_creator := In_wait, st_run := Set_this\<rparr>)"

definition Thread_look :: "'cb starting \<Rightarrow> 'cb starting" where
  "Thread_look s =
     (case wait_look () (st_sem s) of (r, sem) \<Rightarrow> s\<lparr>st_sem := sem, st_creator := (if r then Returned else In_wait)\<rparr>)"

inductive start_step :: "int \<Rightarrow> 'cb starting \<Rightarrow> 'cb starting \<Rightarrow> bool" for tid :: int where
  create: "st_creator s = In_create \<Longrightarrow> start_step tid s (Thread_create rt s)"
| look: "st_creator s = In_wait \<Longrightarrow> sem_waits (st_sem s) () \<noteq> Some Asleep \<Longrightarrow> start_step tid s (Thread_look s)"
| wake: "st_creator s = In_wait \<Longrightarrow> sem_waits (st_sem s) () = Some Asleep \<Longrightarrow>
    start_step tid s (s\<lparr>st_sem := wait_wakes () (st_sem s)\<rparr>)"
| run: "st_run s \<notin> {Not_run, Done} \<Longrightarrow> may_choose chosen (st_sem s) \<Longrightarrow> start_step tid s (Thread_run_step tid chosen s)"

inductive_cases start_stepE: "start_step tid s s'"

abbreviation started :: "int \<Rightarrow> 'cb \<Rightarrow> string \<Rightarrow> 'cb starting \<Rightarrow> bool" where
  "started tid cb name s \<equiv> (start_step tid)\<^sup>*\<^sup>* (Thread_new cb name) s"

text \<open>How far \<open>run\<close> is.\<close>

fun run_pos :: "run_at \<Rightarrow> nat" where
  "run_pos Not_run = 0" | "run_pos Set_this = 1" | "run_pos Set_name = 2" | "run_pos Set_id = 3"
| "run_pos Set_kernel_name = 4" | "run_pos Take_cb = 5" | "run_pos Signal = 6" | "run_pos Call_cb = 7" | "run_pos Done = 8"

definition start_inv :: "int \<Rightarrow> 'cb \<Rightarrow> string \<Rightarrow> 'cb starting \<Rightarrow> bool" where
  "start_inv tid cb name s \<longleftrightarrow>
     (st_run s = Not_run \<longleftrightarrow> st_creator s \<in> {In_create, Threw}) \<and>
     (st_creator s = Returned \<longrightarrow> 7 \<le> run_pos (st_run s)) \<and>
     th_name (st_obj s) = name \<and>
     (st_is_this s \<longleftrightarrow> 2 \<le> run_pos (st_run s)) \<and>
     (3 \<le> run_pos (st_run s) \<longrightarrow> st_local_name s = name) \<and>
     (4 \<le> run_pos (st_run s) \<longrightarrow> th_id (st_obj s) = tid) \<and>
     (5 \<le> run_pos (st_run s) \<longrightarrow> st_kernel_name s = take 15 name) \<and>
     (if 6 \<le> run_pos (st_run s) then th_cb (st_obj s) = None \<and> st_cb s = Some cb
      else th_cb (st_obj s) = Some cb \<and> st_cb s = None) \<and>
     st_called s = (if st_run s = Done then [cb] else []) \<and>
     sem_count (st_sem s) = (if 7 \<le> run_pos (st_run s) \<and> st_creator s \<noteq> Returned then 1 else 0) \<and>
     (sem_waits (st_sem s) () = Some Asleep \<longrightarrow> st_creator s = In_wait \<and> sem_count (st_sem s) = 0)"

lemma start_step_inv: "start_step tid s s' \<Longrightarrow> start_inv tid cb name s \<Longrightarrow> start_inv tid cb name s'"
proof (induction rule: start_step.induct)
  case (create s rt)
  then show ?case by (simp add: Thread_create_def start_inv_def)
next
  case (look s)
  then show ?case by (auto simp: Thread_look_def wait_look_def start_inv_def)
next
  case (wake s)
  then show ?case by (auto simp: wait_wakes_def start_inv_def)
next
  case (run s chosen)
  then show ?case
    by (cases "st_run s")
      (auto simp: Thread_run_step_def start_inv_def signal_one_def wait_wakes_def may_choose_def split: option.splits)
qed

lemma started_inv: "started tid cb name s \<Longrightarrow> start_inv tid cb name s"
proof (induction rule: rtranclp_induct)
  case base
  show ?case by (simp add: start_inv_def Thread_new_def Semaphore_new_def)
qed (rule start_step_inv)

text \<open>What is still to do, apart from waking up.\<close>

definition start_left :: "'cb starting \<Rightarrow> nat" where
  "start_left s = (8 - run_pos (st_run s)) * 4 + (if st_creator s = In_create then 40 else if st_creator s = In_wait then 3 else 0)
     - (if st_creator s = In_wait \<and> sem_waits (st_sem s) () = Some Awake then 1 else 0)"

definition start_over :: "'cb starting \<Rightarrow> bool" where
  "start_over s \<longleftrightarrow> st_creator s = Threw \<or> (st_creator s = Returned \<and> st_run s = Done)"

lemma start_progress:
  assumes "start_inv tid cb name s" and "\<not> start_over s"
  shows "\<exists>s'. start_step tid s s' \<and> start_left s' < start_left s"
proof -
  consider (create) "st_creator s = In_create" | (run) "st_run s \<notin> {Not_run, Done}"
    | (sleeps) "st_run s = Done" "st_creator s = In_wait"
    using assms by (cases "st_creator s") (auto simp: start_inv_def start_over_def)
  then show ?thesis
  proof cases
    case create
    then have "start_left (Thread_create 0 s) < start_left s"
      using assms(1) by (simp add: start_left_def Thread_create_def start_inv_def)
    then show ?thesis using start_step.create [OF create] by blast
  next
    case run
    define chosen where "chosen = (if sem_waits (st_sem s) () = Some Asleep then Some () else None)"
    have "may_choose chosen (st_sem s)" by (auto simp: chosen_def may_choose_def)
    moreover have "start_left (Thread_run_step tid chosen s) < start_left s"
      using run assms(1)
      by (cases "st_run s")
        (auto simp: start_left_def Thread_run_step_def start_inv_def signal_one_def wait_wakes_def chosen_def)
    ultimately show ?thesis using start_step.run [OF run] by blast
  next
    case sleeps
    then have "sem_count (st_sem s) = 1" "sem_waits (st_sem s) () \<noteq> Some Asleep" using assms(1) by (auto simp: start_inv_def)
    moreover from this have "start_left (Thread_look s) < start_left s"
      using sleeps by (auto simp: start_left_def Thread_look_def wait_look_def)
    ultimately show ?thesis using start_step.look [of s tid] sleeps(2) by blast
  qed
qed

lemma start_ends: "start_inv tid cb name s \<Longrightarrow> \<exists>s'. (start_step tid)\<^sup>*\<^sup>* s s' \<and> start_over s'"
proof (induction "start_left s" arbitrary: s rule: less_induct)
  case less
  show ?case
  proof (cases "start_over s")
    case False
    then obtain s1 where s1: "start_step tid s s1" "start_left s1 < start_left s"
      using start_progress [OF less.prems] by blast
    from less.hyps [OF s1(2) start_step_inv [OF s1(1) less.prems]] s1(1) show ?thesis
      by (meson converse_rtranclp_into_rtranclp)
  qed auto
qed

text \<open>
  C31: A thread's constructor returns only when the thread is set up: it knows its object, has its name and
  its id and has taken the function, whatever the interleaving; the function is called at most once, by
  the new thread and not before the constructor may return; and no state is a dead end: the constructor
  can always still throw (when no thread can be made) or return, with the function called.
\<close>

theorem thread_start:
  assumes "started tid cb name s"
  shows "(st_creator s = Returned \<longrightarrow>
      st_is_this s \<and> st_local_name s = name \<and> st_kernel_name s = take 15 name \<and>
      th_id (st_obj s) = tid \<and> th_cb (st_obj s) = None) \<and>
    st_called s = (if st_run s = Done then [cb] else []) \<and>
    (\<exists>s'. (start_step tid)\<^sup>*\<^sup>* s s' \<and>
       (st_creator s' = Threw \<and> st_called s' = [] \<or> st_creator s' = Returned \<and> st_called s' = [cb]))"
proof -
  have inv: "start_inv tid cb name s" by (rule started_inv [OF assms])
  obtain s' where s': "(start_step tid)\<^sup>*\<^sup>* s s'" "start_over s'" using start_ends [OF inv] by blast
  have "start_inv tid cb name s'" by (rule started_inv [OF rtranclp_trans [OF assms s'(1)]])
  then have last: "st_creator s' = Threw \<and> st_called s' = [] \<or> st_creator s' = Returned \<and> st_called s' = [cb]"
    using s'(2) by (auto simp: start_inv_def start_over_def)
  have "st_called s = (if st_run s = Done then [cb] else [])" using inv by (simp add: start_inv_def)
  moreover have "st_creator s = Returned \<longrightarrow>
      st_is_this s \<and> st_local_name s = name \<and> st_kernel_name s = take 15 name \<and>
      th_id (st_obj s) = tid \<and> th_cb (st_obj s) = None"
    using inv by (auto simp: start_inv_def)
  ultimately show ?thesis using s'(1) last by blast
qed

definition demo_start :: "string starting" where
  "demo_start = Thread_look (Thread_create 0 (Thread_new ''work'' ''worker''))"

theorem thread_start_witness:
  "\<exists>s'. (start_step 42)\<^sup>*\<^sup>* demo_start s' \<and>
     (st_creator s' = Threw \<and> st_called s' = [] \<or> st_creator s' = Returned \<and> st_called s' = [''work''])"
proof -
  have "start_step 42 (Thread_new ''work'' ''worker'') (Thread_create 0 (Thread_new ''work'' ''worker''))"
    by (rule start_step.create) (simp add: Thread_new_def)
  moreover have "start_step 42 (Thread_create 0 (Thread_new ''work'' ''worker'')) demo_start"
    unfolding demo_start_def by (rule start_step.look) (simp_all add: Thread_create_def Thread_new_def Semaphore_new_def)
  ultimately have "started 42 ''work'' ''worker'' demo_start" by (meson converse_rtranclp_into_rtranclp rtranclp.rtrancl_refl)
  from thread_start [OF this] show ?thesis by blast
qed

section \<open>Joining\<close>

text \<open>What is asked of the system; \<open>rt\<close> is what \<open>pthread_join\<close> returns. \<open>Inl\<close> is the exception.\<close>

datatype thread_call = Joined | Detached

datatype thread_error = Pthread_join_error

definition Thread_join :: "int \<Rightarrow> 'cb thread \<Rightarrow> thread_error + 'cb thread \<times> thread_call list" where
  "Thread_join rt t =
     (if th_thread t
      then (if rt \<noteq> 0 then Inl Pthread_join_error else Inr (t\<lparr>th_thread := False\<rparr>, [Joined]))
      else Inr (t, []))"

definition Thread_destroy :: "'cb thread \<Rightarrow> 'cb thread \<times> thread_call list" where
  "Thread_destroy t = (if th_thread t then (t\<lparr>th_thread := False\<rparr>, [Detached]) else (t, []))"

text \<open>The end of \<open>Scheduler::stop\<close>: all threads of the pool are joined, one after the other.\<close>

fun join_threads :: "int list \<Rightarrow> 'cb thread list \<Rightarrow> thread_error + 'cb thread list \<times> thread_call list" where
  "join_threads rts [] = Inr ([], [])"
| "join_threads rts (t # ts) =
     (case Thread_join (case rts of [] \<Rightarrow> 0 | r # _ \<Rightarrow> r) t of
        Inl e \<Rightarrow> Inl e
      | Inr (t, calls) \<Rightarrow> map_sum id (map_prod (Cons t) (append calls)) (join_threads (drop 1 rts) ts))"

text \<open>The name of a thread: the static functions and the thread-local variables they use.\<close>

record name_locals =
  nl_thread :: "nat option"
  nl_name :: string

definition SetName :: "string \<Rightarrow> (nat \<Rightarrow> 'cb thread) \<times> name_locals \<Rightarrow> (nat \<Rightarrow> 'cb thread) \<times> name_locals" where
  "SetName name s =
     (let threads = (case nl_thread (snd s) of None \<Rightarrow> fst s | Some t \<Rightarrow> (fst s)(t := (fst s t)\<lparr>th_name := name\<rparr>))
      in (threads, snd s\<lparr>nl_name := name\<rparr>))"

definition GetName :: "name_locals \<Rightarrow> string" where
  "GetName l = nl_name l"

text \<open>Every thread is joined or detached once, whatever is done with it before it is destroyed.\<close>

fun join_often :: "int list \<Rightarrow> 'cb thread \<Rightarrow> 'cb thread \<times> thread_call list" where
  "join_often [] t = (t, [])"
| "join_often (rt # rts) t =
     (case Thread_join rt t of
        Inl _ \<Rightarrow> join_often rts t
      | Inr (t, calls) \<Rightarrow> map_prod id (append calls) (join_often rts t))"

lemma join_often_off: "\<not> th_thread t \<Longrightarrow> join_often rts t = (t, [])"
  by (induction rts) (auto simp: Thread_join_def)

lemma join_often_on:
  "th_thread t \<Longrightarrow> join_often rts t = (if 0 \<in> set rts then (t\<lparr>th_thread := False\<rparr>, [Joined]) else (t, []))"
  by (induction rts) (auto simp: Thread_join_def join_often_off)

lemma joined_or_detached_once:
  assumes "join_often rts t = (t', calls)" and "Thread_destroy t' = (t'', calls')" and "th_thread t"
  shows "calls @ calls' = (if 0 \<in> set rts then [Joined] else [Detached]) \<and> \<not> th_thread t''"
  using assms join_often_on [OF assms(3), of rts] by (auto simp: Thread_destroy_def split: if_splits)

end
