(* ===== verification/Memory_Pool.thy ===== *)
theory Memory_Pool
  imports Gw_Prelude
begin

text \<open>
  \<open>src/memorypool/memorypool.hpp\<close>: slots cut from blocks, and a list of free slots threaded
  through the slots themselves. Addresses are naturals, 0 is the null pointer. \<open>pmem\<close> is the
  store of pointers: what the word at an address holds, which for a free slot is the next free
  slot, for a block the block before it, and for a slot in use whatever its owner wrote. The sizes
  \<open>sz\<close> (\<open>sizeof(Slot_)\<close>), \<open>al\<close> (\<open>alignof(Slot_)\<close>) and \<open>bsize\<close>
  (\<open>BlockSize\<close>) are parameters, as in the template; a pointer has 8 bytes. \<open>operator new\<close>
  is the address it returned.
\<close>

section \<open>The pool\<close>

record pool =
  currentBlock :: nat
  currentSlot :: nat
  lastSlot :: nat
  freeSlots :: nat
  pmem :: "nat \<Rightarrow> nat"

definition pool_new :: pool where
  "pool_new = \<lparr>currentBlock = 0, currentSlot = 0, lastSlot = 0, freeSlots = 0, pmem = (\<lambda>_. 0)\<rparr>"

definition pool_grow :: "nat \<Rightarrow> nat \<Rightarrow> nat \<Rightarrow> nat \<Rightarrow> pool \<Rightarrow> pool" where
  "pool_grow sz al bsize newBlock p =
     (let body = newBlock + 8;
          bodyPadding = al - body mod al
      in p\<lparr>pmem := (pmem p)(newBlock := currentBlock p),
           currentBlock := newBlock,
           currentSlot := body + bodyPadding,
           lastSlot := newBlock + bsize - sz + 1\<rparr>)"

definition pool_allocate :: "nat \<Rightarrow> nat \<Rightarrow> nat \<Rightarrow> nat \<Rightarrow> pool \<Rightarrow> nat \<times> pool" where
  "pool_allocate sz al bsize newBlock p =
     (if freeSlots p \<noteq> 0 then (freeSlots p, p\<lparr>freeSlots := pmem p (freeSlots p)\<rparr>)
      else
       (let p = (if lastSlot p \<le> currentSlot p then pool_grow sz al bsize newBlock p else p)
        in (currentSlot p, p\<lparr>currentSlot := currentSlot p + sz\<rparr>)))"

definition pool_deallocate :: "nat \<Rightarrow> pool \<Rightarrow> pool" where
  "pool_deallocate a p =
     (if a \<noteq> 0 then p\<lparr>pmem := (pmem p)(a := freeSlots p), freeSlots := a\<rparr> else p)"

text \<open>The destructor: the blocks it deletes, in order; it may not return if the chain has a cycle.\<close>

partial_function (option) delete_blocks :: "(nat \<Rightarrow> nat) \<Rightarrow> nat \<Rightarrow> nat list option" where
  "delete_blocks m blk =
     (if blk = 0 then Some []
      else Option.bind (delete_blocks m (m blk)) (\<lambda>bs. Some (blk # bs)))"

definition pool_destroy :: "pool \<Rightarrow> nat list option" where
  "pool_destroy p = delete_blocks (pmem p) (currentBlock p)"

section \<open>What can happen to a pool\<close>

text \<open>A fresh block of \<open>operator new\<close>: not null, and apart from the blocks there are.\<close>

definition apart :: "nat \<Rightarrow> nat \<Rightarrow> nat \<Rightarrow> bool" where
  "apart n a b \<longleftrightarrow> a + n \<le> b \<or> b + n \<le> a"

definition grows :: "pool \<Rightarrow> bool" where
  "grows p \<longleftrightarrow> freeSlots p = 0 \<and> lastSlot p \<le> currentSlot p"

text \<open>
  The pools a program can reach, with the slots in use and the blocks: it allocates, gives back
  slots in use, and writes words of its own into slots in use.
\<close>

inductive pool_reach :: "nat \<Rightarrow> nat \<Rightarrow> nat \<Rightarrow> pool \<Rightarrow> nat set \<Rightarrow> nat list \<Rightarrow> bool"
  for sz al bsize where
  start: "pool_reach sz al bsize pool_new {} []"
| reuse: "pool_reach sz al bsize p live bs \<Longrightarrow> \<not> grows p \<Longrightarrow> pool_allocate sz al bsize nb p = (a, p') \<Longrightarrow>
    pool_reach sz al bsize p' (insert a live) bs"
| grow: "pool_reach sz al bsize p live bs \<Longrightarrow> grows p \<Longrightarrow> 0 < nb \<Longrightarrow> \<forall>b \<in> set bs. apart bsize nb b \<Longrightarrow>
    pool_allocate sz al bsize nb p = (a, p') \<Longrightarrow> pool_reach sz al bsize p' (insert a live) (nb # bs)"
| give_back: "pool_reach sz al bsize p live bs \<Longrightarrow> a \<in> live \<Longrightarrow>
    pool_reach sz al bsize (pool_deallocate a p) (live - {a}) bs"
| user_write: "pool_reach sz al bsize p live bs \<Longrightarrow> a \<in> live \<Longrightarrow> a \<le> x \<Longrightarrow> x < a + sz \<Longrightarrow>
    pool_reach sz al bsize (p\<lparr>pmem := (pmem p)(x := v)\<rparr>) live bs"

section \<open>The invariant\<close>

fun chain :: "(nat \<Rightarrow> nat) \<Rightarrow> nat \<Rightarrow> nat list \<Rightarrow> bool" where
  "chain m a [] \<longleftrightarrow> a = 0"
| "chain m a (x # xs) \<longleftrightarrow> a = x \<and> x \<noteq> 0 \<and> chain m (m x) xs"

lemma chain_update: "x \<notin> set xs \<Longrightarrow> chain (m(x := v)) a xs = chain m a xs"
  by (induction xs arbitrary: a) auto

lemma chain_not_null: "chain m a xs \<Longrightarrow> 0 \<notin> set xs"
  by (induction xs arbitrary: a) auto

lemma chain_head: "chain m a xs \<Longrightarrow> a \<noteq> 0 \<Longrightarrow> \<exists>ys. xs = a # ys \<and> chain m (m a) ys"
  by (cases xs) auto

lemma chain_empty: "chain m 0 xs \<Longrightarrow> xs = []"
  by (cases xs) auto

definition sizes_ok :: "nat \<Rightarrow> nat \<Rightarrow> nat \<Rightarrow> bool" where
  "sizes_ok sz al bsize \<longleftrightarrow> 8 \<le> sz \<and> 0 < al \<and> al dvd sz \<and> 8 + al + sz \<le> bsize"

text \<open>A slot inside a block, behind the pointer at its start.\<close>

definition slot_in :: "nat \<Rightarrow> nat \<Rightarrow> nat \<Rightarrow> nat \<Rightarrow> bool" where
  "slot_in sz bsize b a \<longleftrightarrow> b + 8 \<le> a \<and> a + sz \<le> b + bsize"

definition slots_ok :: "nat \<Rightarrow> nat \<Rightarrow> nat \<Rightarrow> nat list \<Rightarrow> nat set \<Rightarrow> bool" where
  "slots_ok sz al bsize bs S \<longleftrightarrow>
     (\<forall>a \<in> S. al dvd a \<and> (\<exists>b \<in> set bs. slot_in sz bsize b a)) \<and>
     (\<forall>a \<in> S. \<forall>a' \<in> S. a \<noteq> a' \<longrightarrow> apart sz a a')"

definition front_ok :: "nat \<Rightarrow> nat \<Rightarrow> nat \<Rightarrow> pool \<Rightarrow> nat list \<Rightarrow> nat set \<Rightarrow> bool" where
  "front_ok sz al bsize p bs S \<longleftrightarrow>
     (case bs of
        [] \<Rightarrow> currentSlot p = 0 \<and> lastSlot p = 0
      | b # bs' \<Rightarrow> lastSlot p = b + bsize - sz + 1 \<and> b + 8 \<le> currentSlot p \<and> al dvd currentSlot p \<and>
          (\<forall>a \<in> S. slot_in sz bsize b a \<longrightarrow> a + sz \<le> currentSlot p))"

definition blocks_ok :: "nat \<Rightarrow> nat list \<Rightarrow> bool" where
  "blocks_ok bsize bs \<longleftrightarrow> sorted_wrt (apart bsize) bs"

definition pool_inv :: "nat \<Rightarrow> nat \<Rightarrow> nat \<Rightarrow> pool \<Rightarrow> nat set \<Rightarrow> nat list \<Rightarrow> bool" where
  "pool_inv sz al bsize p live bs \<longleftrightarrow>
     (\<exists>free. chain (pmem p) (freeSlots p) free \<and> distinct free \<and> set free \<inter> live = {} \<and>
        slots_ok sz al bsize bs (set free \<union> live) \<and> front_ok sz al bsize p bs (set free \<union> live)) \<and>
     chain (pmem p) (currentBlock p) bs \<and> blocks_ok bsize bs"

lemma pool_invI:
  "chain (pmem p) (freeSlots p) free \<Longrightarrow> distinct free \<Longrightarrow> set free \<inter> live = {} \<Longrightarrow>
     slots_ok sz al bsize bs (set free \<union> live) \<Longrightarrow> front_ok sz al bsize p bs (set free \<union> live) \<Longrightarrow>
     chain (pmem p) (currentBlock p) bs \<Longrightarrow> blocks_ok bsize bs \<Longrightarrow> pool_inv sz al bsize p live bs"
  by (auto simp: pool_inv_def)

lemma front_ok_cong:
  "currentSlot p = currentSlot q \<Longrightarrow> lastSlot p = lastSlot q \<Longrightarrow>
     front_ok sz al bsize p bs S = front_ok sz al bsize q bs S"
  by (cases bs) (simp_all add: front_ok_def)

lemma slots_ok_slot:
  assumes "slots_ok sz al bsize bs S" and "a \<in> S"
  obtains b where "b \<in> set bs" and "slot_in sz bsize b a"
  using assms unfolding slots_ok_def by blast

lemma apart_sym: "apart n a b = apart n b a"
  by (auto simp: apart_def)

lemma blocks_apart:
  "blocks_ok n bs \<Longrightarrow> b \<in> set bs \<Longrightarrow> b' \<in> set bs \<Longrightarrow> b \<noteq> b' \<Longrightarrow> apart n b b'"
  unfolding blocks_ok_def
  by (induction bs) (auto simp: apart_sym)

text \<open>A slot's bytes hold no block's link, and no other slot's.\<close>

lemma slot_not_block:
  assumes "slots_ok sz al bsize bs S" and "blocks_ok bsize bs" and "a \<in> S" and "a \<le> x" and "x < a + sz"
  shows "x \<notin> set bs"
proof
  assume x: "x \<in> set bs"
  obtain b where b: "b \<in> set bs" "slot_in sz bsize b a" using assms(1,3) by (auto simp: slots_ok_def)
  then have "b < x" "x < b + bsize" using assms(4,5) by (auto simp: slot_in_def)
  with blocks_apart [OF assms(2) b(1) x] show False by (auto simp: apart_def)
qed

lemma slot_not_other:
  assumes "slots_ok sz al bsize bs S" and "a \<in> S" and "a' \<in> S" and "a \<noteq> a'" and "a \<le> x" and "x < a + sz"
  shows "x \<noteq> a'"
  using assms unfolding slots_ok_def apart_def by fastforce

lemma write_keeps:
  assumes inv: "pool_inv sz al bsize p live bs" and "a \<in> live" and "a \<le> x" and "x < a + sz"
  shows "pool_inv sz al bsize (p\<lparr>pmem := (pmem p)(x := v)\<rparr>) live bs"
proof -
  obtain free where f: "chain (pmem p) (freeSlots p) free" "distinct free" "set free \<inter> live = {}"
      "slots_ok sz al bsize bs (set free \<union> live)" "front_ok sz al bsize p bs (set free \<union> live)"
      "chain (pmem p) (currentBlock p) bs" "blocks_ok bsize bs"
    using inv by (auto simp: pool_inv_def)
  have "x \<notin> set free"
    using slot_not_other [OF f(4), of a x x] assms(2-4) f(3) by blast
  moreover have "x \<notin> set bs"
    using slot_not_block [OF f(4,7), of a x] assms(2-4) by blast
  moreover have "front_ok sz al bsize (p\<lparr>pmem := (pmem p)(x := v)\<rparr>) bs (set free \<union> live)"
    using f(5) by (cases bs) (simp_all add: front_ok_def)
  ultimately show ?thesis
    using f by (intro pool_invI [of _ free]) (simp_all add: chain_update)
qed

lemma give_back_keeps:
  assumes inv: "pool_inv sz al bsize p live bs" and "a \<in> live" and "8 \<le> sz"
  shows "pool_inv sz al bsize (pool_deallocate a p) (live - {a}) bs"
proof -
  obtain free where f: "chain (pmem p) (freeSlots p) free" "distinct free" "set free \<inter> live = {}"
      "slots_ok sz al bsize bs (set free \<union> live)" "front_ok sz al bsize p bs (set free \<union> live)"
      "chain (pmem p) (currentBlock p) bs" "blocks_ok bsize bs"
    using inv by (auto simp: pool_inv_def)
  obtain b where "slot_in sz bsize b a" using slots_ok_slot [OF f(4), of a] assms(2) by blast
  then have a: "a \<notin> set free" "a \<notin> set bs" "a \<noteq> 0"
    using f(3) assms(2,3) slot_not_block [OF f(4,7), of a a] by (auto simp: slot_in_def)
  have S: "set (a # free) \<union> (live - {a}) = set free \<union> live" using assms(2) by auto
  have "front_ok sz al bsize (pool_deallocate a p) bs (set (a # free) \<union> (live - {a}))"
    unfolding S using f(5) a by (cases bs) (simp_all add: pool_deallocate_def front_ok_def)
  moreover have "slots_ok sz al bsize bs (set (a # free) \<union> (live - {a}))"
    unfolding S by (rule f(4))
  ultimately show ?thesis
    using f a by (intro pool_invI [of _ "a # free"]) (auto simp: pool_deallocate_def chain_update)
qed

lemma free_slot_keeps:
  assumes inv: "pool_inv sz al bsize p live bs" and used: "freeSlots p \<noteq> 0"
    and alloc: "pool_allocate sz al bsize nb p = (a, p')"
  shows "pool_inv sz al bsize p' (insert a live) bs \<and> a \<notin> live"
proof -
  obtain free where f: "chain (pmem p) (freeSlots p) free" "distinct free" "set free \<inter> live = {}"
      "slots_ok sz al bsize bs (set free \<union> live)" "front_ok sz al bsize p bs (set free \<union> live)"
      "chain (pmem p) (currentBlock p) bs" "blocks_ok bsize bs"
    using inv by (auto simp: pool_inv_def)
  obtain ys where ys: "free = freeSlots p # ys" "chain (pmem p) (pmem p (freeSlots p)) ys"
    using chain_head [OF f(1)] used by auto
  have a: "a = freeSlots p" "p' = p\<lparr>freeSlots := pmem p (freeSlots p)\<rparr>"
    using alloc used by (auto simp: pool_allocate_def)
  have S: "set ys \<union> insert a live = set free \<union> live" using ys a by auto
  have "front_ok sz al bsize p' bs (set ys \<union> insert a live)"
    using f(5) unfolding S a(2) by (cases bs) (simp_all add: front_ok_def)
  moreover have "slots_ok sz al bsize bs (set ys \<union> insert a live)" using f(4) unfolding S .
  ultimately have "pool_inv sz al bsize p' (insert a live) bs"
    using f ys a by (intro pool_invI [of _ ys]) auto
  with f(3) ys a show ?thesis by auto
qed

text \<open>A new slot of the first block is apart from every slot that is in use.\<close>

lemma front_slot_apart:
  assumes "slots_ok sz al bsize bs S" and "blocks_ok bsize bs" and "bs = b # bs'"
    and "slot_in sz bsize b a" and "\<forall>c \<in> S. slot_in sz bsize b c \<longrightarrow> c + sz \<le> a" and c: "c \<in> S"
  shows "apart sz a c"
proof -
  obtain b' where b': "b' \<in> set bs" "slot_in sz bsize b' c"
    by (rule slots_ok_slot [OF assms(1), of c]) (use c in blast)+
  show ?thesis
  proof (cases "b' = b")
    case True
    with assms(5) c b' show ?thesis by (auto simp: apart_def)
  next
    case False
    with blocks_apart [OF assms(2) b'(1), of b] assms(3,4) b' show ?thesis by (auto simp: apart_def slot_in_def)
  qed
qed

lemma front_slot_keeps:
  assumes inv: "pool_inv sz al bsize p live bs" and none: "freeSlots p = 0" and room: "currentSlot p < lastSlot p"
    and sizes: "sizes_ok sz al bsize" and alloc: "pool_allocate sz al bsize nb p = (a, p')"
  shows "pool_inv sz al bsize p' (insert a live) bs \<and> a \<notin> live"
proof -
  have f: "slots_ok sz al bsize bs live" "front_ok sz al bsize p bs live"
      "chain (pmem p) (currentBlock p) bs" "blocks_ok bsize bs"
    using inv none by (auto simp: pool_inv_def dest!: chain_empty)
  have a: "a = currentSlot p" "p' = p\<lparr>currentSlot := currentSlot p + sz\<rparr>"
    using alloc none room by (auto simp: pool_allocate_def)
  obtain b bs' where bs: "bs = b # bs'"
    using f(2) room by (cases bs) (auto simp: front_ok_def)
  have front: "lastSlot p = b + bsize - sz + 1" "b + 8 \<le> a" "al dvd a"
      "\<forall>c \<in> live. slot_in sz bsize b c \<longrightarrow> c + sz \<le> a"
    using f(2) bs a by (auto simp: front_ok_def)
  have slot: "slot_in sz bsize b a" using front room a sizes by (auto simp: slot_in_def sizes_ok_def)
  note new = front_slot_apart [OF f(1,4) bs slot front(4)]
  have "a \<notin> live" using new [of a] sizes by (auto simp: apart_def sizes_ok_def)
  moreover have "slots_ok sz al bsize bs (insert a live)"
    using f(1) new slot front(3) bs by (auto simp: slots_ok_def apart_sym)
  moreover have "front_ok sz al bsize p' bs (insert a live)"
    using f(2) front slot sizes bs a by (auto simp: front_ok_def sizes_ok_def)
  ultimately show ?thesis
    using f a none by (intro conjI pool_invI [of _ "[]"]) simp_all
qed

lemma reuse_keeps:
  assumes "pool_inv sz al bsize p live bs" and "\<not> grows p" and "sizes_ok sz al bsize"
    and "pool_allocate sz al bsize nb p = (a, p')"
  shows "pool_inv sz al bsize p' (insert a live) bs \<and> a \<notin> live"
proof (cases "freeSlots p = 0")
  case True
  then show ?thesis using front_slot_keeps [OF assms(1) True _ assms(3,4)] assms(2) by (simp add: grows_def)
qed (use free_slot_keeps assms in blast)

lemma grow_keeps:
  assumes inv: "pool_inv sz al bsize p live bs" and "grows p" and sizes: "sizes_ok sz al bsize"
    and "0 < nb" and "\<forall>b \<in> set bs. apart bsize nb b"
    and alloc: "pool_allocate sz al bsize nb p = (a, p')"
  shows "pool_inv sz al bsize p' (insert a live) (nb # bs) \<and> a \<notin> live"
proof -
  obtain free where f: "chain (pmem p) (freeSlots p) free" "slots_ok sz al bsize bs (set free \<union> live)"
      "chain (pmem p) (currentBlock p) bs" "blocks_ok bsize bs"
    using inv by (auto simp: pool_inv_def)
  have free: "free = []" "freeSlots p = 0" using f(1) assms(2) chain_empty by (auto simp: grows_def)
  let ?body = "nb + 8"
  define a0 where "a0 = ?body + (al - ?body mod al)"
  have al: "0 < al" "8 + al + sz \<le> bsize" "al dvd sz" "8 \<le> sz" using sizes by (auto simp: sizes_ok_def)
  have "?body mod al < al" using al(1) by simp
  then have pad: "a0 \<le> ?body + al" "?body < a0" by (auto simp: a0_def)
  have dvd: "al dvd a0"
  proof -
    have "a0 = (?body - ?body mod al) + al"
      using \<open>?body mod al < al\<close> by (simp add: a0_def)
    then show ?thesis by (metis dvd_add dvd_minus_mod dvd_refl)
  qed
  have a: "a = a0"
    and p': "p' = p\<lparr>pmem := (pmem p)(nb := currentBlock p), currentBlock := nb,
        currentSlot := a0 + sz, lastSlot := nb + bsize - sz + 1\<rparr>"
    using alloc assms(2) free by (auto simp: pool_allocate_def grows_def pool_grow_def Let_def a0_def)
  have nb: "nb \<notin> set bs" using assms(5) al by (auto simp: apart_def)
  have slot: "slot_in sz bsize nb a0" using pad al by (auto simp: slot_in_def)
  have old: "apart sz a0 c \<and> \<not> slot_in sz bsize nb c" if c: "c \<in> live" for c
  proof -
    obtain b where b: "b \<in> set bs" "slot_in sz bsize b c"
      by (rule slots_ok_slot [OF f(2), of c]) (use c in blast)+
    then have "apart bsize nb b" using assms(5) by blast
    with b(2) slot al show ?thesis by (auto simp: apart_def slot_in_def)
  qed
  have "a0 \<notin> live" using old [of a0] al(4) by (auto simp: apart_def)
  moreover have "slots_ok sz al bsize (nb # bs) (insert a0 live)"
    using f(2) free old slot dvd by (auto simp: slots_ok_def apart_sym)
  moreover have "front_ok sz al bsize p' (nb # bs) (insert a0 live)"
    using pad dvd al old by (auto simp: front_ok_def p')
  moreover have "blocks_ok bsize (nb # bs)" using f(4) assms(5) by (simp add: blocks_ok_def)
  moreover have "chain (pmem p') (currentBlock p') (nb # bs)"
    using f(3) nb assms(4) by (simp add: p' chain_update)
  ultimately show ?thesis
    unfolding a using free by (intro conjI pool_invI [of _ "[]"]) (simp_all add: p')
qed

lemma pool_reach_inv:
  assumes "pool_reach sz al bsize p live bs" and "sizes_ok sz al bsize"
  shows "pool_inv sz al bsize p live bs"
  using assms
proof (induction rule: pool_reach.induct)
  case start
  show ?case
    by (auto simp: pool_inv_def pool_new_def slots_ok_def front_ok_def blocks_ok_def intro!: exI [of _ "[]"])
next
  case (reuse p live bs nb a p')
  then show ?case using reuse_keeps by blast
next
  case (grow p live bs nb a p')
  then show ?case using grow_keeps by blast
next
  case (give_back p live bs a)
  then show ?case using give_back_keeps by (auto simp: sizes_ok_def)
next
  case (user_write p live bs a x v)
  then show ?case using write_keeps by blast
qed

text \<open>
  C14: Slots in use never overlap, lie inside a block and behind its link, and are aligned; and the
  pool never hands out a slot that is in use, whatever the program stores in its slots, as long
  as the link, the padding and one slot fit into a block.
\<close>

theorem pool_slots_safe:
  assumes "pool_reach sz al bsize p live bs" and "sizes_ok sz al bsize"
    and "0 < nb" and "\<forall>b \<in> set bs. apart bsize nb b" and "pool_allocate sz al bsize nb p = (a, p')"
  shows "(\<forall>x \<in> live. al dvd x \<and> (\<exists>b \<in> set bs. b + 8 \<le> x \<and> x + sz \<le> b + bsize)) \<and>
    (\<forall>x \<in> live. \<forall>y \<in> live. x \<noteq> y \<longrightarrow> x + sz \<le> y \<or> y + sz \<le> x) \<and> a \<notin> live \<and>
    (\<forall>x \<in> live. x + sz \<le> a \<or> a + sz \<le> x)"
proof -
  have inv: "pool_inv sz al bsize p live bs" using pool_reach_inv assms(1,2) by blast
  have "\<exists>bs'. pool_inv sz al bsize p' (insert a live) bs' \<and> a \<notin> live"
  proof (cases "grows p")
    case True
    show ?thesis using grow_keeps [OF inv True assms(2-5)] by blast
  next
    case False
    show ?thesis using reuse_keeps [OF inv False assms(2,5)] by blast
  qed
  then obtain bs' where inv': "pool_inv sz al bsize p' (insert a live) bs'" and fresh: "a \<notin> live" by blast
  from inv obtain F where F: "slots_ok sz al bsize bs (set F \<union> live)" by (auto simp: pool_inv_def)
  from inv' obtain F' where F': "slots_ok sz al bsize bs' (set F' \<union> insert a live)" by (auto simp: pool_inv_def)
  have one: "al dvd x \<and> (\<exists>b \<in> set bs. b + 8 \<le> x \<and> x + sz \<le> b + bsize)" if "x \<in> live" for x
    using F that by (simp add: slots_ok_def slot_in_def)
  have two: "x + sz \<le> y \<or> y + sz \<le> x" if "x \<in> live" "y \<in> live" "x \<noteq> y" for x y
    using F that by (simp add: slots_ok_def apart_def)
  have three: "x + sz \<le> a \<or> a + sz \<le> x" if "x \<in> live" for x
  proof -
    have "x \<noteq> a" using that fresh by blast
    with F' that show ?thesis by (simp add: slots_ok_def apart_def)
  qed
  from one two three fresh show ?thesis by blast
qed

lemma delete_blocks_chain: "chain m a bs \<Longrightarrow> delete_blocks m a = Some bs"
  by (induction bs arbitrary: a) (simp_all add: delete_blocks.simps)

text \<open>
  The destructor returns and deletes every block the pool got, each once, the last one first;
  what the program stored in its slots cannot disturb it.
\<close>

theorem pool_destroy_frees_blocks:
  assumes "pool_reach sz al bsize p live bs" and "sizes_ok sz al bsize"
  shows "pool_destroy p = Some bs \<and> distinct bs"
proof -
  have "chain (pmem p) (currentBlock p) bs" "blocks_ok bsize bs"
    using pool_reach_inv [OF assms] by (auto simp: pool_inv_def)
  moreover have "distinct bs" if "sorted_wrt (apart bsize) bs" for bs
    using that assms(2) by (induction bs) (auto simp: apart_def sizes_ok_def)
  ultimately show ?thesis by (simp add: pool_destroy_def delete_blocks_chain blocks_ok_def)
qed

text \<open>
  The check at compile time asks for two slots per block only, which is not enough: with the
  smallest block it admits for an 8-byte slot, the first slot ever handed out ends 8 bytes behind
  the block, since the padding is a whole alignment unit even when the address is aligned.
\<close>

theorem pool_smallest_block_overflows:
  assumes "0 < nb" and "8 dvd nb"
  shows "16 \<ge> 2 * (8 :: nat) \<and> fst (pool_allocate 8 8 16 nb pool_new) + 8 = nb + 16 + 8"
proof -
  have "(nb + 8) mod 8 = 0" using assms(2) by presburger
  then show ?thesis
    by (simp add: pool_allocate_def pool_new_def pool_grow_def Let_def)
qed

text \<open>A pool of 32-byte slots in blocks of 4096: one allocation, given back, and another.\<close>

lemma sample_pool:
  obtains p where "pool_reach 32 8 4096 p {1616} [1600]"
proof -
  let ?p1 = "snd (pool_allocate 32 8 4096 1600 pool_new)"
  let ?p2 = "snd (pool_allocate 32 8 4096 0 (pool_deallocate 1616 ?p1))"
  have a1: "pool_allocate 32 8 4096 1600 pool_new = (1616, ?p1)"
    by (simp add: pool_allocate_def pool_new_def pool_grow_def Let_def)
  have "pool_reach 32 8 4096 ?p1 (insert 1616 {}) [1600]"
    by (rule pool_reach.grow [OF pool_reach.start _ _ _ a1]) (simp_all add: grows_def pool_new_def)
  then have r2: "pool_reach 32 8 4096 (pool_deallocate 1616 ?p1) (insert 1616 {} - {1616}) [1600]"
    by (rule pool_reach.give_back) simp
  have g: "\<not> grows (pool_deallocate 1616 ?p1)" by (simp add: grows_def pool_deallocate_def)
  have a2: "pool_allocate 32 8 4096 0 (pool_deallocate 1616 ?p1) = (1616, ?p2)"
    by (simp add: pool_allocate_def pool_deallocate_def)
  from pool_reach.reuse [OF r2 g a2] that show thesis by simp
qed

theorem pool_slots_safe_witness:
  "\<exists>p. pool_reach 32 8 4096 p {1616} [1600] \<and> fst (pool_allocate 32 8 4096 8000 p) \<noteq> 1616"
proof -
  obtain p where r: "pool_reach 32 8 4096 p {1616} [1600]" by (rule sample_pool)
  have "sizes_ok 32 8 4096" by (simp add: sizes_ok_def)
  moreover have "\<forall>b \<in> set [1600]. apart 4096 8000 b" by (simp add: apart_def)
  ultimately have "fst (pool_allocate 32 8 4096 8000 p) \<notin> {1616}"
    using pool_slots_safe [OF r, of 8000 "fst (pool_allocate 32 8 4096 8000 p)" "snd (pool_allocate 32 8 4096 8000 p)"]
    by simp
  with r show ?thesis by blast
qed

theorem pool_destroy_frees_blocks_witness:
  "\<exists>p. pool_reach 32 8 4096 p {1616} [1600] \<and> pool_destroy p = Some [1600]"
proof -
  obtain p where r: "pool_reach 32 8 4096 p {1616} [1600]" by (rule sample_pool)
  have "sizes_ok 32 8 4096" by (simp add: sizes_ok_def)
  from pool_destroy_frees_blocks [OF r this] r show ?thesis by blast
qed

theorem pool_smallest_block_overflows_witness:
  "fst (pool_allocate 8 8 16 1600 pool_new) + 8 = 1600 + 16 + (8 :: nat)"
  using pool_smallest_block_overflows [of 1600] by simp

end
