(* ===== verification/Find_Cache.thy ===== *)
theory Find_Cache
  imports Gw_Prelude "HOL-Library.AList"
begin

text \<open>
  \<open>FindCache\<close> of \<open>src/my_stl/my_stl.hpp\<close>: a linked list with unique keys, behind a first node \<open>aider\<close> that
  holds no element. The nodes are in a heap; every loop follows the pointers as they are there, so that a
  cycle is a run that does not return, and a freed or null node that is read is a fault.
\<close>

section \<open>Nodes and loops\<close>

datatype heap_fault = Dangling

record 'a find_node =
  fn_key :: 'a
  fn_value :: 'a
  fn_next :: "nat option"

type_synonym 'a node_heap = "nat \<rightharpoonup> 'a find_node"

record 'a find_cache =
  fc_heap :: "'a node_heap"
  fc_head :: "nat option"
  fc_aider :: nat
  fc_size :: int

text \<open>\<open>bn_passwd\<close> is \<open>None\<close> when it has only been constructed.\<close>

record 'a back_node =
  bn_index :: int
  bn_passwd :: "'a option"

definition f_end :: int where "f_end = -1"

text \<open>\<open>a\<close>: where the allocator puts the first node, \<open>k0\<close> and \<open>v0\<close>: what it holds there.\<close>

definition FindCache_new :: "nat \<Rightarrow> 'a \<Rightarrow> 'a \<Rightarrow> 'a find_cache" where
  "FindCache_new a k0 v0 =
     \<lparr>fc_heap = [a \<mapsto> \<lparr>fn_key = k0, fn_value = v0, fn_next = None\<rparr>], fc_head = None, fc_aider = a, fc_size = 0\<rparr>"

definition first_node :: "'a find_cache \<Rightarrow> heap_fault + nat option" where
  "first_node c = (case fc_heap c (fc_aider c) of None \<Rightarrow> Inl Dangling | Some n \<Rightarrow> Inr (fn_next n))"

partial_function (option) find_loop ::
  "'a \<Rightarrow> 'a node_heap \<Rightarrow> nat option \<Rightarrow> int \<Rightarrow> (heap_fault + 'a back_node) option" where
  "find_loop key h temp index =
     (case temp of
        None \<Rightarrow> Some (Inr \<lparr>bn_index = f_end, bn_passwd = None\<rparr>)
      | Some p \<Rightarrow>
          (case h p of
             None \<Rightarrow> Some (Inl Dangling)
           | Some n \<Rightarrow>
               if fn_key n = key then Some (Inr \<lparr>bn_index = index, bn_passwd = Some (fn_value n)\<rparr>)
               else find_loop key h (fn_next n) (i32 (index + 1))))"

definition FindCache_find :: "'a \<Rightarrow> 'a find_cache \<Rightarrow> (heap_fault + 'a back_node) option" where
  "FindCache_find key c =
     (case first_node c of Inl e \<Rightarrow> Some (Inl e) | Inr temp \<Rightarrow> find_loop key (fc_heap c) temp 1)"

text \<open>\<open>a\<close>: the address the allocator gives when it is asked.\<close>

definition FindCache_push :: "nat \<Rightarrow> 'a \<Rightarrow> 'a \<Rightarrow> 'a find_cache \<Rightarrow> (heap_fault + bool \<times> 'a find_cache) option" where
  "FindCache_push a key value c =
     (case FindCache_find key c of
        None \<Rightarrow> None
      | Some (Inl e) \<Rightarrow> Some (Inl e)
      | Some (Inr back) \<Rightarrow>
          if bn_index back \<noteq> f_end then Some (Inr (False, c))
          else
           (let h = (fc_heap c)(a \<mapsto> \<lparr>fn_key = key, fn_value = value, fn_next = fc_head c\<rparr>)
            in case h (fc_aider c) of
                 None \<Rightarrow> Some (Inl Dangling)
               | Some aider \<Rightarrow>
                   Some (Inr (True, c\<lparr>fc_heap := h(fc_aider c \<mapsto> aider\<lparr>fn_next := Some a\<rparr>), fc_head := Some a,
                     fc_size := i64 (fc_size c + 1)\<rparr>))))"

partial_function (option) pop_loop ::
  "'a \<Rightarrow> 'a \<Rightarrow> 'a find_cache \<Rightarrow> nat option \<Rightarrow> nat option \<Rightarrow> (heap_fault + bool \<times> 'a find_cache) option" where
  "pop_loop key value c temp last_temp =
     (case temp of
        None \<Rightarrow> Some (Inr (False, c))
      | Some p \<Rightarrow>
          (case (fc_heap c p, Option.bind last_temp (fc_heap c)) of
             (Some n, Some l) \<Rightarrow>
               if fn_key n = key \<and> fn_value n = value
               then Some (Inr (True,
                 c\<lparr>fc_heap := ((fc_heap c)(the last_temp \<mapsto> l\<lparr>fn_next := fn_next n\<rparr>))(p := None),
                   fc_size := i64 (fc_size c - 1),
                   fc_head := (if fc_head c = Some p then fn_next n else fc_head c)\<rparr>))
               else pop_loop key value c (fn_next n) (fn_next l)
           | _ \<Rightarrow> Some (Inl Dangling)))"

definition FindCache_pop :: "'a \<Rightarrow> 'a \<Rightarrow> 'a find_cache \<Rightarrow> (heap_fault + bool \<times> 'a find_cache) option" where
  "FindCache_pop key value c =
     (case first_node c of
        Inl e \<Rightarrow> Some (Inl e)
      | Inr temp \<Rightarrow> pop_loop key value c temp (Some (fc_aider c)))"

partial_function (option) update_loop ::
  "'a \<Rightarrow> 'a \<Rightarrow> 'a node_heap \<Rightarrow> nat option \<Rightarrow> (heap_fault + bool \<times> 'a node_heap) option" where
  "update_loop key value h temp =
     (case temp of
        None \<Rightarrow> Some (Inr (False, h))
      | Some p \<Rightarrow>
          (case h p of
             None \<Rightarrow> Some (Inl Dangling)
           | Some n \<Rightarrow>
               if fn_key n = key then Some (Inr (True, h(p \<mapsto> n\<lparr>fn_value := value\<rparr>)))
               else update_loop key value h (fn_next n)))"

definition FindCache_update :: "'a \<Rightarrow> 'a \<Rightarrow> 'a find_cache \<Rightarrow> (heap_fault + bool \<times> 'a find_cache) option" where
  "FindCache_update key value c =
     (case first_node c of
        Inl e \<Rightarrow> Some (Inl e)
      | Inr temp \<Rightarrow> map_option (map_sum id (apsnd (\<lambda>h. c\<lparr>fc_heap := h\<rparr>))) (update_loop key value (fc_heap c) temp))"

text \<open>\<open>clear\<close>, which only the destructor calls; the elements it prints, and what is left on the heap.\<close>

partial_function (option) clear_loop ::
  "nat \<Rightarrow> 'a node_heap \<Rightarrow> nat option \<Rightarrow> ('a \<times> 'a) list \<Rightarrow> (heap_fault + ('a \<times> 'a) list \<times> 'a node_heap) option" where
  "clear_loop aider h temp out =
     (case temp of
        None \<Rightarrow> Some (Inr (out, h(aider := None)))
      | Some p \<Rightarrow>
          (case (h p, h aider) of
             (Some n, Some a) \<Rightarrow>
               clear_loop aider ((h(aider \<mapsto> a\<lparr>fn_next := fn_next n\<rparr>))(p := None)) (fn_next n) (out @ [(fn_key n, fn_value n)])
           | _ \<Rightarrow> Some (Inl Dangling)))"

definition FindCache_clear :: "'a find_cache \<Rightarrow> (heap_fault + ('a \<times> 'a) list \<times> 'a node_heap) option" where
  "FindCache_clear c =
     (case first_node c of Inl e \<Rightarrow> Some (Inl e) | Inr temp \<Rightarrow> clear_loop (fc_aider c) (fc_heap c) temp [])"

definition get_size :: "'a find_cache \<Rightarrow> int" where
  "get_size c = fc_size c"

text \<open>A use of the cache; \<open>alloc\<close> is the allocator.\<close>

definition gives_free_memory :: "('a node_heap \<Rightarrow> nat) \<Rightarrow> bool" where
  "gives_free_memory alloc \<longleftrightarrow> (\<forall>h. finite (dom h) \<longrightarrow> h (alloc h) = None)"

datatype 'a cache_op = Op_push 'a 'a | Op_pop 'a 'a | Op_update 'a 'a | Op_find 'a | Op_size

datatype 'a cache_answer = Said bool | Found "'a back_node" | Counted int

fun FindCache_do ::
  "('a node_heap \<Rightarrow> nat) \<Rightarrow> 'a cache_op \<Rightarrow> 'a find_cache \<Rightarrow> (heap_fault + 'a cache_answer \<times> 'a find_cache) option" where
  "FindCache_do alloc (Op_push k v) c = map_option (map_sum id (apfst Said)) (FindCache_push (alloc (fc_heap c)) k v c)"
| "FindCache_do alloc (Op_pop k v) c = map_option (map_sum id (apfst Said)) (FindCache_pop k v c)"
| "FindCache_do alloc (Op_update k v) c = map_option (map_sum id (apfst Said)) (FindCache_update k v c)"
| "FindCache_do alloc (Op_find k) c = map_option (map_sum id (\<lambda>b. (Found b, c))) (FindCache_find k c)"
| "FindCache_do alloc Op_size c = Some (Inr (Counted (get_size c), c))"

fun FindCache_run ::
  "('a node_heap \<Rightarrow> nat) \<Rightarrow> 'a cache_op list \<Rightarrow> 'a find_cache \<Rightarrow>
     (heap_fault + 'a cache_answer list \<times> 'a find_cache) option" where
  "FindCache_run alloc [] c = Some (Inr ([], c))"
| "FindCache_run alloc (x # xs) c =
     (case FindCache_do alloc x c of
        None \<Rightarrow> None
      | Some (Inl e) \<Rightarrow> Some (Inl e)
      | Some (Inr (r, c)) \<Rightarrow> map_option (map_sum id (apfst (Cons r))) (FindCache_run alloc xs c))"

section \<open>The list it holds\<close>

text \<open>The addresses from a pointer on, and the elements at them.\<close>

fun chain :: "'a node_heap \<Rightarrow> nat option \<Rightarrow> nat list \<Rightarrow> bool" where
  "chain h p [] \<longleftrightarrow> p = None"
| "chain h p (a # as) \<longleftrightarrow> p = Some a \<and> (\<exists>n. h a = Some n \<and> chain h (fn_next n) as)"

definition elems :: "'a node_heap \<Rightarrow> nat list \<Rightarrow> ('a \<times> 'a) list" where
  "elems h as = map (\<lambda>a. (fn_key (the (h a)), fn_value (the (h a)))) as"

definition cache_holds :: "'a find_cache \<Rightarrow> nat list \<Rightarrow> ('a \<times> 'a) list \<Rightarrow> bool" where
  "cache_holds c as xs \<longleftrightarrow>
     (\<exists>a. fc_heap c (fc_aider c) = Some a \<and> chain (fc_heap c) (fn_next a) as) \<and>
     distinct (fc_aider c # as) \<and> dom (fc_heap c) = set (fc_aider c # as) \<and>
     fc_head c = (case as of [] \<Rightarrow> None | p # _ \<Rightarrow> Some p) \<and> fc_size c = int (length as) \<and>
     xs = elems (fc_heap c) as \<and> distinct (map fst xs)"

lemma chain_frame: "(\<And>a. a \<in> set as \<Longrightarrow> h' a = h a) \<Longrightarrow> chain h' p as = chain h p as"
  by (induction as arbitrary: p) auto

lemma elems_frame: "(\<And>a. a \<in> set as \<Longrightarrow> h' a = h a) \<Longrightarrow> elems h' as = elems h as"
  by (simp add: elems_def)

lemma elems_simps [simp]:
  "elems h [] = []" "elems h (a # as) = (fn_key (the (h a)), fn_value (the (h a))) # elems h as"
  "elems h (as @ bs) = elems h as @ elems h bs"
  by (simp_all add: elems_def)

text \<open>The reference: an association list, with the functions of the library.\<close>

definition ref_find :: "'a \<Rightarrow> ('a \<times> 'a) list \<Rightarrow> 'a back_node" where
  "ref_find key xs =
     (case map_of xs key of
        None \<Rightarrow> \<lparr>bn_index = -1, bn_passwd = None\<rparr>
      | Some v \<Rightarrow> \<lparr>bn_index = int (length (takeWhile (\<lambda>x. fst x \<noteq> key) xs)) + 1, bn_passwd = Some v\<rparr>)"

lemma find_loop_chain:
  "chain h p as \<Longrightarrow> 0 \<le> i \<Longrightarrow> i + int (length as) < 2 ^ 31 \<Longrightarrow> find_loop key h p i =
     Some (Inr (case map_of (elems h as) key of
        None \<Rightarrow> \<lparr>bn_index = f_end, bn_passwd = None\<rparr>
      | Some v \<Rightarrow> \<lparr>bn_index = i + int (length (takeWhile (\<lambda>x. fst x \<noteq> key) (elems h as))), bn_passwd = Some v\<rparr>))"
proof (induction as arbitrary: p i)
  case Nil
  then show ?case by (subst find_loop.simps) simp
next
  case (Cons a as)
  then obtain n where "p = Some a" "h a = Some n" "chain h (fn_next n) as" by auto
  then show ?case using Cons.IH [of "fn_next n" "i + 1"] Cons.prems(2,3)
    by (subst find_loop.simps) (simp split: option.split)
qed

lemma first_node_holds:
  assumes "cache_holds c as xs"
  obtains p where "first_node c = Inr p" and "chain (fc_heap c) p as"
  using assms by (auto simp: cache_holds_def first_node_def)

lemma cache_length: "cache_holds c as xs \<Longrightarrow> length xs = length as"
  by (auto simp: cache_holds_def elems_def)

lemma find_holds: "cache_holds c as xs \<Longrightarrow> int (length xs) + 1 < 2 ^ 31 \<Longrightarrow> FindCache_find key c = Some (Inr (ref_find key xs))"
proof -
  assume c: "cache_holds c as xs" and len: "int (length xs) + 1 < 2 ^ 31"
  from c obtain p where p: "first_node c = Inr p" "chain (fc_heap c) p as" by (rule first_node_holds)
  moreover have "xs = elems (fc_heap c) as" using c by (simp add: cache_holds_def)
  ultimately show ?thesis using len cache_length [OF c]
    by (simp add: FindCache_find_def find_loop_chain ref_find_def f_end_def split: option.split)
qed

subsection \<open>Inserting\<close>

lemma push_holds:
  assumes c: "cache_holds c as xs" and "fc_heap c a = None" and len: "int (length xs) + 1 < 2 ^ 31"
  shows "\<exists>c' as'. FindCache_push a key value c = Some (Inr (key \<notin> fst ` set xs, c')) \<and>
    cache_holds c' as' (if key \<in> fst ` set xs then xs else (key, value) # xs) \<and> fc_aider c' = fc_aider c"
proof (cases "key \<in> fst ` set xs")
  case True
  then obtain v where "map_of xs key = Some v" by (auto simp: map_of_eq_None_iff dest: not_None_eq [THEN iffD1] weak_map_of_SomeI)
  then have "bn_index (ref_find key xs) \<noteq> f_end" by (simp add: ref_find_def f_end_def)
  with True c show ?thesis by (auto simp: FindCache_push_def find_holds [OF c len])
next
  case False
  then have "map_of xs key = None" by (simp add: map_of_eq_None_iff)
  then have none: "bn_index (ref_find key xs) = f_end" by (simp add: ref_find_def f_end_def)
  obtain aider where aider: "fc_heap c (fc_aider c) = Some aider" "chain (fc_heap c) (fn_next aider) as"
    using c by (auto simp: cache_holds_def)
  have dom: "dom (fc_heap c) = set (fc_aider c # as)" using c by (simp add: cache_holds_def)
  have fresh: "a \<noteq> fc_aider c" "a \<notin> set as" using assms(2) aider(1) dom by (auto simp: domIff)
  let ?h = "(fc_heap c)(a \<mapsto> \<lparr>fn_key = key, fn_value = value, fn_next = fc_head c\<rparr>, fc_aider c \<mapsto> aider\<lparr>fn_next := Some a\<rparr>)"
  have same: "?h b = fc_heap c b" if "b \<in> set as" for b using that fresh c by (auto simp: cache_holds_def)
  have head: "fn_next aider = fc_head c" using c aider by (cases as) (auto simp: cache_holds_def)
  have size: "i64 (fc_size c + 1) = fc_size c + 1"
    using c len cache_length [OF c] by (simp add: cache_holds_def i64_id)
  have "chain ?h (fn_next aider) as" using aider(2) chain_frame [of as ?h "fc_heap c", OF same] by simp
  then have "cache_holds (c\<lparr>fc_heap := ?h, fc_head := Some a, fc_size := fc_size c + 1\<rparr>) (a # as) ((key, value) # xs)"
    using c fresh False head elems_frame [of as ?h "fc_heap c", OF same] by (auto simp: cache_holds_def)
  then show ?thesis using False fresh none aider(1) by (auto simp: FindCache_push_def find_holds [OF c len] Let_def size)
qed

subsection \<open>Removing\<close>

lemma pop_loop_step:
  "fc_heap c p = Some n \<Longrightarrow> fc_heap c l = Some ln \<Longrightarrow> (fn_key n, fn_value n) \<noteq> (key, value) \<Longrightarrow>
     pop_loop key value c (Some p) (Some l) = pop_loop key value c (fn_next n) (fn_next ln)"
  by (subst pop_loop.simps) auto

lemma pop_loop_absent:
  "chain (fc_heap c) p as \<Longrightarrow> fc_heap c l = Some ln \<Longrightarrow> fn_next ln = p \<Longrightarrow> (key, value) \<notin> set (elems (fc_heap c) as) \<Longrightarrow>
     pop_loop key value c p (Some l) = Some (Inr (False, c))"
proof (induction as arbitrary: p l ln)
  case Nil
  then show ?case by (subst pop_loop.simps) simp
next
  case (Cons a as)
  then obtain n where "p = Some a" "fc_heap c a = Some n" "chain (fc_heap c) (fn_next n) as" by auto
  then show ?case using Cons.IH [of "fn_next n" a n] Cons.prems pop_loop_step [of c a n l ln key "value"] by auto
qed

definition unlinked :: "nat \<Rightarrow> nat \<Rightarrow> 'a node_heap \<Rightarrow> 'a node_heap" where
  "unlinked l q h = (h(l \<mapsto> (the (h l))\<lparr>fn_next := fn_next (the (h q))\<rparr>))(q := None)"

lemma pop_loop_found:
  "chain (fc_heap c) p (us @ q # vs) \<Longrightarrow> fc_heap c l = Some ln \<Longrightarrow> fn_next ln = p \<Longrightarrow>
     elems (fc_heap c) [q] = [(key, value)] \<Longrightarrow> (key, value) \<notin> set (elems (fc_heap c) us) \<Longrightarrow>
     pop_loop key value c p (Some l) =
       Some (Inr (True, c\<lparr>fc_heap := unlinked (last (l # us)) q (fc_heap c), fc_size := i64 (fc_size c - 1),
         fc_head := (if fc_head c = Some q then fn_next (the (fc_heap c q)) else fc_head c)\<rparr>))"
proof (induction us arbitrary: p l ln)
  case Nil
  then show ?case by (subst pop_loop.simps) (auto simp: unlinked_def)
next
  case (Cons u us)
  then obtain n where n: "p = Some u" "fc_heap c u = Some n" "chain (fc_heap c) (fn_next n) (us @ q # vs)" by auto
  have "(fn_key n, fn_value n) \<noteq> (key, value)" "(key, value) \<notin> set (elems (fc_heap c) us)" using Cons.prems(5) n(2) by auto
  then show ?case
    using Cons.IH [OF n(3,2) refl Cons.prems(4)] Cons.prems(2,3) n(1,2)
      pop_loop_step [of c u n l ln key "value"] by simp
qed

lemma unlinked_chain:
  "chain h p (us @ q # vs) \<Longrightarrow> h l = Some ln \<Longrightarrow> fn_next ln = p \<Longrightarrow> distinct (l # us @ q # vs) \<Longrightarrow>
     \<exists>ln'. unlinked (last (l # us)) q h l = Some ln' \<and> chain (unlinked (last (l # us)) q h) (fn_next ln') (us @ vs)"
proof (induction us arbitrary: p l ln)
  case Nil
  then obtain n where n: "h q = Some n" "chain h (fn_next n) vs" by auto
  have "chain (unlinked l q h) (fn_next n) vs"
    using n(2) Nil.prems(4) by (subst chain_frame [of vs _ h]) (auto simp: unlinked_def)
  moreover have "unlinked l q h l = Some (ln\<lparr>fn_next := fn_next n\<rparr>)" using Nil n(1) by (simp add: unlinked_def)
  ultimately show ?case by simp
next
  case (Cons u us)
  then obtain n where n: "p = Some u" "h u = Some n" "chain h (fn_next n) (us @ q # vs)" by auto
  from Cons.IH [OF n(3,2) refl] Cons.prems(4) obtain n' where
    n': "unlinked (last (u # us)) q h u = Some n'" "chain (unlinked (last (u # us)) q h) (fn_next n') (us @ vs)" by auto
  have "l \<noteq> last (u # us)" "l \<noteq> q" using Cons.prems(4) by (auto split: if_splits)
  then have "unlinked (last (u # us)) q h l = Some ln" using Cons.prems(2) by (simp add: unlinked_def)
  with n(1) n' Cons.prems(3) show ?case by auto
qed

lemma elems_unlinked:
  assumes "distinct (l # us @ q # vs)" and "set us \<subseteq> dom h"
  shows "elems (unlinked (last (l # us)) q h) (us @ vs) = elems h (us @ vs)"
proof -
  have "(fn_key (the (unlinked (last (l # us)) q h a)), fn_value (the (unlinked (last (l # us)) q h a))) =
      (fn_key (the (h a)), fn_value (the (h a)))" if "a \<in> set (us @ vs)" for a
    using that assms by (auto simp: unlinked_def)
  then show ?thesis unfolding elems_def by (intro map_cong refl)
qed

lemma chain_start: "chain h p as \<Longrightarrow> p = (case as of [] \<Rightarrow> None | a # _ \<Rightarrow> Some a)"
  by (cases as) auto

lemma chain_dom: "chain h p as \<Longrightarrow> set as \<subseteq> dom h"
  by (induction as arbitrary: p) auto

lemma chain_nth: "chain h p (us @ q # vs) \<Longrightarrow> \<exists>n. h q = Some n \<and> chain h (fn_next n) vs"
  by (induction us arbitrary: p) auto

text \<open>Without one of its nodes a cache holds the other elements.\<close>

lemma unlinked_holds:
  assumes c: "cache_holds c (us @ q # vs) xs" and len: "int (length xs) < 2 ^ 31"
  shows "cache_holds (c\<lparr>fc_heap := unlinked (last (fc_aider c # us)) q (fc_heap c), fc_size := i64 (fc_size c - 1),
      fc_head := (if fc_head c = Some q then fn_next (the (fc_heap c q)) else fc_head c)\<rparr>)
    (us @ vs) (elems (fc_heap c) us @ elems (fc_heap c) vs)"
proof -
  obtain aider where aider: "fc_heap c (fc_aider c) = Some aider" "chain (fc_heap c) (fn_next aider) (us @ q # vs)"
    using c by (auto simp: cache_holds_def)
  have d: "distinct (fc_aider c # us @ q # vs)" and xs: "xs = elems (fc_heap c) (us @ q # vs)"
    using c by (simp_all add: cache_holds_def)
  let ?h = "unlinked (last (fc_aider c # us)) q (fc_heap c)"
  let ?c = "c\<lparr>fc_heap := ?h, fc_size := i64 (fc_size c - 1),
    fc_head := (if fc_head c = Some q then fn_next (the (fc_heap c q)) else fc_head c)\<rparr>"
  obtain n where n: "fc_heap c q = Some n" "chain (fc_heap c) (fn_next n) vs"
    using chain_nth aider(2) by blast
  obtain ln where ln: "?h (fc_aider c) = Some ln" "chain ?h (fn_next ln) (us @ vs)"
    using unlinked_chain [OF aider(2,1) refl d] by blast
  have sub: "set (us @ q # vs) \<subseteq> dom (fc_heap c)" by (rule chain_dom [OF aider(2)])
  then have "set us \<subseteq> dom (fc_heap c)" by simp
  from elems_unlinked [OF d this]
  have el: "elems ?h (us @ vs) = elems (fc_heap c) us @ elems (fc_heap c) vs" by (simp only: elems_simps(3))
  have "last (fc_aider c # us) \<in> set (fc_aider c # us)" by (rule last_in_set) simp
  then have "last (fc_aider c # us) \<in> dom (fc_heap c)" "q \<noteq> last (fc_aider c # us)"
    using sub aider(1) d by auto
  then have "dom ?h = dom (fc_heap c) - {q}" by (auto simp: unlinked_def)
  then have "dom ?h = set (fc_aider c # us @ vs)" using c d by (auto simp: cache_holds_def)
  moreover have "fc_head ?c = (case us @ vs of [] \<Rightarrow> None | p # _ \<Rightarrow> Some p)"
    using c d n chain_start [OF n(2)] by (cases us) (auto simp: cache_holds_def)
  moreover have "distinct (map fst (elems (fc_heap c) us @ elems (fc_heap c) vs))"
  proof -
    have "distinct (map fst xs)" using c unfolding cache_holds_def by blast
    then show ?thesis by (simp add: xs)
  qed
  moreover have "i64 (fc_size c - 1) = fc_size c - 1"
    using c len cache_length [OF c] by (simp add: cache_holds_def i64_id)
  ultimately show ?thesis using ln el d c by (auto simp: cache_holds_def)
qed

lemma pop_holds:
  assumes c: "cache_holds c as xs" and len: "int (length xs) < 2 ^ 31"
  shows "\<exists>c' as'. FindCache_pop key value c = Some (Inr ((key, value) \<in> set xs, c')) \<and>
    cache_holds c' as' (remove1 (key, value) xs) \<and> fc_aider c' = fc_aider c"
proof -
  obtain aider where aider: "fc_heap c (fc_aider c) = Some aider" "chain (fc_heap c) (fn_next aider) as"
    using c by (auto simp: cache_holds_def)
  have xs: "xs = elems (fc_heap c) as" using c by (simp add: cache_holds_def)
  have pop: "FindCache_pop key value c = pop_loop key value c (fn_next aider) (Some (fc_aider c))"
    using aider(1) by (simp add: FindCache_pop_def first_node_def)
  show ?thesis
  proof (cases "(key, value) \<in> set xs")
    case False
    then show ?thesis using c pop pop_loop_absent [OF aider(2,1) refl] xs by (auto simp: remove1_idem)
  next
    case True
    then have "\<exists>a \<in> set as. elems (fc_heap c) [a] = [(key, value)]" unfolding xs elems_def by fastforce
    then obtain us q vs where as: "as = us @ q # vs" "elems (fc_heap c) [q] = [(key, value)]"
        "\<forall>a \<in> set us. elems (fc_heap c) [a] \<noteq> [(key, value)]"
      by (rule split_list_first_propE)
    have us: "(key, value) \<notin> set (elems (fc_heap c) us)" using as(3) by (auto simp: elems_def)
    note pop_loop_found [OF aider(2) [unfolded as(1)] aider(1) refl as(2) us]
    moreover note unlinked_holds [OF c [unfolded as(1)] len]
    moreover have "remove1 (key, value) xs = elems (fc_heap c) us @ elems (fc_heap c) vs"
      using xs as us by (simp add: remove1_append)
    ultimately show ?thesis using True pop by auto
  qed
qed

subsection \<open>Changing\<close>

lemma update_loop_absent:
  "chain h p as \<Longrightarrow> key \<notin> fst ` set (elems h as) \<Longrightarrow> update_loop key value h p = Some (Inr (False, h))"
  by (induction as arbitrary: p) (subst update_loop.simps; force)+

lemma update_loop_found:
  "chain h p (us @ q # vs) \<Longrightarrow> fn_key (the (h q)) = key \<Longrightarrow> key \<notin> fst ` set (elems h us) \<Longrightarrow>
     update_loop key value h p = Some (Inr (True, h(q \<mapsto> (the (h q))\<lparr>fn_value := value\<rparr>)))"
  by (induction us arbitrary: p) (subst update_loop.simps; force)+

lemma chain_value: "h q = Some n \<Longrightarrow> chain (h(q \<mapsto> n\<lparr>fn_value := v\<rparr>)) p as = chain h p as"
  by (induction as arbitrary: p) auto

lemma update_at: "key \<notin> fst ` set us \<Longrightarrow> AList.update key v (us @ (key, w) # vs) = us @ (key, v) # vs"
  by (induction us) auto

lemma update_holds:
  assumes c: "cache_holds c as xs"
  shows "\<exists>c' as'. FindCache_update key value c = Some (Inr (key \<in> fst ` set xs, c')) \<and>
    cache_holds c' as' (if key \<in> fst ` set xs then AList.update key value xs else xs) \<and> fc_aider c' = fc_aider c"
proof -
  obtain aider where aider: "fc_heap c (fc_aider c) = Some aider" "chain (fc_heap c) (fn_next aider) as"
    using c by (auto simp: cache_holds_def)
  have d: "distinct (fc_aider c # as)" and xs: "xs = elems (fc_heap c) as" using c by (simp_all add: cache_holds_def)
  have upd: "FindCache_update key value c =
      map_option (map_sum id (apsnd (\<lambda>h. c\<lparr>fc_heap := h\<rparr>))) (update_loop key value (fc_heap c) (fn_next aider))"
    using aider(1) by (simp add: FindCache_update_def first_node_def)
  show ?thesis
  proof (cases "key \<in> fst ` set xs")
    case False
    then show ?thesis using c upd update_loop_absent [OF aider(2)] xs by auto
  next
    case True
    then have "\<exists>a \<in> set as. fn_key (the (fc_heap c a)) = key" unfolding xs elems_def by auto
    then obtain us q vs where as: "as = us @ q # vs" "fn_key (the (fc_heap c q)) = key"
        "\<forall>a \<in> set us. fn_key (the (fc_heap c a)) \<noteq> key"
      by (rule split_list_first_propE)
    have us: "key \<notin> fst ` set (elems (fc_heap c) us)" using as(3) by (auto simp: elems_def)
    obtain n where n: "fc_heap c q = Some n" using chain_nth aider(2) [unfolded as(1)] by blast
    let ?h = "(fc_heap c)(q \<mapsto> n\<lparr>fn_value := value\<rparr>)"
    have r: "update_loop key value (fc_heap c) (fn_next aider) = Some (Inr (True, ?h))"
      using update_loop_found [OF aider(2) [unfolded as(1)] as(2) us] n by simp
    have "elems ?h us = elems (fc_heap c) us" "elems ?h vs = elems (fc_heap c) vs"
      using d as(1) by (auto intro!: elems_frame)
    moreover have "elems ?h [q] = [(key, value)]" using n as(2) by simp
    ultimately have el: "elems ?h as = elems (fc_heap c) us @ (key, value) # elems (fc_heap c) vs" using as(1) by simp
    have x: "xs = elems (fc_heap c) us @ (key, fn_value n) # elems (fc_heap c) vs" using xs as n by simp
    have "q \<noteq> fc_aider c" using d as(1) by auto
    moreover have "insert q (dom (fc_heap c)) = dom (fc_heap c)" using n by auto
    ultimately have "cache_holds (c\<lparr>fc_heap := ?h\<rparr>) as (elems (fc_heap c) us @ (key, value) # elems (fc_heap c) vs)"
      using c aider el x by (auto simp: cache_holds_def chain_value [of "fc_heap c" q n, OF n])
    then show ?thesis using True upd r x update_at [OF us] by auto
  qed
qed

lemma clear_loop_done:
  "chain h p as \<Longrightarrow> h aider \<noteq> None \<Longrightarrow> distinct (aider # as) \<Longrightarrow>
     clear_loop aider h p out = Some (Inr (out @ elems h as, \<lambda>x. if x \<in> set (aider # as) then None else h x))"
proof (induction as arbitrary: h p out)
  case Nil
  then show ?case by (subst clear_loop.simps) (auto simp: fun_eq_iff)
next
  case (Cons a as)
  then obtain n ai where n: "p = Some a" "h a = Some n" "chain h (fn_next n) as" "h aider = Some ai" by auto
  let ?h = "(h(aider \<mapsto> ai\<lparr>fn_next := fn_next n\<rparr>))(a := None)"
  have same: "?h b = h b" if "b \<in> set as" for b using that Cons.prems(3) by auto
  have ch: "chain ?h (fn_next n) as" and el: "elems ?h as = elems h as"
    using n(3) chain_frame [of as ?h h, OF same] elems_frame [of as ?h h, OF same] by simp_all
  have "clear_loop aider ?h (fn_next n) (out @ [(fn_key n, fn_value n)]) =
      Some (Inr ((out @ [(fn_key n, fn_value n)]) @ elems ?h as, \<lambda>x. if x \<in> set (aider # as) then None else ?h x))"
    by (rule Cons.IH [OF ch]) (use Cons.prems(3) in simp_all)
  moreover have "clear_loop aider h p out = clear_loop aider ?h (fn_next n) (out @ [(fn_key n, fn_value n)])"
    using n by (subst clear_loop.simps) simp
  moreover have "(\<lambda>x. if x \<in> set (aider # as) then None else ?h x) = (\<lambda>x. if x \<in> set (aider # a # as) then None else h x)"
    by (auto simp: fun_eq_iff)
  ultimately show ?case using n(2) by (simp add: el)
qed

section \<open>Runs\<close>

text \<open>The same on the association list.\<close>

fun ref_do :: "'a cache_op \<Rightarrow> ('a \<times> 'a) list \<Rightarrow> 'a cache_answer \<times> ('a \<times> 'a) list" where
  "ref_do (Op_push k v) xs = (Said (k \<notin> fst ` set xs), if k \<in> fst ` set xs then xs else (k, v) # xs)"
| "ref_do (Op_pop k v) xs = (Said ((k, v) \<in> set xs), remove1 (k, v) xs)"
| "ref_do (Op_update k v) xs = (Said (k \<in> fst ` set xs), if k \<in> fst ` set xs then AList.update k v xs else xs)"
| "ref_do (Op_find k) xs = (Found (ref_find k xs), xs)"
| "ref_do Op_size xs = (Counted (int (length xs)), xs)"

fun ref_run :: "'a cache_op list \<Rightarrow> ('a \<times> 'a) list \<Rightarrow> 'a cache_answer list \<times> ('a \<times> 'a) list" where
  "ref_run [] xs = ([], xs)"
| "ref_run (x # ops) xs = (case ref_do x xs of (r, xs) \<Rightarrow> apfst (Cons r) (ref_run ops xs))"

lemma do_holds:
  assumes "cache_holds c as xs" and "gives_free_memory alloc" and len: "int (length xs) + 1 < 2 ^ 31"
  shows "\<exists>c' as'. FindCache_do alloc x c = Some (Inr (fst (ref_do x xs), c')) \<and> cache_holds c' as' (snd (ref_do x xs))"
proof (cases x)
  case (Op_push k v)
  have "finite (dom (fc_heap c))" using assms(1) by (simp add: cache_holds_def)
  then have "fc_heap c (alloc (fc_heap c)) = None" using assms(2) by (simp add: gives_free_memory_def)
  from push_holds [OF assms(1) this len, of k v] Op_push show ?thesis by (auto split del: if_split)
next
  case (Op_pop k v)
  with pop_holds [OF assms(1) _, of k v] len show ?thesis by auto
next
  case (Op_update k v)
  with update_holds [OF assms(1), of k v] show ?thesis by (auto split del: if_split)
next
  case (Op_find k)
  with find_holds [OF assms(1) len, of k] assms(1) show ?thesis by auto
next
  case Op_size
  have "fc_size c = int (length xs)" using assms(1) by (auto simp: cache_holds_def elems_def)
  with Op_size assms(1) show ?thesis by (auto simp: get_size_def)
qed

lemma ref_do_length: "length (snd (ref_do x xs)) \<le> Suc (length xs)"
proof (cases x)
  case (Op_update k v)
  have "k \<in> fst ` set xs \<Longrightarrow> length (AList.update k v xs) = length xs"
    by (induction xs) auto
  with Op_update show ?thesis by simp
qed (auto simp: length_remove1)

lemma run_holds:
  assumes "gives_free_memory alloc"
  shows "cache_holds c as xs \<Longrightarrow> int (length xs) + int (length ops) < 2 ^ 31 \<Longrightarrow>
    \<exists>c' as'. FindCache_run alloc ops c = Some (Inr (fst (ref_run ops xs), c')) \<and> cache_holds c' as' (snd (ref_run ops xs))"
proof (induction ops arbitrary: c as xs)
  case (Cons x ops)
  obtain c1 as1 where 1: "FindCache_do alloc x c = Some (Inr (fst (ref_do x xs), c1))" "cache_holds c1 as1 (snd (ref_do x xs))"
    using do_holds [OF Cons.prems(1) assms, of x] Cons.prems(2) by auto
  from Cons.IH [OF 1(2)] Cons.prems(2) ref_do_length [of x xs] show ?case by (auto simp: 1(1) split: prod.split)
qed auto

lemma new_holds: "cache_holds (FindCache_new a k0 v0) [] []"
  by (simp add: cache_holds_def FindCache_new_def)

lemma clear_holds:
  assumes "cache_holds c as xs"
  shows "FindCache_clear c = Some (Inr (xs, \<lambda>_. None))"
proof -
  obtain aider where a: "fc_heap c (fc_aider c) = Some aider" "chain (fc_heap c) (fn_next aider) as"
    and d: "distinct (fc_aider c # as)" "dom (fc_heap c) = set (fc_aider c # as)" "xs = elems (fc_heap c) as"
    using assms by (auto simp: cache_holds_def)
  have "(\<lambda>x. if x \<in> set (fc_aider c # as) then None else fc_heap c x) = (\<lambda>_. None)"
    using d(2) by (auto simp: fun_eq_iff dom_def)
  then show ?thesis using clear_loop_done [OF a(2) _ d(1), of "[]"] a(1) d(3)
    by (simp add: FindCache_clear_def first_node_def)
qed

text \<open>
  C29: The linked list is an association list with unique keys. For every sequence of less than 2 ^ 31 operations on a new
  cache (so that a position fits an \<open>int\<close>) and every allocator that gives free memory, all loops end, no freed or null node is read, every
  answer (a found value with its position from 1, a refused second insertion, a removal that needs key and
  value to match, the size) is the one of the reference on lists, and the destructor then goes through
  exactly the elements that are left and frees every node, the first one included.
\<close>

theorem find_cache_equals_list:
  assumes "gives_free_memory alloc" and "length ops < 2 ^ 31"
  shows "\<exists>c. FindCache_run alloc ops (FindCache_new a k0 v0) = Some (Inr (fst (ref_run ops []), c)) \<and>
    distinct (map fst (snd (ref_run ops []))) \<and>
    FindCache_clear c = Some (Inr (snd (ref_run ops []), \<lambda>_. None))"
proof -
  obtain c as where c: "FindCache_run alloc ops (FindCache_new a k0 v0) = Some (Inr (fst (ref_run ops []), c))"
      "cache_holds c as (snd (ref_run ops []))"
    using run_holds [OF assms(1) new_holds, of ops a k0 v0] assms(2) by auto
  then show ?thesis using clear_holds [OF c(2)] by (auto simp: cache_holds_def)
qed

theorem find_cache_equals_list_witness:
  "\<exists>c. FindCache_run (\<lambda>h. LEAST a. h a = None)
      [Op_push ''a'' ''1'', Op_push ''b'' ''2'', Op_push ''a'' ''3'', Op_find ''a'', Op_update ''a'' ''4'', Op_pop ''a'' ''1'',
       Op_pop ''b'' ''2'', Op_find ''a'', Op_size] (FindCache_new 0 [] []) =
    Some (Inr ([Said True, Said True, Said False, Found \<lparr>bn_index = 2, bn_passwd = Some ''1''\<rparr>, Said True, Said False,
       Said True, Found \<lparr>bn_index = 1, bn_passwd = Some ''4''\<rparr>, Counted 1], c)) \<and>
    FindCache_clear c = Some (Inr ([(''a'', ''4'')], \<lambda>_. None))"
proof -
  have "gives_free_memory (\<lambda>h :: string node_heap. LEAST a. h a = None)" unfolding gives_free_memory_def
  proof (intro allI impI)
    fix h :: "string node_heap"
    assume "finite (dom h)"
    then have "\<exists>a. a \<notin> dom h" using ex_new_if_finite infinite_UNIV_nat by blast
    then show "h (LEAST a. h a = None) = None" by (auto simp: domIff intro: LeastI_ex)
  qed
  from find_cache_equals_list [OF this,
      of "[Op_push ''a'' ''1'', Op_push ''b'' ''2'', Op_push ''a'' ''3'', Op_find ''a'', Op_update ''a'' ''4'', Op_pop ''a'' ''1'',
       Op_pop ''b'' ''2'', Op_find ''a'', Op_size]" 0 "[]" "[]"]
  show ?thesis by (simp add: ref_find_def)
qed

end
