(* ===== verification/Address_Order.thy ===== *)
theory Address_Order
  imports Net_Address
begin

text \<open>
  The comparison operators of \<open>Address\<close> (\<open>src/util/address.cc\<close>), which look at the memory behind
  \<open>getAddr\<close> and at \<open>getAddrLen\<close>.
\<close>

record raw_address =
  ra_bytes :: "u8 list"
  ra_len :: u32

text \<open>\<open>memcmp\<close>: its sign says which of the first bytes that differ is greater.\<close>

fun memcmp :: "nat \<Rightarrow> u8 list \<Rightarrow> u8 list \<Rightarrow> int" where
  "memcmp (Suc n) (x # xs) (y # ys) = (if x < y then -1 else if y < x then 1 else memcmp n xs ys)"
| "memcmp _ _ _ = 0"

definition Address_less :: "raw_address \<Rightarrow> raw_address \<Rightarrow> bool" where
  "Address_less a rhs =
     (let minlen = min (ra_len a) (ra_len rhs);
          result = memcmp (unat minlen) (ra_bytes a) (ra_bytes rhs)
      in if result < 0 then True
         else if result > 0 then False
         else if ra_len a < ra_len rhs then True
         else False)"

definition Address_eq :: "raw_address \<Rightarrow> raw_address \<Rightarrow> bool" where
  "Address_eq a rhs \<longleftrightarrow> ra_len a = ra_len rhs \<and> memcmp (unat (ra_len a)) (ra_bytes a) (ra_bytes rhs) = 0"

definition Address_neq :: "raw_address \<Rightarrow> raw_address \<Rightarrow> bool" where
  "Address_neq a rhs \<longleftrightarrow> \<not> Address_eq a rhs"

text \<open>The bytes an address consists of; its memory holds at least as many.\<close>

definition image_of :: "raw_address \<Rightarrow> u8 list" where
  "image_of a = take (unat (ra_len a)) (ra_bytes a)"

definition raw_ok :: "raw_address \<Rightarrow> bool" where
  "raw_ok a \<longleftrightarrow> unat (ra_len a) \<le> length (ra_bytes a)"

lemma memcmp_take: "memcmp n xs ys = memcmp n (take n xs) (take n ys)"
  by (induction n xs ys rule: memcmp.induct) auto

lemma memcmp_lex:
  "n = min (length xs) (length ys) \<Longrightarrow>
     ord_class.lexordp xs ys \<longleftrightarrow> memcmp n xs ys < 0 \<or> memcmp n xs ys = 0 \<and> length xs < length ys"
proof (induction xs arbitrary: ys n)
  case Nil
  then show ?case by (cases ys) simp_all
next
  case (Cons x xs)
  then show ?case by (cases ys) (auto simp: neq_iff)
qed

lemma memcmp_eq: "length xs = n \<Longrightarrow> length ys = n \<Longrightarrow> memcmp n xs ys = 0 \<longleftrightarrow> xs = ys"
  by (induction n xs ys rule: memcmp.induct) (auto simp: neq_iff)

lemma memcmp_prefixes:
  assumes "m \<le> length xs" and "n \<le> length ys"
  shows "memcmp (min m n) xs ys = memcmp (min (length (take m xs)) (length (take n ys))) (take m xs) (take n ys)"
proof -
  have "min (length (take m xs)) (length (take n ys)) = min m n" using assms by simp
  moreover have "memcmp (min m n) (take m xs) (take n ys) = memcmp (min m n) xs ys"
    using memcmp_take [of "min m n" xs ys] memcmp_take [of "min m n" "take m xs" "take n ys"] by (simp add: min_def)
  ultimately show ?thesis by simp
qed

lemma sign_cases:
  "(if r < 0 then True else if r > 0 then False else if P then True else False) \<longleftrightarrow> r < 0 \<or> r = 0 \<and> P" for r :: int
  by auto

text \<open>
  The operators are the lexicographic order of the bytes an address consists of and their equality:
  for any two addresses exactly one of less, equal and greater holds, so that addresses can be keys of an
  ordered map.
\<close>

theorem address_order:
  assumes "raw_ok a" and "raw_ok b"
  shows "(Address_less a b \<longleftrightarrow> ord_class.lexordp (image_of a) (image_of b)) \<and>
    (Address_eq a b \<longleftrightarrow> image_of a = image_of b) \<and>
    (Address_neq a b \<longleftrightarrow> Address_less a b \<or> Address_less b a) \<and> \<not> (Address_less a b \<and> Address_less b a)"
proof -
  have less: "Address_less x y \<longleftrightarrow> ord_class.lexordp (image_of x) (image_of y)" if "raw_ok x" "raw_ok y" for x y
  proof -
    have len: "length (image_of x) = unat (ra_len x)" "length (image_of y) = unat (ra_len y)"
      using that by (simp_all add: raw_ok_def image_of_def)
    have "unat (min (ra_len x) (ra_len y)) = min (unat (ra_len x)) (unat (ra_len y))"
      by (simp add: min_def word_le_nat_alt)
    then have "memcmp (unat (min (ra_len x) (ra_len y))) (ra_bytes x) (ra_bytes y) =
        memcmp (min (length (image_of x)) (length (image_of y))) (image_of x) (image_of y)"
      using memcmp_prefixes [of "unat (ra_len x)" "ra_bytes x" "unat (ra_len y)" "ra_bytes y"] that
      by (simp only: raw_ok_def image_of_def)
    moreover have "Address_less x y \<longleftrightarrow>
        (let r = memcmp (unat (min (ra_len x) (ra_len y))) (ra_bytes x) (ra_bytes y)
         in r < 0 \<or> r = 0 \<and> unat (ra_len x) < unat (ra_len y))"
      unfolding Address_less_def Let_def word_less_nat_alt sign_cases by (rule refl)
    ultimately show ?thesis using memcmp_lex [OF refl, of "image_of x" "image_of y"] by (simp only: Let_def len)
  qed
  have eq: "Address_eq a b \<longleftrightarrow> image_of a = image_of b"
  proof (cases "ra_len a = ra_len b")
    case True
    then have "length (image_of a) = unat (ra_len a)" "length (image_of b) = unat (ra_len a)"
      using assms by (simp_all add: raw_ok_def image_of_def)
    from memcmp_eq [OF this] show ?thesis using True memcmp_take [of "unat (ra_len a)" "ra_bytes a" "ra_bytes b"]
      by (simp add: Address_eq_def image_of_def)
  next
    case False
    then have "unat (ra_len a) \<noteq> unat (ra_len b)" by (auto dest: word_unat_eq_iff [THEN iffD2])
    then have "length (image_of a) \<noteq> length (image_of b)" using assms by (simp add: raw_ok_def image_of_def)
    then show ?thesis using False by (auto simp: Address_eq_def)
  qed
  have "image_of a \<noteq> image_of b \<longleftrightarrow> ord_class.lexordp (image_of a) (image_of b) \<or> ord_class.lexordp (image_of b) (image_of a)"
    using lexordp_linear [of "image_of a" "image_of b"] lexordp_irreflexive' [of "image_of a"] by auto
  moreover have "\<not> (ord_class.lexordp (image_of a) (image_of b) \<and> ord_class.lexordp (image_of b) (image_of a))"
    using lexordp_antisym [of "image_of a" "image_of b"] by blast
  ultimately show ?thesis
    unfolding less [OF assms] less [OF assms(2,1)] Address_neq_def eq by blast
qed

theorem address_order_witness:
  "Address_less \<lparr>ra_bytes = [2, 0, 5], ra_len = 3\<rparr> \<lparr>ra_bytes = [2, 0, 5, 1], ra_len = 4\<rparr>"
  using address_order [of "\<lparr>ra_bytes = [2, 0, 5], ra_len = 3\<rparr>" "\<lparr>ra_bytes = [2, 0, 5, 1], ra_len = 4\<rparr>"]
  by (simp add: raw_ok_def image_of_def)

end
